(* ===== verification/Llvm.thy ===== *)
theory Llvm
  imports Prelude
begin

text \<open>
  What instruction selection and the subset check read of an LLVM module.  LLVM and \<open>inkwell\<close> are not
  part of the repository: a module is an argument of the definitions, given as the data that the API
  calls of the source return on it.  Each field is named after the call it stands for; a value's key
  is its pointer (\<open>as_value_ref() as usize\<close>), and so is a block's.
\<close>

datatype llvm_type = IntType u32 | PointerType | VoidType | OtherType

text \<open>
  \<open>const_int\<close> is the sign-extended value when \<open>LLVMIsAConstantInt\<close> holds, \<open>inttoptr_const\<close> the address
  of a constant \<open>inttoptr\<close> expression; a constant can be neither (\<open>undef\<close>).
\<close>

record llvm_value =
  value_key :: nat
  value_type :: llvm_type
  is_const :: bool
  const_int :: "i64 option"
  inttoptr_const :: "i64 option"

datatype llvm_operand = ValueOp llvm_value | BlockOp nat

datatype int_predicate = EQ | NE | UGT | UGE | ULT | ULE | SGT | SGE | SLT | SLE

datatype instruction_opcode =
    PhiI | ReturnI | BrI | CallI | ICmpI
  | AddI | SubI | MulI | AndI | OrI | XorI | ShlI | LShrI | AShrI
  | StoreI | LoadI | GetElementPtrI
  | CallBrI | InvokeI | AtomicRMWI | AtomicCmpXchgI | FenceI
  | OtherI

record llvm_callee =
  is_function :: bool
  callee_blocks :: nat
  callee_name :: string

record llvm_instr =
  value_ref :: nat
  get_opcode :: instruction_opcode
  get_type :: llvm_type
  get_operands :: "llvm_operand list"
  phi_incoming :: "(llvm_value \<times> nat) list"
  br_condition :: "llvm_value option"
  br_successors :: "nat list"
  icmp_predicate :: "int_predicate option"
  called_value :: llvm_callee
  arg_operands :: "llvm_value list"
  gep_source_type :: llvm_type

record llvm_block =
  block_key :: nat
  block_name :: string
  instructions :: "llvm_instr list"

record llvm_function =
  llvm_name :: string
  params :: "llvm_value list"
  return_type :: llvm_type
  basic_blocks :: "llvm_block list"

record llvm_module =
  module_functions :: "llvm_function list"

text \<open>
  The calls into LLVM that the driver makes, as one argument: the parser of IR text, the printer, and
  the three steps that precede a pass pipeline.  \<open>run_passes\<close> changes a module in place, so it
  returns the changed module.
\<close>

datatype optimization_level = NoneL | Less | DefaultL | Aggressive

record ('t, 'm) llvm_api =
  create_module_from_ir :: "string \<Rightarrow> string + llvm_module"
  print_to_string :: "llvm_module \<Rightarrow> string option"
  initialize_native :: "string + unit"
  target_from_triple :: "string + 't"
  create_target_machine :: "'t \<Rightarrow> optimization_level \<Rightarrow> 'm option"
  run_passes :: "llvm_module \<Rightarrow> string \<Rightarrow> 'm \<Rightarrow> string + llvm_module"

text \<open>An instruction with only a key, an opcode, a type and operands.\<close>

definition plain_instr :: "nat \<Rightarrow> instruction_opcode \<Rightarrow> llvm_type \<Rightarrow> llvm_operand list \<Rightarrow> llvm_instr" where
  "plain_instr k op ty ops =
     \<lparr>value_ref = k, get_opcode = op, get_type = ty, get_operands = ops, phi_incoming = [],
      br_condition = None, br_successors = [], icmp_predicate = None,
      called_value = \<lparr>is_function = False, callee_blocks = 0, callee_name = []\<rparr>, arg_operands = [],
      gep_source_type = VoidType\<rparr>"

definition int_value :: "nat \<Rightarrow> u32 \<Rightarrow> llvm_value" where
  "int_value k w = \<lparr>value_key = k, value_type = IntType w, is_const = False, const_int = None, inttoptr_const = None\<rparr>"

definition int_constant :: "nat \<Rightarrow> u32 \<Rightarrow> i64 \<Rightarrow> llvm_value" where
  "int_constant k w n = \<lparr>value_key = k, value_type = IntType w, is_const = True, const_int = Some n, inttoptr_const = None\<rparr>"

end
