(* ===== verification/Text.thy ===== *)
theory Text
  imports Prelude
begin

text \<open>
  The text operations of the Rust standard library that the emitter, the MIR printer and the
  parser use: integer formatting (\<open>{}\<close>, \<open>{:#x}\<close>), \<open>str::parse\<close>, \<open>trim\<close>, \<open>lines\<close>, \<open>split\<close>,
  \<open>split_once\<close>, \<open>strip_prefix\<close> and their kin.  Text is a list of bytes; \<open>.vliw\<close> files are ASCII, so
  bytes and characters coincide and the whitespace that \<open>trim\<close> removes is the ASCII whitespace.
\<close>

section \<open>Formatting integers\<close>

definition digit_char :: "nat \<Rightarrow> char" where
  "digit_char d = ''0123456789abcdef'' ! d"

fun show_radix :: "nat \<Rightarrow> nat \<Rightarrow> string" where
  "show_radix b n =
     (if b < 2 \<or> n < b then [digit_char n] else show_radix b (n div b) @ [digit_char (n mod b)])"

declare show_radix.simps [simp del]

definition show_nat :: "nat \<Rightarrow> string" where
  "show_nat n = show_radix 10 n"

definition show_hex :: "nat \<Rightarrow> string" where
  "show_hex n = ''0x'' @ show_radix 16 n"

definition show_i64 :: "i64 \<Rightarrow> string" where
  "show_i64 w = (if sint w < 0 then ''-'' @ show_nat (nat (- sint w)) else show_nat (nat (sint w)))"

definition unsigned_abs :: "i64 \<Rightarrow> nat" where
  "unsigned_abs w = nat \<bar>sint w\<bar>"


section \<open>Parsing integers\<close>

text \<open>
  \<open>char::to_digit\<close> accepts both letter cases.  \<open>from_str_radix\<close> takes an optional \<open>+\<close>, and an
  optional \<open>-\<close> for signed types only; a lone sign, an empty digit string, an invalid digit or a
  value out of range is an error.
\<close>

definition to_digit :: "nat \<Rightarrow> char \<Rightarrow> nat option" where
  "to_digit b c =
     (let n = of_char c :: nat;
          d = (if 48 \<le> n \<and> n \<le> 57 then n - 48
               else if 97 \<le> n \<and> n \<le> 122 then n - 87
               else if 65 \<le> n \<and> n \<le> 90 then n - 55 else 36)
      in if d < b then Some d else None)"

fun digits_value :: "nat \<Rightarrow> nat \<Rightarrow> string \<Rightarrow> nat option" where
  "digits_value b acc [] = Some acc"
| "digits_value b acc (c # cs) =
     (case to_digit b c of None \<Rightarrow> None | Some d \<Rightarrow> digits_value b (acc * b + d) cs)"

definition parse_digits :: "nat \<Rightarrow> string \<Rightarrow> nat option" where
  "parse_digits b s = (if s = [] then None else digits_value b 0 s)"

definition parse_unsigned :: "nat \<Rightarrow> string \<Rightarrow> nat option" where
  "parse_unsigned bound s =
     (let ds = (case s of c # rest \<Rightarrow> if c = CHR ''+'' then rest else s | [] \<Rightarrow> s)
      in case parse_digits 10 ds of
           None \<Rightarrow> None
         | Some n \<Rightarrow> if n < bound then Some n else None)"

definition parse_u8 :: "string \<Rightarrow> u8 option" where
  "parse_u8 s = map_option of_nat (parse_unsigned (2 ^ 8) s)"

definition parse_u32 :: "string \<Rightarrow> u32 option" where
  "parse_u32 s = map_option of_nat (parse_unsigned (2 ^ 32) s)"

definition parse_usize :: "string \<Rightarrow> nat option" where
  "parse_usize s = parse_unsigned (2 ^ 64) s"

definition parse_i64 :: "nat \<Rightarrow> string \<Rightarrow> i64 option" where
  "parse_i64 b s =
     (let (neg, ds) = (case s of
            c # rest \<Rightarrow> if c = CHR ''-'' then (True, rest)
                        else if c = CHR ''+'' then (False, rest) else (False, s)
          | [] \<Rightarrow> (False, s))
      in case parse_digits b ds of
           None \<Rightarrow> None
         | Some n \<Rightarrow>
             if neg then (if n \<le> 2 ^ 63 then Some (of_int (- int n)) else None)
             else (if n < 2 ^ 63 then Some (of_nat n) else None))"


section \<open>Slicing text\<close>

definition is_space :: "char \<Rightarrow> bool" where
  "is_space c \<longleftrightarrow> c \<in> {CHR 0x09, CHR 0x0A, CHR 0x0B, CHR 0x0C, CHR 0x0D, CHR '' ''}"

definition trim_start_matches :: "(char \<Rightarrow> bool) \<Rightarrow> string \<Rightarrow> string" where
  "trim_start_matches p s = dropWhile p s"

definition trim_end_matches :: "(char \<Rightarrow> bool) \<Rightarrow> string \<Rightarrow> string" where
  "trim_end_matches p s = rev (dropWhile p (rev s))"

definition trim :: "string \<Rightarrow> string" where
  "trim s = trim_end_matches is_space (trim_start_matches is_space s)"

fun strip_prefix :: "string \<Rightarrow> string \<Rightarrow> string option" where
  "strip_prefix [] s = Some s"
| "strip_prefix (c # cs) [] = None"
| "strip_prefix (c # cs) (d # ds) = (if c = d then strip_prefix cs ds else None)"

definition strip_suffix :: "string \<Rightarrow> string \<Rightarrow> string option" where
  "strip_suffix p s = map_option rev (strip_prefix (rev p) (rev s))"

definition starts_with :: "string \<Rightarrow> string \<Rightarrow> bool" where
  "starts_with p s \<longleftrightarrow> strip_prefix p s \<noteq> None"

text \<open>The parts of \<open>s\<close> before and after the first occurrence of \<open>sep\<close>.\<close>

fun split_once :: "string \<Rightarrow> string \<Rightarrow> (string \<times> string) option" where
  "split_once sep [] = (if sep = [] then Some ([], []) else None)"
| "split_once sep (c # cs) =
     (case strip_prefix sep (c # cs) of
        Some rest \<Rightarrow> Some ([], rest)
      | None \<Rightarrow> map_option (\<lambda>(a, b). (c # a, b)) (split_once sep cs))"

text \<open>\<open>str::split\<close> on a single character: always at least one piece.\<close>

fun split_char :: "char \<Rightarrow> string \<Rightarrow> string list" where
  "split_char sep [] = [[]]"
| "split_char sep (c # cs) =
     (if c = sep then [] # split_char sep cs
      else case split_char sep cs of
             p # ps \<Rightarrow> (c # p) # ps
           | [] \<Rightarrow> [[c]])"

definition newline :: char where
  "newline = CHR 0x0A"

text \<open>
  \<open>str::lines\<close>: split at line feeds, without the empty piece after a final line feed, and without
  a carriage return at the end of a line.
\<close>

definition strip_cr :: "string \<Rightarrow> string" where
  "strip_cr l = (case strip_suffix [CHR 0x0D] l of Some l' \<Rightarrow> l' | None \<Rightarrow> l)"

definition lines :: "string \<Rightarrow> string list" where
  "lines s =
     (let ps = split_char newline s in map strip_cr (if last ps = [] then butlast ps else ps))"

fun join :: "string \<Rightarrow> string list \<Rightarrow> string" where
  "join sep [] = []"
| "join sep [x] = x"
| "join sep (x # xs) = x @ sep @ join sep xs"


section \<open>Formatting and parsing integers are inverse\<close>

lemma less_16_iff:
  "(d::nat) < 16 \<longleftrightarrow> d = 0 \<or> d = 1 \<or> d = 2 \<or> d = 3 \<or> d = 4 \<or> d = 5 \<or> d = 6 \<or> d = 7
     \<or> d = 8 \<or> d = 9 \<or> d = 10 \<or> d = 11 \<or> d = 12 \<or> d = 13 \<or> d = 14 \<or> d = 15"
  by presburger

lemma digit_char_cases:
  assumes "d < (16::nat)"
  obtains "d = 0" | "d = 1" | "d = 2" | "d = 3" | "d = 4" | "d = 5" | "d = 6" | "d = 7"
    | "d = 8" | "d = 9" | "d = 10" | "d = 11" | "d = 12" | "d = 13" | "d = 14" | "d = 15"
  using assms unfolding less_16_iff by blast

lemma to_digit_digit_char: "d < b \<Longrightarrow> b \<le> 16 \<Longrightarrow> to_digit b (digit_char d) = Some d"
  by (rule digit_char_cases[of d]) (simp_all add: digit_char_def to_digit_def Let_def)

lemma digits_value_append:
  "digits_value b acc (xs @ ys) =
     (case digits_value b acc xs of None \<Rightarrow> None | Some n \<Rightarrow> digits_value b n ys)"
  by (induction xs arbitrary: acc) (auto split: option.splits)

lemma digits_value_show_radix:
  "2 \<le> b \<Longrightarrow> b \<le> 16 \<Longrightarrow> digits_value b 0 (show_radix b n) = Some n"
proof (induction b n rule: show_radix.induct)
  case (1 b n)
  show ?case
  proof (cases "n < b")
    case True
    then show ?thesis
      using 1 by (simp add: show_radix.simps[of b n] to_digit_digit_char)
  next
    case False
    then show ?thesis
      using 1 by (simp add: show_radix.simps[of b n] digits_value_append to_digit_digit_char)
  qed
qed

lemma show_radix_nonempty [simp]: "show_radix b n \<noteq> []"
  by (subst show_radix.simps) simp

lemma parse_digits_show_radix [simp]:
  "2 \<le> b \<Longrightarrow> b \<le> 16 \<Longrightarrow> parse_digits b (show_radix b n) = Some n"
  by (simp add: parse_digits_def digits_value_show_radix)

lemma set_show_radix: "2 \<le> b \<Longrightarrow> set (show_radix b n) \<subseteq> digit_char ` {..<b}"
proof (induction b n rule: show_radix.induct)
  case (1 b n)
  then show ?case by (auto simp: show_radix.simps[of b n])
qed

lemma digit_char_set: "digit_char ` {..<16} = set ''0123456789abcdef''"
proof -
  have "{..<16::nat} = {0,1,2,3,4,5,6,7,8,9,10,11,12,13,14,15}"
    by (simp add: set_eq_iff less_16_iff)
  then show ?thesis by (simp add: digit_char_def)
qed

lemma show_radix_chars: "2 \<le> b \<Longrightarrow> b \<le> 16 \<Longrightarrow> set (show_radix b n) \<subseteq> set ''0123456789abcdef''"
  using set_show_radix[of b n] digit_char_set by (metis image_mono lessThan_subset_iff subset_trans)

lemma show_nat_chars: "set (show_nat n) \<subseteq> set ''0123456789''"
proof -
  have "{..<10::nat} = {0,1,2,3,4,5,6,7,8,9}"
    unfolding set_eq_iff lessThan_iff by simp presburger
  then have "digit_char ` {..<10} = set ''0123456789''" by (simp add: digit_char_def)
  then show ?thesis using set_show_radix[of 10 n] by (simp add: show_nat_def)
qed

lemma show_nat_nonempty [simp]: "show_nat n \<noteq> []"
  by (simp add: show_nat_def)

lemma show_radix_hd_digit:
  assumes "2 \<le> b" "b \<le> 16"
  shows "hd (show_radix b n) \<noteq> CHR ''+'' \<and> hd (show_radix b n) \<noteq> CHR ''-''"
proof -
  have "hd (show_radix b n) \<in> set ''0123456789abcdef''"
    using show_radix_chars[OF assms, of n] by (meson hd_in_set show_radix_nonempty subset_iff)
  then show ?thesis by auto
qed

lemma show_radix_Cons:
  assumes "2 \<le> b" "b \<le> 16"
  obtains c cs where "show_radix b n = c # cs" "c \<noteq> CHR ''+''" "c \<noteq> CHR ''-''"
  using show_radix_hd_digit[OF assms, of n] show_radix_nonempty[of b n]
  by (metis list.collapse)

lemma parse_unsigned_show_nat:
  assumes "n < bound"
  shows "parse_unsigned bound (show_nat n) = Some n"
proof -
  obtain c cs where c: "show_radix 10 n = c # cs" "c \<noteq> CHR ''+''"
    by (rule show_radix_Cons[of 10 n]) simp_all
  have "parse_digits 10 (c # cs) = Some n"
    using parse_digits_show_radix[of 10 n] c(1) by simp
  then show ?thesis using assms c by (simp add: parse_unsigned_def show_nat_def)
qed

lemma unat_less_pow: "unat (w :: 'a::len word) < 2 ^ LENGTH('a)"
  by (rule unsigned_less)

lemma parse_u8_show [simp]: "parse_u8 (show_nat (unat w)) = Some w"
  using unat_less_pow[of w] by (simp add: parse_u8_def parse_unsigned_show_nat)

lemma parse_u32_show [simp]: "parse_u32 (show_nat (unat w)) = Some w"
  using unat_less_pow[of w] by (simp add: parse_u32_def parse_unsigned_show_nat)

lemma parse_usize_show: "n < 2 ^ 64 \<Longrightarrow> parse_usize (show_nat n) = Some n"
  by (simp add: parse_usize_def parse_unsigned_show_nat)

section \<open>Slicing what was put together\<close>

text \<open>Text without whitespace at either end is left alone by \<open>trim\<close>.\<close>

definition tight :: "string \<Rightarrow> bool" where
  "tight s \<longleftrightarrow> s \<noteq> [] \<and> \<not> is_space (hd s) \<and> \<not> is_space (last s)"

lemma trim_end_tight: "s \<noteq> [] \<Longrightarrow> \<not> p (last s) \<Longrightarrow> trim_end_matches p s = s"
  by (cases s rule: rev_cases) (simp_all add: trim_end_matches_def)

lemma trim_tight [simp]: "tight s \<Longrightarrow> trim s = s"
  by (cases s) (simp_all add: tight_def trim_def trim_start_matches_def trim_end_tight)

lemma trim_Nil [simp]: "trim [] = []"
  by (simp add: trim_def trim_start_matches_def trim_end_matches_def)

lemma is_space_blank [simp]: "is_space (CHR '' '')"
  by (simp add: is_space_def)

lemma trim_space_Cons [simp]: "trim (CHR '' '' # s) = trim s"
  by (simp add: trim_def trim_start_matches_def)

lemma trim_end_append_spaces:
  "\<forall>c \<in> set t. p c \<Longrightarrow> trim_end_matches p (s @ t) = trim_end_matches p s"
  using dropWhile_append2[of "rev t" p "rev s"] by (simp add: trim_end_matches_def)

lemma trim_append_spaces: "\<forall>c \<in> set t. is_space c \<Longrightarrow> tight s \<Longrightarrow> trim (s @ t) = s"
proof -
  assume t: "\<forall>c \<in> set t. is_space c" and s: "tight s"
  obtain c cs where "s = c # cs" using s by (cases s) (auto simp: tight_def)
  then have "trim_start_matches is_space (s @ t) = s @ t"
    using s by (simp add: tight_def trim_start_matches_def)
  then show ?thesis using t s by (simp add: trim_def trim_end_append_spaces trim_end_tight tight_def)
qed

lemma strip_prefix_append [simp]: "strip_prefix p (p @ s) = Some s"
  by (induction p) simp_all

lemma strip_suffix_append [simp]: "strip_suffix p (s @ p) = Some s"
  by (simp add: strip_suffix_def)

lemma strip_prefix_eq_Some: "strip_prefix p s = Some t \<longleftrightarrow> s = p @ t"
  by (induction p s rule: strip_prefix.induct) auto

lemma strip_prefix_hd: "p \<noteq> [] \<Longrightarrow> c \<noteq> hd p \<Longrightarrow> strip_prefix p (c # s) = None"
  by (cases p) simp_all

lemma split_once_append:
  assumes "sep \<noteq> []" "hd sep \<notin> set a"
  shows "split_once sep (a @ sep @ b) = Some (a, b)"
  using assms(2)
proof (induction a)
  case Nil
  obtain c cs where "sep = c # cs" using assms(1) by (cases sep) auto
  then show ?case using strip_prefix_append[of sep b] by simp
next
  case (Cons x a)
  then show ?case using strip_prefix_hd[OF assms(1), of x] by auto
qed

lemma split_once_absent: "c \<in> set sep \<Longrightarrow> c \<notin> set s \<Longrightarrow> split_once sep s = None"
proof (induction s)
  case (Cons x s)
  have "strip_prefix sep (x # s) = None"
  proof (rule ccontr)
    assume "strip_prefix sep (x # s) \<noteq> None"
    then obtain t where "x # s = sep @ t" using strip_prefix_eq_Some by blast
    then show False using Cons.prems by (metis Un_iff set_append)
  qed
  then show ?case using Cons by simp
qed auto

lemma split_char_absent: "sep \<notin> set s \<Longrightarrow> split_char sep s = [s]"
  by (induction s) auto

lemma split_char_append: "sep \<notin> set a \<Longrightarrow> split_char sep (a @ sep # b) = a # split_char sep b"
  by (induction a) auto

lemma split_char_nonempty [simp]: "split_char sep s \<noteq> []"
  by (induction s) (auto split: list.splits)

lemma lines_concat:
  assumes "\<forall>l \<in> set ls. newline \<notin> set l \<and> CHR 0x0D \<notin> set l"
  shows "lines (concat (map (\<lambda>l. l @ [newline]) ls)) = ls"
proof -
  have "split_char newline (concat (map (\<lambda>l. l @ [newline]) ls)) = ls @ [[]]"
    using assms by (induction ls) (simp_all add: split_char_append)
  moreover have "strip_cr l = l" if "l \<in> set ls" for l
    using assms that by (cases l rule: rev_cases) (auto simp: strip_cr_def strip_suffix_def)
  ultimately show ?thesis by (simp add: lines_def map_idI)
qed

lemma trim_split_join:
  assumes "xs \<noteq> []" "\<forall>x \<in> set xs. tight x \<and> CHR '','' \<notin> set x"
  shows "map trim (split_char (CHR '','') (join '', '' xs)) = xs"
  using assms
proof (induction xs rule: induct_list012)
  case (3 x y zs)
  have "map trim (split_char (CHR '','') (CHR '' '' # s)) = map trim (split_char (CHR '','') s)" for s
    by (cases "split_char (CHR '','') s") simp_all
  with 3 show ?case by (simp add: split_char_append)
qed (simp_all add: split_char_absent)

lemma join_tight:
  assumes "xs \<noteq> []" "\<forall>x \<in> set xs. tight x"
  shows "tight (join sep xs)"
  using assms
proof (induction xs rule: induct_list012)
  case (3 x y zs)
  then have "tight (join sep (y # zs))" "tight x" by simp_all
  then show ?case by (cases x) (auto simp: tight_def)
qed simp_all

lemma set_join: "set (join sep xs) \<subseteq> \<Union> (set ` set xs) \<union> set sep"
  by (induction sep xs rule: join.induct) auto


lemma trim_last: "trim s \<noteq> [] \<Longrightarrow> \<not> is_space (last (trim s))"
proof -
  have "\<not> p (last (trim_end_matches p t))" if "trim_end_matches p t \<noteq> []" for p t
    using that hd_dropWhile[of p "rev t"] by (simp add: trim_end_matches_def last_rev)
  then show "trim s \<noteq> [] \<Longrightarrow> \<not> is_space (last (trim s))" by (simp add: trim_def)
qed

lemma trim_eq_Nil: "trim s = [] \<longleftrightarrow> (\<forall>c \<in> set s. is_space c)"
proof
  assume "trim s = []"
  then have "\<forall>c \<in> set (dropWhile is_space s). is_space c"
    by (auto simp: trim_def trim_end_matches_def trim_start_matches_def)
  then have "dropWhile is_space s = []" by (metis hd_dropWhile hd_in_set)
  then show "\<forall>c \<in> set s. is_space c" by simp
next
  assume "\<forall>c \<in> set s. is_space c"
  then have "trim ([] @ s) = trim []"
    by (simp add: trim_def trim_start_matches_def trim_end_matches_def dropWhile_eq_Nil_conv[THEN iffD2])
  then show "trim s = []" by simp
qed

lemma split_once_eq: "split_once sep s = Some (a, b) \<Longrightarrow> s = a @ sep @ b"
  by (induction s arbitrary: a) (auto simp: strip_prefix_eq_Some split: if_splits option.splits)


section \<open>Signed numbers\<close>

lemma parse_i64_digits:
  assumes "2 \<le> b" "b \<le> 16" "n < 2 ^ 63"
  shows "parse_i64 b (show_radix b n) = Some (of_nat n)"
proof -
  obtain c cs where c: "show_radix b n = c # cs" "c \<noteq> CHR ''+''" "c \<noteq> CHR ''-''"
    by (rule show_radix_Cons[OF assms(1,2)])
  have "parse_digits b (c # cs) = Some n"
    using parse_digits_show_radix[OF assms(1,2), of n] c(1) by simp
  then show ?thesis using assms(3) c by (simp add: parse_i64_def)
qed

lemma parse_i64_minus_digits:
  "2 \<le> b \<Longrightarrow> b \<le> 16 \<Longrightarrow> n \<le> 2 ^ 63 \<Longrightarrow> parse_i64 b (CHR ''-'' # show_radix b n) = Some (of_int (- int n))"
  by (simp add: parse_i64_def)

lemma sint_i64_bounds: "- (2 ^ 63) \<le> sint (w :: i64)" "sint (w :: i64) < 2 ^ 63"
  using sint_range_size[of w] by (simp_all add: word_size)

lemma parse_show_i64 [simp]: "parse_i64 10 (show_i64 w) = Some w"
proof (cases "sint w < 0")
  case True
  have "nat (- sint w) \<le> 2 ^ 63" using sint_i64_bounds(1)[of w] by simp
  then have "parse_i64 10 (CHR ''-'' # show_radix 10 (nat (- sint w))) = Some (of_int (- int (nat (- sint w))))"
    by (intro parse_i64_minus_digits) simp_all
  moreover have "(of_int (- int (nat (- sint w))) :: i64) = w" using True by simp
  ultimately show ?thesis using True by (simp only: show_i64_def show_nat_def if_True append.simps)
next
  case False
  have "nat (sint w) < 2 ^ 63" using sint_i64_bounds(2)[of w] by simp
  moreover have "(of_nat (nat (sint w)) :: i64) = w"
    using False by (simp add: of_nat_nat)
  ultimately show ?thesis
    using False parse_i64_digits[of 10 "nat (sint w)"] by (simp add: show_i64_def show_nat_def)
qed

end
