(* ===== verification/Opcode.thy ===== *)
theory Opcode
  imports Prelude
begin

text \<open>
  Component \<open>vliw-asm/src/opcode.rs\<close>: the instruction set's opcodes, their mnemonics, and the
  slot-legality and scheduling metadata.
\<close>

datatype unit_kind = IntegerAlu | Memory | Control | Multiplier | FloatingPoint | Aes

datatype opcode =
    Add | Sub | And | Or | Xor | Shl | Srl | Sra | Mov | MovImm | CmpEq | CmpLt | CmpUlt
  | LoadB | LoadH | LoadW | LoadD | StoreB | StoreH | StoreW | StoreD
  | Lea | Prefetch | AcqLoad | RelStore
  | Mul | MulH
  | Branch | Jump | Call | Ret | PAnd | POr | PXor | PNot
  | FpAdd32 | FpMul32 | FpAdd64 | FpMul64
  | AesEnc | AesDec
  | Nop

definition from_kind_str :: "string \<Rightarrow> unit_kind option" where
  "from_kind_str s =
     (if s = ''integer_alu'' then Some IntegerAlu
      else if s = ''memory'' then Some Memory
      else if s = ''control'' then Some Control
      else if s = ''multiplier'' then Some Multiplier
      else if s = ''floating_point'' then Some FloatingPoint
      else if s = ''aes'' then Some Aes
      else None)"

definition from_mnemonic :: "string \<Rightarrow> opcode option" where
  "from_mnemonic s =
     (if s = ''add'' then Some Add
      else if s = ''sub'' then Some Sub
      else if s = ''and'' then Some And
      else if s = ''or'' then Some Or
      else if s = ''xor'' then Some Xor
      else if s = ''shl'' then Some Shl
      else if s = ''srl'' then Some Srl
      else if s = ''sra'' then Some Sra
      else if s = ''mov'' then Some Mov
      else if s = ''movi'' then Some MovImm
      else if s = ''cmpeq'' then Some CmpEq
      else if s = ''cmplt'' then Some CmpLt
      else if s = ''cmpult'' then Some CmpUlt
      else if s = ''ldb'' then Some LoadB
      else if s = ''ldh'' then Some LoadH
      else if s = ''ldw'' then Some LoadW
      else if s = ''ldd'' then Some LoadD
      else if s = ''stb'' then Some StoreB
      else if s = ''sth'' then Some StoreH
      else if s = ''stw'' then Some StoreW
      else if s = ''std'' then Some StoreD
      else if s = ''lea'' then Some Lea
      else if s = ''prefetch'' then Some Prefetch
      else if s = ''acqload'' then Some AcqLoad
      else if s = ''relstore'' then Some RelStore
      else if s = ''mul'' then Some Mul
      else if s = ''mulh'' then Some MulH
      else if s = ''br'' then Some Branch
      else if s = ''jmp'' then Some Jump
      else if s = ''call'' then Some Call
      else if s = ''ret'' then Some Ret
      else if s = ''pand'' then Some PAnd
      else if s = ''por'' then Some POr
      else if s = ''pxor'' then Some PXor
      else if s = ''pnot'' then Some PNot
      else if s = ''fpadd32'' then Some FpAdd32
      else if s = ''fpmul32'' then Some FpMul32
      else if s = ''fpadd64'' then Some FpAdd64
      else if s = ''fpmul64'' then Some FpMul64
      else if s = ''aesenc'' then Some AesEnc
      else if s = ''aesdec'' then Some AesDec
      else if s = ''nop'' then Some Nop
      else None)"

primrec mnemonic :: "opcode \<Rightarrow> string" where
  "mnemonic Add = ''add''"
| "mnemonic Sub = ''sub''"
| "mnemonic And = ''and''"
| "mnemonic Or = ''or''"
| "mnemonic Xor = ''xor''"
| "mnemonic Shl = ''shl''"
| "mnemonic Srl = ''srl''"
| "mnemonic Sra = ''sra''"
| "mnemonic Mov = ''mov''"
| "mnemonic MovImm = ''movi''"
| "mnemonic CmpEq = ''cmpeq''"
| "mnemonic CmpLt = ''cmplt''"
| "mnemonic CmpUlt = ''cmpult''"
| "mnemonic LoadB = ''ldb''"
| "mnemonic LoadH = ''ldh''"
| "mnemonic LoadW = ''ldw''"
| "mnemonic LoadD = ''ldd''"
| "mnemonic StoreB = ''stb''"
| "mnemonic StoreH = ''sth''"
| "mnemonic StoreW = ''stw''"
| "mnemonic StoreD = ''std''"
| "mnemonic Lea = ''lea''"
| "mnemonic Prefetch = ''prefetch''"
| "mnemonic AcqLoad = ''acqload''"
| "mnemonic RelStore = ''relstore''"
| "mnemonic Mul = ''mul''"
| "mnemonic MulH = ''mulh''"
| "mnemonic Branch = ''br''"
| "mnemonic Jump = ''jmp''"
| "mnemonic Call = ''call''"
| "mnemonic Ret = ''ret''"
| "mnemonic PAnd = ''pand''"
| "mnemonic POr = ''por''"
| "mnemonic PXor = ''pxor''"
| "mnemonic PNot = ''pnot''"
| "mnemonic FpAdd32 = ''fpadd32''"
| "mnemonic FpMul32 = ''fpmul32''"
| "mnemonic FpAdd64 = ''fpadd64''"
| "mnemonic FpMul64 = ''fpmul64''"
| "mnemonic AesEnc = ''aesenc''"
| "mnemonic AesDec = ''aesdec''"
| "mnemonic Nop = ''nop''"

definition units :: "opcode \<Rightarrow> unit_kind list" where
  "units op =
     (case op of
        Add \<Rightarrow> [IntegerAlu] | Sub \<Rightarrow> [IntegerAlu] | And \<Rightarrow> [IntegerAlu] | Or \<Rightarrow> [IntegerAlu]
      | Xor \<Rightarrow> [IntegerAlu] | Shl \<Rightarrow> [IntegerAlu] | Srl \<Rightarrow> [IntegerAlu] | Sra \<Rightarrow> [IntegerAlu]
      | Mov \<Rightarrow> [IntegerAlu] | MovImm \<Rightarrow> [IntegerAlu] | CmpEq \<Rightarrow> [IntegerAlu]
      | CmpLt \<Rightarrow> [IntegerAlu] | CmpUlt \<Rightarrow> [IntegerAlu]
      | LoadB \<Rightarrow> [Memory] | LoadH \<Rightarrow> [Memory] | LoadW \<Rightarrow> [Memory] | LoadD \<Rightarrow> [Memory]
      | StoreB \<Rightarrow> [Memory] | StoreH \<Rightarrow> [Memory] | StoreW \<Rightarrow> [Memory] | StoreD \<Rightarrow> [Memory]
      | Lea \<Rightarrow> [Memory] | Prefetch \<Rightarrow> [Memory] | AcqLoad \<Rightarrow> [Memory] | RelStore \<Rightarrow> [Memory]
      | Branch \<Rightarrow> [Control] | Jump \<Rightarrow> [Control] | Call \<Rightarrow> [Control] | Ret \<Rightarrow> [Control]
      | PAnd \<Rightarrow> [Control] | POr \<Rightarrow> [Control] | PXor \<Rightarrow> [Control] | PNot \<Rightarrow> [Control]
      | Mul \<Rightarrow> [Multiplier] | MulH \<Rightarrow> [Multiplier]
      | FpAdd32 \<Rightarrow> [FloatingPoint] | FpMul32 \<Rightarrow> [FloatingPoint]
      | FpAdd64 \<Rightarrow> [FloatingPoint] | FpMul64 \<Rightarrow> [FloatingPoint]
      | AesEnc \<Rightarrow> [Aes] | AesDec \<Rightarrow> [Aes]
      | Nop \<Rightarrow> [])"

definition latency :: "opcode \<Rightarrow> nat" where
  "latency op =
     (case op of
        Add \<Rightarrow> 1 | Sub \<Rightarrow> 1 | And \<Rightarrow> 1 | Or \<Rightarrow> 1 | Xor \<Rightarrow> 1 | Shl \<Rightarrow> 1 | Srl \<Rightarrow> 1 | Sra \<Rightarrow> 1
      | Mov \<Rightarrow> 1 | MovImm \<Rightarrow> 1 | CmpEq \<Rightarrow> 1 | CmpLt \<Rightarrow> 1 | CmpUlt \<Rightarrow> 1
      | LoadB \<Rightarrow> 3 | LoadH \<Rightarrow> 3 | LoadW \<Rightarrow> 3 | LoadD \<Rightarrow> 3 | AcqLoad \<Rightarrow> 3
      | StoreB \<Rightarrow> 1 | StoreH \<Rightarrow> 1 | StoreW \<Rightarrow> 1 | StoreD \<Rightarrow> 1 | RelStore \<Rightarrow> 1
      | Lea \<Rightarrow> 1 | Prefetch \<Rightarrow> 1
      | Mul \<Rightarrow> 3 | MulH \<Rightarrow> 3
      | Branch \<Rightarrow> 1 | Jump \<Rightarrow> 1 | Call \<Rightarrow> 1 | Ret \<Rightarrow> 1 | PAnd \<Rightarrow> 1 | POr \<Rightarrow> 1 | PXor \<Rightarrow> 1 | PNot \<Rightarrow> 1
      | FpAdd32 \<Rightarrow> 4 | FpMul32 \<Rightarrow> 4 | FpAdd64 \<Rightarrow> 6 | FpMul64 \<Rightarrow> 6
      | AesEnc \<Rightarrow> 4 | AesDec \<Rightarrow> 4
      | Nop \<Rightarrow> 0)"

definition writes_gpr :: "opcode \<Rightarrow> bool" where
  "writes_gpr op \<longleftrightarrow>
     op \<in> set [Add, Sub, And, Or, Xor, Shl, Srl, Sra, Mov, MovImm, Mul, MulH, Lea,
              LoadB, LoadH, LoadW, LoadD, AcqLoad, FpAdd32, FpMul32, FpAdd64, FpMul64,
              AesEnc, AesDec, Call]"

definition writes_pred :: "opcode \<Rightarrow> bool" where
  "writes_pred op \<longleftrightarrow> op \<in> set [CmpEq, CmpLt, CmpUlt, PAnd, POr, PXor, PNot]"

definition writes_mem :: "opcode \<Rightarrow> bool" where
  "writes_mem op \<longleftrightarrow> op \<in> set [StoreB, StoreH, StoreW, StoreD, RelStore]"

lemmas opcode_tables [table_simps] =
  units_def latency_def writes_gpr_def writes_pred_def writes_mem_def


section \<open>Mnemonics\<close>

lemma from_mnemonic_mnemonic [simp]: "from_mnemonic (mnemonic op) = Some op"
  by (cases op) (simp_all add: from_mnemonic_def)

lemma from_mnemonic_Some_mnemonic: "from_mnemonic s = Some op \<Longrightarrow> s = mnemonic op"
  by (simp add: from_mnemonic_def split: if_split_asm)

text \<open>
  C28: mnemonics are a lossless encoding of opcodes: \<open>Opcode::from_mnemonic\<close> accepts exactly the
  strings that \<open>Opcode::mnemonic\<close> produces and inverts them.  The emitter prints opcodes with
  \<open>mnemonic\<close> and the verifier, the packer and the parser read them back with \<open>from_mnemonic\<close>, so
  no two opcodes share a spelling and no other spelling is taken for an opcode.
\<close>

theorem mnemonic_roundtrip: "from_mnemonic s = Some op \<longleftrightarrow> s = mnemonic op"
  using from_mnemonic_Some_mnemonic by auto


section \<open>Metadata\<close>

lemma writes_pred_latency: "writes_pred op \<Longrightarrow> latency op = 1"
  by (cases op) (simp_all add: table_simps)

end
