(* ===== verification/Asm.thy ===== *)
theory Asm
  imports Text Opcode
begin

text \<open>
  Component \<open>vliw-asm/src/lib.rs\<close>: the \<open>.vliw\<close> program model (operands, processor description,
  bundles, items) and the text emitter.  Formatting into a \<open>String\<close> cannot fail, so \<open>emit\<close>, whose
  Rust type is \<open>Result<String, EmitError>\<close>, is a total function to text here.
\<close>

definition DEFAULT_MEMORY_SIZE :: u64 where
  "DEFAULT_MEMORY_SIZE = 0x10000"

datatype operand =
    Reg u8
  | Pred u8
  | Imm i64
  | MemAddr u8 i64
  | Label string

definition show_operand :: "operand \<Rightarrow> string" where
  "show_operand opr =
     (case opr of
        Reg n \<Rightarrow> ''r'' @ show_nat (unat n)
      | Pred n \<Rightarrow> ''p'' @ show_nat (unat n)
      | Imm n \<Rightarrow> show_i64 n
      | MemAddr base offset \<Rightarrow>
          if offset = 0 then ''[r'' @ show_nat (unat base) @ '']''
          else if 0 < sint offset then
            ''[r'' @ show_nat (unat base) @ '' + '' @ show_hex (nat (sint offset)) @ '']''
          else
            ''[r'' @ show_nat (unat base) @ '' - '' @ show_hex (unsigned_abs offset) @ '']''
      | Label s \<Rightarrow> s)"

record unit_decl =
  unit_name :: string
  unit_kind_name :: string

record slot_alias =
  alias_name :: string
  alias_slot :: nat

record topology_spec =
  cpus :: u32

text \<open>The parameterless \<open>CacheSpec\<close> has one value and is dropped from the record.\<close>

record processor =
  width :: u32
  proc_units :: "unit_decl list"
  slot_aliases :: "slot_alias list"
  slot_units :: "string list list"
  topology :: topology_spec
  memory_size :: u64

abbreviation "width_of p \<equiv> unat (width p)"

definition default_processor :: processor where
  "default_processor =
     \<lparr> width = 4,
       proc_units =
         [\<lparr>unit_name = ''alu'', unit_kind_name = ''integer_alu''\<rparr>,
          \<lparr>unit_name = ''mem'', unit_kind_name = ''memory''\<rparr>,
          \<lparr>unit_name = ''ctrl'', unit_kind_name = ''control''\<rparr>,
          \<lparr>unit_name = ''mul'', unit_kind_name = ''multiplier''\<rparr>],
       slot_aliases =
         [\<lparr>alias_name = ''I0'', alias_slot = 0\<rparr>,
          \<lparr>alias_name = ''I1'', alias_slot = 1\<rparr>,
          \<lparr>alias_name = ''M'', alias_slot = 2\<rparr>,
          \<lparr>alias_name = ''X'', alias_slot = 3\<rparr>],
       slot_units = [[''alu''], [''alu''], [''mem''], [''ctrl'', ''mul'']],
       topology = \<lparr>cpus = 1\<rparr>,
       memory_size = DEFAULT_MEMORY_SIZE \<rparr>"

record asm_syllable =
  syl_opcode :: string
  syl_operands :: "operand list"

record asm_bundle =
  slots :: "asm_syllable option list"

datatype item =
    LabelItem string
  | BundleItem asm_bundle

record program =
  processor :: processor
  items :: "item list"

definition new_syllable :: "string \<Rightarrow> operand list \<Rightarrow> asm_syllable" where
  "new_syllable op oprs = \<lparr>syl_opcode = op, syl_operands = oprs\<rparr>"

definition empty_bundle :: asm_bundle where
  "empty_bundle = \<lparr>slots = []\<rparr>"

definition slot_syllable :: "asm_bundle \<Rightarrow> nat \<Rightarrow> asm_syllable option" where
  "slot_syllable b slot = Option.bind (get (slots b) slot) id"

definition writeln :: "string \<Rightarrow> string" where
  "writeln s = s @ [newline]"

definition emit_header :: "processor \<Rightarrow> string" where
  "emit_header p =
     writeln ''.processor {'' @
     writeln (''  width '' @ show_nat (unat (width p))) @
     writeln '''' @
     writeln ''  hardware {'' @
     concat (map (\<lambda>u. writeln (''    unit '' @ unit_name u @ '' = '' @ unit_kind_name u)) (proc_units p)) @
     writeln ''  }'' @
     writeln '''' @
     writeln ''  layout slots {'' @
     concat (map (\<lambda>a. writeln (''    alias '' @ alias_name a @ '' = '' @ show_nat (alias_slot a)))
               (slot_aliases p)) @
     writeln '''' @
     concat (map (\<lambda>(i, us). writeln (''    '' @ show_nat i @ '' = { '' @ join '', '' us @ '' }''))
               (enumerate 0 (slot_units p))) @
     writeln ''  }'' @
     writeln '''' @
     (if memory_size p \<noteq> DEFAULT_MEMORY_SIZE
      then writeln '''' @ writeln (''  memory { size '' @ show_hex (unat (memory_size p)) @ '' }'')
      else '''') @
     writeln ''  cache { }'' @
     writeln (''  topology { cpus '' @ show_nat (unat (cpus (topology p))) @ '' }'') @
     writeln ''}''"

definition pad_right :: "nat \<Rightarrow> string \<Rightarrow> string" where
  "pad_right n s = s @ replicate (n - length s) (CHR '' '')"

definition slot_display_names :: "processor \<Rightarrow> string list" where
  "slot_display_names p =
     (let max_width = (if slot_aliases p = [] then 1
                       else Max (set (map (length \<circ> alias_name) (slot_aliases p))))
      in map (\<lambda>slot.
           pad_right max_width
             (case find (\<lambda>a. alias_slot a = slot) (slot_aliases p) of
                Some a \<Rightarrow> alias_name a
              | None \<Rightarrow> ''??''))
           [0..<width_of p])"

definition emit_slot :: "string \<Rightarrow> asm_syllable option \<Rightarrow> string" where
  "emit_slot name content =
     (case content of
        None \<Rightarrow> writeln (''  '' @ name @ '': nop'')
      | Some syl \<Rightarrow>
          if syl_operands syl = [] then writeln (''  '' @ name @ '': '' @ syl_opcode syl)
          else writeln (''  '' @ name @ '': '' @ syl_opcode syl @ '' '' @
                        join '', '' (map show_operand (syl_operands syl))))"

definition emit_bundle :: "asm_bundle \<Rightarrow> processor \<Rightarrow> string" where
  "emit_bundle b p =
     (let names = slot_display_names p
      in writeln ''{'' @
         concat (map (\<lambda>slot.
             emit_slot (case get names slot of Some n \<Rightarrow> n | None \<Rightarrow> ''??'') (slot_syllable b slot))
           [0..<width_of p]) @
         writeln ''}'')"

definition emit_item :: "processor \<Rightarrow> item \<Rightarrow> string" where
  "emit_item p it =
     (case it of
        LabelItem name \<Rightarrow> writeln (name @ '':'')
      | BundleItem b \<Rightarrow> emit_bundle b p)"

definition emit :: "program \<Rightarrow> string" where
  "emit prog =
     emit_header (processor prog) @ [newline] @
     concat (map (emit_item (processor prog)) (items prog))"

lemma new_syllable_sel [simp]:
  "syl_opcode (new_syllable op oprs) = op" "syl_operands (new_syllable op oprs) = oprs"
  by (simp_all add: new_syllable_def)

lemma slot_syllable_empty [simp]: "slot_syllable empty_bundle slot = None"
  by (simp add: slot_syllable_def empty_bundle_def)

lemma slot_syllable_Some:
  "slot_syllable b slot = Some syl \<longleftrightarrow> slot < length (slots b) \<and> slots b ! slot = Some syl"
  by (auto simp: slot_syllable_def get_def)

end
