(* ===== verification/Mir.thy ===== *)
theory Mir
  imports Asm
begin

text \<open>
  Component \<open>vliw-backend/src/mir.rs\<close>: the machine IR between instruction selection and bundle
  emission, its text dump, and the demo function.
\<close>

datatype reg = VReg u32 | PReg u8

datatype val = RegV reg | ImmV i64 | StackV i64

record mir_syllable =
  opc :: opcode
  dst :: "reg option"
  srcs :: "val list"

datatype terminator =
    BranchT reg string
  | JumpT string
  | ReturnT
  | DirectCallT string string

record block =
  label :: string
  syllables :: "mir_syllable list"
  terminator :: terminator

record mir_function =
  fname :: string
  blocks :: "block list"

abbreviation syl :: "opcode \<Rightarrow> reg option \<Rightarrow> val list \<Rightarrow> mir_syllable" where
  "syl op d ss \<equiv> \<lparr>opc = op, dst = d, srcs = ss\<rparr>"


section \<open>Text dump\<close>

definition show_reg :: "reg \<Rightarrow> string" where
  "show_reg r = (case r of VReg n \<Rightarrow> ''v'' @ show_nat (unat n) | PReg n \<Rightarrow> ''r'' @ show_nat (unat n))"

definition show_val :: "val \<Rightarrow> string" where
  "show_val v =
     (case v of
        RegV r \<Rightarrow> show_reg r
      | ImmV n \<Rightarrow> show_i64 n
      | StackV n \<Rightarrow> ''stack['' @ show_i64 n @ '']'')"

definition show_syllable :: "mir_syllable \<Rightarrow> string" where
  "show_syllable s =
     mnemonic (opc s) @
     (case dst s of Some d \<Rightarrow> '' '' @ show_reg d | None \<Rightarrow> '''') @
     concat (map (\<lambda>v. '', '' @ show_val v) (srcs s))"

definition show_terminator :: "terminator \<Rightarrow> string" where
  "show_terminator t =
     (case t of
        BranchT cond l \<Rightarrow> ''branch '' @ show_reg cond @ '', '' @ l
      | JumpT l \<Rightarrow> ''jump '' @ l
      | ReturnT \<Rightarrow> ''ret''
      | DirectCallT target cont \<Rightarrow> ''call '' @ target @ '', '' @ cont)"

definition show_block :: "block \<Rightarrow> string" where
  "show_block b =
     writeln (label b @ '':'') @
     concat (map (\<lambda>s. writeln (''  '' @ show_syllable s)) (syllables b)) @
     writeln (''  '' @ show_terminator (terminator b))"

definition emit_mir :: "mir_function \<Rightarrow> string" where
  "emit_mir f = writeln (''fn '' @ fname f @ '':'') @ concat (map show_block (blocks f))"

definition demo_mir :: mir_function where
  "demo_mir =
     \<lparr>fname = ''demo'',
      blocks =
        [\<lparr>label = ''entry'',
          syllables =
            [syl MovImm (Some (VReg 0)) [ImmV 6],
             syl MovImm (Some (VReg 1)) [ImmV 7],
             syl Mul (Some (VReg 2)) [RegV (VReg 0), RegV (VReg 1)],
             syl StoreD None [ImmV 0x100, RegV (VReg 2)]],
          terminator = ReturnT\<rparr>]\<rparr>"


section \<open>Virtual registers of the code\<close>

definition src_vregs :: "mir_syllable \<Rightarrow> u32 list" where
  "src_vregs s = List.map_filter (\<lambda>v. case v of RegV (VReg n) \<Rightarrow> Some n | _ \<Rightarrow> None) (srcs s)"

definition dst_vreg :: "mir_syllable \<Rightarrow> u32 option" where
  "dst_vreg s = (case dst s of Some (VReg n) \<Rightarrow> Some n | _ \<Rightarrow> None)"

definition term_vreg :: "terminator \<Rightarrow> u32 option" where
  "term_vreg t = (case t of BranchT (VReg n) _ \<Rightarrow> Some n | _ \<Rightarrow> None)"

lemma set_src_vregs: "n \<in> set (src_vregs s) \<longleftrightarrow> RegV (VReg n) \<in> set (srcs s)"
  by (force simp: src_vregs_def List.map_filter_def split: val.splits reg.splits)

definition virtual_free :: "mir_function \<Rightarrow> bool" where
  "virtual_free f \<longleftrightarrow>
     (\<forall>b \<in> set (blocks f).
        term_vreg (terminator b) = None \<and>
        (\<forall>s \<in> set (syllables b). src_vregs s = [] \<and> dst_vreg s = None))"

end
