(* ===== verification/Regs.thy ===== *)
theory Regs
  imports Mir "HOL-Library.Signed_Division"
begin

text \<open>
  Component \<open>vliw-backend/src/regs.rs\<close>: the calling convention's fixed registers, the allocatable
  range, and the placement of the spill area and of the link-register save slot in memory.
\<close>

definition ZERO_REG :: u8 where "ZERO_REG = 0"
definition RETVAL_REG :: u8 where "RETVAL_REG = 1"
definition LINK_REG :: u8 where "LINK_REG = 31"
definition ARG_REG_FIRST :: u8 where "ARG_REG_FIRST = 2"
definition ARG_REG_LAST :: u8 where "ARG_REG_LAST = 9"
definition ARG_REG_COUNT :: u8 where "ARG_REG_COUNT = ARG_REG_LAST - ARG_REG_FIRST + 1"

text \<open>\<open>memory_size as i64 * 15 / 16\<close>: a reinterpreting cast, a wrapping product, truncating division.\<close>

definition spill_base :: "u64 \<Rightarrow> i64" where
  "spill_base m = word_of_int (sint (m * 15) sdiv 16)"

definition link_reg_save_addr :: "u64 \<Rightarrow> i64" where
  "link_reg_save_addr m = spill_base m - 8"

definition FIRST_ALLOCATABLE_GPR :: u8 where "FIRST_ALLOCATABLE_GPR = RETVAL_REG + 1"
definition LAST_ALLOCATABLE_GPR :: u8 where "LAST_ALLOCATABLE_GPR = LINK_REG - 1"
definition ALLOCATABLE_GPR_COUNT :: u8 where
  "ALLOCATABLE_GPR_COUNT = LAST_ALLOCATABLE_GPR - FIRST_ALLOCATABLE_GPR + 1"

definition allocatable_gpr :: "u32 \<Rightarrow> u8 option" where
  "allocatable_gpr index =
     (if index < ucast ALLOCATABLE_GPR_COUNT
      then (if unat index < 2 ^ 8 then Some (FIRST_ALLOCATABLE_GPR + ucast index) else None)
      else None)"

lemmas reg_consts =
  ZERO_REG_def RETVAL_REG_def LINK_REG_def ARG_REG_FIRST_def ARG_REG_LAST_def ARG_REG_COUNT_def
  FIRST_ALLOCATABLE_GPR_def LAST_ALLOCATABLE_GPR_def ALLOCATABLE_GPR_COUNT_def

text \<open>The registers the allocator hands out, in the order of its initial free queue.\<close>

definition allocatable :: "u8 list" where
  "allocatable =
     map of_nat [unat FIRST_ALLOCATABLE_GPR..<Suc (unat LAST_ALLOCATABLE_GPR)]"

lemma allocatable_eq:
  "allocatable = [2, 3, 4, 5, 6, 7, 8, 9, 10, 11, 12, 13, 14, 15, 16, 17, 18, 19, 20, 21, 22, 23,
     24, 25, 26, 27, 28, 29, 30]"
  by (simp add: allocatable_def reg_consts upt_rec_numeral)

lemma distinct_allocatable: "distinct allocatable"
  by (simp add: allocatable_eq)

lemma length_allocatable: "length allocatable = 29"
  by (simp add: allocatable_eq)

lemma fixed_not_allocatable:
  "ZERO_REG \<notin> set allocatable" "RETVAL_REG \<notin> set allocatable" "LINK_REG \<notin> set allocatable"
  by (simp_all add: allocatable_eq reg_consts)

text \<open>Values of \<open>memory_size\<close> for which the product by 15 stays in the signed range.\<close>

lemma spill_base_exact:
  assumes "unat m * 15 < 2 ^ 63"
  shows "unat (spill_base m) = unat m * 15 div 16"
proof -
  have p: "unat (m * 15) = unat m * 15"
    using assms by (simp add: unat_word_ariths)
  have "sint (m * 15) = int (unat m * 15)"
    using assms p by (simp add: sint_i64_nonneg)
  then have "sint (m * 15) sdiv 16 = int (unat m * 15 div 16)"
    by (simp add: signed_divide_int_def sgn_if zdiv_int)
  moreover have "unat m * 15 div 16 < 2 ^ 64" using assms by simp
  ultimately show ?thesis by (simp add: spill_base_def unat_of_nat)
qed

section \<open>Properties\<close>

text \<open>
  C30: the memory layout.  For every memory size of at least 16 bytes whose product with 15 fits in a
  signed 64-bit integer, the spill area starts at fifteen sixteenths of memory, the saved link register
  occupies the eight bytes just below it, and the first sixteenth of the size divided by eight many
  eight-byte spill slots lie inside memory and above the saved link register.
\<close>

theorem memory_layout:
  assumes "unat m * 15 < 2 ^ 63" "16 \<le> unat m"
  shows "unat (spill_base m) = unat m * 15 div 16 \<and>
    unat (link_reg_save_addr m) + 8 = unat (spill_base m) \<and>
    (\<forall>k. 8 * (k + 1) \<le> unat m div 16 \<longrightarrow>
       unat (link_reg_save_addr m) + 8 \<le> unat (spill_base m + of_nat k * 8) \<and>
       unat (spill_base m + of_nat k * 8) + 8 \<le> unat m)"
proof -
  have base: "unat (spill_base m) = unat m * 15 div 16" by (rule spill_base_exact[OF assms(1)])
  have link: "unat (link_reg_save_addr m) + 8 = unat (spill_base m)"
    using base assms(2) by (simp add: link_reg_save_addr_def unat_sub word_le_nat_alt)
  have slot: "unat (spill_base m + of_nat k * 8) = unat m * 15 div 16 + k * 8" if "8 * (k + 1) \<le> unat m div 16" for k
    using that base assms(1) by (simp add: unat_word_ariths unat_of_nat)
  show ?thesis using base link slot by auto
qed

theorem memory_layout_witness:
  "unat (spill_base 0x10000) = 0xF000 \<and> unat (link_reg_save_addr 0x10000) + 8 = 0xF000"
  using memory_layout[of "0x10000"] by simp

text \<open>
  C31: the allocatable registers.  \<open>allocatable_gpr\<close> numbers exactly the registers the allocator starts with,
  without repetition, and never yields the zero, return-value or link register.
\<close>

theorem allocatable_gpr_range:
  "allocatable_gpr i = get allocatable (unat i) \<and>
   (allocatable_gpr i = Some r \<longrightarrow> r \<notin> {ZERO_REG, RETVAL_REG, LINK_REG} \<and> (\<forall>j. allocatable_gpr j = Some r \<longrightarrow> j = i))"
proof -
  have eq: "allocatable_gpr i = get allocatable (unat i)" for i
  proof (cases "unat i < 29")
    case True
    have "allocatable ! unat i = 2 + ucast i"
    proof -
      have "unat FIRST_ALLOCATABLE_GPR = 2" "Suc (unat LAST_ALLOCATABLE_GPR) = 31" by (simp_all add: reg_consts)
      then have "allocatable ! unat i = of_nat (2 + unat i)"
        using True by (simp only: allocatable_def nth_map_upt)
      then show ?thesis by simp
    qed
    then show ?thesis using True by (simp add: allocatable_gpr_def get_def length_allocatable reg_consts word_less_nat_alt)
  next
    case False
    then show ?thesis by (simp add: allocatable_gpr_def get_def length_allocatable reg_consts word_less_nat_alt)
  qed
  have "j = i" if "get allocatable (unat i) = Some r" "get allocatable (unat j) = Some r" for i j :: u32
  proof -
    have "unat j = unat i"
      using that nth_eq_iff_index_eq[OF distinct_allocatable] by (auto simp: get_def split: if_splits)
    then show ?thesis by (rule word_unat_eq_iff[THEN iffD2])
  qed
  then show ?thesis using fixed_not_allocatable by (auto simp: eq get_def split: if_splits dest: nth_mem)
qed

theorem allocatable_gpr_range_witness:
  "allocatable_gpr 28 = Some 30 \<and> 30 \<noteq> LINK_REG \<and> allocatable_gpr 27 \<noteq> Some 30"
proof -
  have "allocatable_gpr 28 = Some 30" by (simp add: allocatable_gpr_def reg_consts)
  then show ?thesis using allocatable_gpr_range[of 28 30] by auto
qed

end
