(* ===== verification/Deps.thy ===== *)
theory Deps
  imports Regs
begin

text \<open>
  Register keys and memory buckets of \<open>vliw-backend/src/lib.rs\<close>: which registers a MIR syllable reads
  and writes, and which region of memory it may touch.  The list scheduler builds its dependence
  graph from these.
\<close>

datatype mem_bucket = StackB | GlobalB | UnknownB

definition memory_base_value :: "mir_syllable \<Rightarrow> val option" where
  "memory_base_value s =
     (if opc s \<in> set [LoadB, LoadH, LoadW, LoadD] then first (srcs s)
      else if opc s \<in> set [StoreB, StoreH, StoreW, StoreD] then first (srcs s)
      else None)"

definition memory_bucket :: "mir_syllable \<Rightarrow> mem_bucket" where
  "memory_bucket s =
     (case memory_base_value s of
        None \<Rightarrow> UnknownB
      | Some base \<Rightarrow> (case base of StackV _ \<Rightarrow> StackB | ImmV _ \<Rightarrow> GlobalB | RegV _ \<Rightarrow> UnknownB))"

definition memory_buckets_may_alias :: "mem_bucket \<Rightarrow> mem_bucket \<Rightarrow> bool" where
  "memory_buckets_may_alias lhs rhs \<longleftrightarrow> lhs = UnknownB \<or> rhs = UnknownB \<or> lhs = rhs"

datatype reg_class = Gpr | PredC

datatype reg_key = RegKey reg_class reg

definition dest_reg_key :: "mir_syllable \<Rightarrow> reg_key option" where
  "dest_reg_key s =
     (if writes_gpr (opc s) then map_option (RegKey Gpr) (dst s)
      else if writes_pred (opc s) then map_option (RegKey PredC) (dst s)
      else None)"

definition predicate_sources :: "opcode \<Rightarrow> bool" where
  "predicate_sources op \<longleftrightarrow> op \<in> set [PNot, PAnd, POr, PXor]"

definition source_class :: "opcode \<Rightarrow> reg_class" where
  "source_class op = (if predicate_sources op then PredC else Gpr)"

definition source_reg_keys :: "mir_syllable \<Rightarrow> reg_key list" where
  "source_reg_keys s =
     List.map_filter
       (\<lambda>v. case v of RegV r \<Rightarrow> Some (RegKey (source_class (opc s)) r) | ImmV _ \<Rightarrow> None | StackV _ \<Rightarrow> None)
       (srcs s)"

definition physical_reg :: "reg \<Rightarrow> u8 option" where
  "physical_reg r = (case r of PReg n \<Rightarrow> Some n | VReg _ \<Rightarrow> None)"

definition is_integer_alu_opcode :: "opcode \<Rightarrow> bool" where
  "is_integer_alu_opcode op \<longleftrightarrow> units op = [IntegerAlu]"

definition is_memory_opcode :: "opcode \<Rightarrow> bool" where
  "is_memory_opcode op \<longleftrightarrow> units op = [Memory]"

definition is_control_or_multiplier_opcode :: "opcode \<Rightarrow> bool" where
  "is_control_or_multiplier_opcode op \<longleftrightarrow> units op = [Control] \<or> units op = [Multiplier]"

lemma mem_source_reg_keys:
  "k \<in> set (source_reg_keys s) \<longleftrightarrow> (\<exists>r. RegV r \<in> set (srcs s) \<and> k = RegKey (source_class (opc s)) r)"
  by (force simp: source_reg_keys_def List.map_filter_def split: val.splits)

end
