(* ===== verification/Machine.thy ===== *)
theory Machine
  imports Deps
begin

text \<open>
  Execution of MIR syllables on an abstract machine.  What an opcode computes is defined by the
  simulator, outside this repository, so it is a parameter: an \<open>isa\<close> gives the value of an
  immediate, the result of a register-only opcode, and the result and memory effect of a memory
  opcode on the region that its address names.  The machine keeps the stack-frame memory (addresses
  \<open>Value::Stack\<close>, used for spills) and the global memory (absolute addresses \<open>Value::Imm\<close>) apart, which
  is the assumption the scheduler's alias classes make; an access through a register may touch both.
\<close>

record ('v, 's, 'g) isa =
  imm_val :: "i64 \<Rightarrow> 'v"
  alu_eff :: "opcode \<Rightarrow> 'v list \<Rightarrow> 'v"
  stack_eff :: "opcode \<Rightarrow> 'v list \<Rightarrow> 's \<Rightarrow> 'v \<times> 's"
  global_eff :: "opcode \<Rightarrow> 'v list \<Rightarrow> 'g \<Rightarrow> 'v \<times> 'g"
  unknown_eff :: "opcode \<Rightarrow> 'v list \<Rightarrow> 's \<times> 'g \<Rightarrow> 'v \<times> ('s \<times> 'g)"

record ('v, 's, 'g) mstate =
  rf :: "reg_key \<Rightarrow> 'v"
  stk :: 's
  glob :: 'g

text \<open>Register \<open>r0\<close> discards writes.\<close>

definition write_reg :: "reg_key option \<Rightarrow> 'v \<Rightarrow> (reg_key \<Rightarrow> 'v) \<Rightarrow> reg_key \<Rightarrow> 'v" where
  "write_reg k v regs =
     (case k of None \<Rightarrow> regs
      | Some key \<Rightarrow> if key = RegKey Gpr (PReg ZERO_REG) then regs else regs(key := v))"

definition src_value :: "('v, 's, 'g) isa \<Rightarrow> (reg_key \<Rightarrow> 'v) \<Rightarrow> opcode \<Rightarrow> val \<Rightarrow> 'v" where
  "src_value M regs op v =
     (case v of RegV r \<Rightarrow> regs (RegKey (source_class op) r) | ImmV n \<Rightarrow> imm_val M n | StackV n \<Rightarrow> imm_val M n)"

definition src_values :: "('v, 's, 'g) isa \<Rightarrow> (reg_key \<Rightarrow> 'v) \<Rightarrow> mir_syllable \<Rightarrow> 'v list" where
  "src_values M regs s = map (src_value M regs (opc s)) (srcs s)"

definition exec_syl ::
  "('v, 's, 'g) isa \<Rightarrow> mir_syllable \<Rightarrow> ('v, 's, 'g) mstate \<Rightarrow> ('v, 's, 'g) mstate" where
  "exec_syl M s st =
     (let vals = src_values M (rf st) s; k = dest_reg_key s
      in if \<not> is_memory_opcode (opc s)
         then st\<lparr>rf := write_reg k (alu_eff M (opc s) vals) (rf st)\<rparr>
         else case memory_bucket s of
           StackB \<Rightarrow> (let (v, m) = stack_eff M (opc s) vals (stk st)
                      in st\<lparr>rf := write_reg k v (rf st), stk := m\<rparr>)
         | GlobalB \<Rightarrow> (let (v, m) = global_eff M (opc s) vals (glob st)
                      in st\<lparr>rf := write_reg k v (rf st), glob := m\<rparr>)
         | UnknownB \<Rightarrow> (let (v, (m, g)) = unknown_eff M (opc s) vals (stk st, glob st)
                      in st\<lparr>rf := write_reg k v (rf st), stk := m, glob := g\<rparr>))"

definition exec ::
  "('v, 's, 'g) isa \<Rightarrow> mir_syllable list \<Rightarrow> ('v, 's, 'g) mstate \<Rightarrow> ('v, 's, 'g) mstate" where
  "exec M ss st = fold (exec_syl M) ss st"

lemma exec_simps [simp]: "exec M [] st = st" "exec M (s # ss) st = exec M ss (exec_syl M s st)"
  by (simp_all add: exec_def)

lemma exec_append [simp]: "exec M (ss @ ts) st = exec M ts (exec M ss st)"
  by (simp add: exec_def)


section \<open>Reordering\<close>

text \<open>The order of two elements of a list without repetitions.\<close>

definition before :: "'a list \<Rightarrow> 'a \<Rightarrow> 'a \<Rightarrow> bool" where
  "before xs a b \<longleftrightarrow> (\<exists>us vs ws. xs = us @ a # vs @ b # ws)"

lemma before_Cons: "before (x # xs) a b \<longleftrightarrow> x = a \<and> b \<in> set xs \<or> before xs a b"
proof
  assume "before (x # xs) a b"
  then obtain us vs ws where "x # xs = us @ a # vs @ b # ws" by (auto simp: before_def)
  then show "x = a \<and> b \<in> set xs \<or> before xs a b" by (cases us) (auto simp: before_def)
next
  assume "x = a \<and> b \<in> set xs \<or> before xs a b"
  then show "before (x # xs) a b"
  proof
    assume "x = a \<and> b \<in> set xs"
    then obtain vs ws where "x # xs = [] @ a # vs @ b # ws" by (auto simp: in_set_conv_decomp)
    then show ?thesis unfolding before_def by blast
  next
    assume "before xs a b"
    then obtain us vs ws where "x # xs = (x # us) @ a # vs @ b # ws" by (auto simp: before_def)
    then show ?thesis unfolding before_def by blast
  qed
qed

lemma before_Nil [simp]: "\<not> before [] a b"
  by (simp add: before_def)

lemma before_append: "before (xs @ ys) a b \<longleftrightarrow> before xs a b \<or> before ys a b \<or> a \<in> set xs \<and> b \<in> set ys"
  by (induction xs) (auto simp: before_Cons)

lemma before_set: "before xs a b \<Longrightarrow> a \<in> set xs \<and> b \<in> set xs"
  by (auto simp: before_def)

lemma before_upt: "before [m..<n] i j \<longleftrightarrow> m \<le> i \<and> i < j \<and> j < n"
proof (induction n)
  case (Suc n)
  then show ?case by (cases "m \<le> n") (auto simp: before_append before_Cons)
qed simp

locale reordering =
  fixes step :: "'i \<Rightarrow> 's \<Rightarrow> 's"
    and conflict :: "'i \<Rightarrow> 'i \<Rightarrow> bool"
  assumes commute: "\<not> conflict a b \<Longrightarrow> step a (step b s) = step b (step a s)"
    and conflict_sym: "conflict a b \<Longrightarrow> conflict b a"
begin

lemma fold_step_comm:
  "\<forall>x \<in> set xs. \<not> conflict a x \<Longrightarrow> fold step xs (step a s) = step a (fold step xs s)"
  by (induction xs arbitrary: s) (simp_all, metis commute conflict_sym)

text \<open>
  Any rearrangement of a sequence of instructions (given by tags) that keeps the order of
  conflicting instructions computes the same state.
\<close>

lemma fold_reorder:
  assumes "distinct base" and "distinct order" and "set order = set base"
    and "\<And>a b. before base a b \<Longrightarrow> conflict (f a) (f b) \<Longrightarrow> before order a b"
  shows "fold step (map f order) s = fold step (map f base) s"
  using assms
proof (induction base arbitrary: order s)
  case (Cons a base)
  obtain pre post where order: "order = pre @ a # post"
    using Cons.prems(3) by (metis list.set_intros(1) split_list)
  have anot: "a \<notin> set pre" "a \<notin> set post" using Cons.prems(2) order by auto
  have nc: "\<not> conflict (f a) (f p)" if "p \<in> set pre" for p
  proof
    assume c: "conflict (f a) (f p)"
    have "p \<in> set base" using that Cons.prems(2,3) order anot by auto
    then have "before order a p" using Cons.prems(4) c by (simp add: before_Cons)
    then show False
      using order anot that Cons.prems(2) by (auto simp: before_append before_Cons dest: before_set)
  qed
  have "fold step (map f order) s = fold step (map f post) (step (f a) (fold step (map f pre) s))"
    by (simp add: order)
  also have "\<dots> = fold step (map f (pre @ post)) (step (f a) s)"
    using fold_step_comm[of "map f pre" "f a" s] nc by simp
  also have "\<dots> = fold step (map f base) (step (f a) s)"
  proof (rule Cons.IH)
    show "set (pre @ post) = set base" using Cons.prems(1-3) order by auto
    show "before (pre @ post) x y" if "before base x y" "conflict (f x) (f y)" for x y
    proof -
      have "before order x y" using Cons.prems(4) that by (simp add: before_Cons)
      moreover have "x \<noteq> a" "y \<noteq> a" using that(1) Cons.prems(1) by (auto dest: before_set)
      ultimately show ?thesis by (auto simp: order before_append before_Cons)
    qed
  qed (use Cons.prems(1,2) order in auto)
  finally show ?case by simp
qed simp

end


section \<open>Independent syllables commute\<close>

definition reg_conflict :: "mir_syllable \<Rightarrow> mir_syllable \<Rightarrow> bool" where
  "reg_conflict a b \<longleftrightarrow>
     (\<exists>k. dest_reg_key a = Some k \<and> (k \<in> set (source_reg_keys b) \<or> dest_reg_key b = Some k)) \<or>
     (\<exists>k. dest_reg_key b = Some k \<and> k \<in> set (source_reg_keys a))"

definition mem_conflict :: "mir_syllable \<Rightarrow> mir_syllable \<Rightarrow> bool" where
  "mem_conflict a b \<longleftrightarrow>
     is_memory_opcode (opc a) \<and> is_memory_opcode (opc b) \<and>
     memory_buckets_may_alias (memory_bucket a) (memory_bucket b)"

definition conflict :: "mir_syllable \<Rightarrow> mir_syllable \<Rightarrow> bool" where
  "conflict a b \<longleftrightarrow> reg_conflict a b \<or> mem_conflict a b"

lemma conflict_sym: "conflict a b \<Longrightarrow> conflict b a"
  by (auto simp: conflict_def reg_conflict_def mem_conflict_def memory_buckets_may_alias_def)

lemma src_values_write:
  "(\<And>k. kd = Some k \<Longrightarrow> k \<notin> set (source_reg_keys s)) \<Longrightarrow>
     src_values M (write_reg kd v regs) s = src_values M regs s"
  by (auto simp: src_values_def src_value_def write_reg_def mem_source_reg_keys
      split: option.splits val.splits)

lemma write_reg_comm:
  "(\<And>k. ka = Some k \<Longrightarrow> kb \<noteq> Some k) \<Longrightarrow>
     write_reg ka va (write_reg kb vb regs) = write_reg kb vb (write_reg ka va regs)"
  by (auto simp: write_reg_def fun_upd_twist split: option.splits)

lemma exec_syl_commute:
  assumes "\<not> conflict a b"
  shows "exec_syl M a (exec_syl M b st) = exec_syl M b (exec_syl M a st)"
proof -
  have ra: "src_values M (write_reg (dest_reg_key b) v regs) a = src_values M regs a" for v regs
    using assms by (intro src_values_write) (auto simp: conflict_def reg_conflict_def)
  have rb: "src_values M (write_reg (dest_reg_key a) v regs) b = src_values M regs b" for v regs
    using assms by (intro src_values_write) (auto simp: conflict_def reg_conflict_def)
  have w: "write_reg (dest_reg_key a) va (write_reg (dest_reg_key b) vb regs) =
      write_reg (dest_reg_key b) vb (write_reg (dest_reg_key a) va regs)" for va vb regs
    using assms by (intro write_reg_comm) (auto simp: conflict_def reg_conflict_def)
  have m: "\<not> (is_memory_opcode (opc a) \<and> is_memory_opcode (opc b) \<and>
      (memory_bucket a = UnknownB \<or> memory_bucket b = UnknownB \<or> memory_bucket a = memory_bucket b))"
    using assms by (auto simp: conflict_def mem_conflict_def memory_buckets_may_alias_def)
  show ?thesis
    using m by (auto simp: exec_syl_def ra rb w Let_def split: mem_bucket.splits prod.splits)
qed

interpretation mir: reordering "exec_syl M" conflict for M
  by unfold_locales (auto intro: exec_syl_commute conflict_sym)

end
