(* ===== verification/Errors.thy ===== *)
theory Errors
  imports Prelude
begin

text \<open>
  \<open>CompileError\<close> of \<open>vliw-backend/src/lib.rs\<close>.  The extra constructor \<open>Panic\<close> stands for a Rust panic
  (a failed \<open>expect\<close>, an index out of range, a loop that never ends), so that every such branch of
  the source is a value of the model.
\<close>

datatype compile_error =
    NotImplemented string
  | ParseFailure string
  | UnsupportedFeature string
  | OptError string
  | OutOfRegisters u32
  | Panic string

end
