(* ===== verification/Phi.thy ===== *)
theory Phi
  imports Machine Errors
begin

text \<open>
  Component \<open>vliw-backend/src/phi.rs\<close>: lowering of phi nodes to copies at the end of the predecessor
  blocks.  The copies of one predecessor happen in parallel; \<open>serialize_parallel_copies\<close> turns them
  into a sequence of moves.  The lemmas show that the sequence ends and computes the parallel
  assignment.
\<close>

datatype copy_src = Const i64 | VRegSrc u32

record phi_copy =
  copy_dst :: u32
  copy_src :: copy_src

type_synonym pending = "(u32 \<times> copy_src) list"

definition syllable_for_copy :: "u32 \<Rightarrow> copy_src \<Rightarrow> mir_syllable" where
  "syllable_for_copy d src =
     (case src of
        Const imm \<Rightarrow> syl MovImm (Some (VReg d)) [ImmV imm]
      | VRegSrc s \<Rightarrow> syl Mov (Some (VReg d)) [RegV (VReg s)])"

definition initial_pending :: "phi_copy list \<Rightarrow> pending" where
  "initial_pending copies =
     List.map_filter
       (\<lambda>c. if copy_src c = VRegSrc (copy_dst c) then None else Some (copy_dst c, copy_src c)) copies"

definition ready_position :: "pending \<Rightarrow> nat option" where
  "ready_position remaining =
     position (\<lambda>(d, _). \<not> list_ex (\<lambda>(_, src). src = VRegSrc d) remaining) remaining"

definition first_reg_source :: "pending \<Rightarrow> u32 option" where
  "first_reg_source remaining =
     first (List.map_filter (\<lambda>(_, src). case src of VRegSrc s \<Rightarrow> Some s | Const _ \<Rightarrow> None) remaining)"

definition redirect :: "u32 \<Rightarrow> u32 \<Rightarrow> pending \<Rightarrow> pending" where
  "redirect s tmp remaining =
     map (\<lambda>(d, src). (d, if src = VRegSrc s then VRegSrc tmp else src)) remaining"

definition remove_nth :: "nat \<Rightarrow> 'a list \<Rightarrow> 'a list" where
  "remove_nth i xs = take i xs @ drop (Suc i) xs"

text \<open>The \<open>while\<close> loop; \<open>None\<close> is a loop that never ends or the failed \<open>expect\<close> of the cycle branch.\<close>

partial_function (option) serialize_loop ::
  "pending \<Rightarrow> mir_syllable list \<Rightarrow> u32 \<Rightarrow> (mir_syllable list \<times> u32) option" where
  "serialize_loop remaining result next_vreg =
     (if remaining = [] then Some (result, next_vreg)
      else case ready_position remaining of
        Some pos \<Rightarrow>
          serialize_loop (remove_nth pos remaining)
            (result @ [syllable_for_copy (fst (remaining ! pos)) (snd (remaining ! pos))]) next_vreg
      | None \<Rightarrow>
          (case first_reg_source remaining of
             None \<Rightarrow> None
           | Some s \<Rightarrow>
               serialize_loop (redirect s next_vreg remaining)
                 (result @ [syllable_for_copy next_vreg (VRegSrc s)]) (next_vreg + 1)))"

declare serialize_loop.simps [code]

definition serialize_parallel_copies :: "phi_copy list \<Rightarrow> u32 \<Rightarrow> (mir_syllable list \<times> u32) option" where
  "serialize_parallel_copies copies next_vreg = serialize_loop (initial_pending copies) [] next_vreg"

text \<open>
  \<open>entries\<close> lists the map \<open>copies_per_block\<close> in the order in which its iteration visits it, which
  Rust leaves open.
\<close>

definition lower_phi_entry ::
  "block list \<times> u32 \<Rightarrow> string \<times> phi_copy list \<Rightarrow> compile_error + (block list \<times> u32)" where
  "lower_phi_entry st entry =
     (let (bs, next_vreg) = st; (l, copies) = entry
      in case position (\<lambda>b. label b = l) bs of
           None \<Rightarrow> Inl (Panic ''phi predecessor block not found in MIR'')
         | Some idx \<Rightarrow>
             (case serialize_parallel_copies copies next_vreg of
                None \<Rightarrow> Inl (Panic ''copy cycle must contain a register source'')
              | Some (syls, next_vreg') \<Rightarrow>
                  Inr (bs[idx := (bs ! idx)\<lparr>syllables := syllables (bs ! idx) @ syls\<rparr>], next_vreg')))"

definition lower_phi_copies ::
  "block list \<Rightarrow> (string \<times> phi_copy list) list \<Rightarrow> u32 \<Rightarrow> compile_error + (block list \<times> u32)" where
  "lower_phi_copies bs entries next_vreg = try_fold lower_phi_entry (bs, next_vreg) entries"


section \<open>Parallel assignment\<close>

definition copy_value :: "('v, 's, 'g) isa \<Rightarrow> (reg_key \<Rightarrow> 'v) \<Rightarrow> copy_src \<Rightarrow> 'v" where
  "copy_value M regs src =
     (case src of Const n \<Rightarrow> imm_val M n | VRegSrc s \<Rightarrow> regs (RegKey Gpr (VReg s)))"

text \<open>All sources are read before any destination is written.\<close>

definition parallel_copy ::
  "('v, 's, 'g) isa \<Rightarrow> pending \<Rightarrow> (reg_key \<Rightarrow> 'v) \<Rightarrow> reg_key \<Rightarrow> 'v" where
  "parallel_copy M copies regs k =
     (case k of
        RegKey Gpr (VReg d) \<Rightarrow>
          (case map_of copies d of Some src \<Rightarrow> copy_value M regs src | None \<Rightarrow> regs k)
      | _ \<Rightarrow> regs k)"

definition moves_copy :: "('v, 's, 'g) isa \<Rightarrow> bool" where
  "moves_copy M \<longleftrightarrow> (\<forall>x. alu_eff M Mov [x] = x \<and> alu_eff M MovImm [x] = x)"

text \<open>One value per destination: two phi edges from the same predecessor agree.\<close>

definition functional :: "pending \<Rightarrow> bool" where
  "functional copies \<longleftrightarrow> (\<forall>d s s'. (d, s) \<in> set copies \<longrightarrow> (d, s') \<in> set copies \<longrightarrow> s = s')"

definition below :: "pending \<Rightarrow> u32 \<Rightarrow> bool" where
  "below copies n \<longleftrightarrow> (\<forall>(d, src) \<in> set copies. d < n \<and> (\<forall>s. src = VRegSrc s \<longrightarrow> s < n))"

definition temp_key :: "u32 \<Rightarrow> u32 \<Rightarrow> reg_key \<Rightarrow> bool" where
  "temp_key lo hi k \<longleftrightarrow> (\<exists>t. k = RegKey Gpr (VReg t) \<and> lo \<le> t \<and> t < hi)"

lemma exec_copy:
  assumes "moves_copy M"
  shows "exec_syl M (syllable_for_copy d src) st =
    st\<lparr>rf := (rf st)(RegKey Gpr (VReg d) := copy_value M (rf st) src)\<rparr>"
  using assms
  by (cases src) (simp_all add: syllable_for_copy_def exec_syl_def moves_copy_def copy_value_def
      is_memory_opcode_def dest_reg_key_def write_reg_def src_values_def src_value_def
      source_class_def predicate_sources_def table_simps)

lemma map_of_functional: "functional copies \<Longrightarrow> (d, src) \<in> set copies \<Longrightarrow> map_of copies d = Some src"
  by (metis functional_def map_of_SomeD not_None_eq map_of_eq_None_iff fst_conv image_eqI)

lemma set_remove_nth: "i < length xs \<Longrightarrow> set xs = insert (xs ! i) (set (remove_nth i xs))"
  using id_take_nth_drop[of i xs] by (metis Un_insert_right list.simps(15) remove_nth_def set_append)

lemma length_remove_nth: "i < length xs \<Longrightarrow> length (remove_nth i xs) = length xs - 1"
  by (simp add: remove_nth_def)

lemma ready_position_Some:
  assumes "ready_position remaining = Some pos"
  shows "pos < length remaining" "(d', VRegSrc (fst (remaining ! pos))) \<notin> set remaining"
  using position_Some[OF assms[unfolded ready_position_def]]
  by (auto simp: list_ex_iff split: prod.splits)

lemma ready_position_None:
  "ready_position remaining = None \<longleftrightarrow>
     (\<forall>d src. (d, src) \<in> set remaining \<longrightarrow> (\<exists>d'. (d', VRegSrc d) \<in> set remaining))"
  by (simp add: ready_position_def position_None list_ex_iff Ball_def Bex_def)

lemma first_reg_source_Some: "first_reg_source remaining = Some s \<Longrightarrow> \<exists>d. (d, VRegSrc s) \<in> set remaining"
  unfolding first_reg_source_def
  by (drule first_mem) (force simp: set_map_filter split: copy_src.splits)

lemma first_reg_source_ex:
  assumes "(d, VRegSrc s) \<in> set remaining"
  shows "\<exists>s'. first_reg_source remaining = Some s'"
proof -
  have "s \<in> set (List.map_filter (\<lambda>(_, src). case src of VRegSrc s \<Rightarrow> Some s | Const _ \<Rightarrow> None) remaining)"
    using assms by (force simp: set_map_filter)
  then show ?thesis by (cases "first_reg_source remaining") (auto simp: first_reg_source_def first_None)
qed

text \<open>Without a ready copy the pending copies only permute registers: every source is a destination.\<close>

lemma cycle_source_is_destination:
  assumes "functional remaining" and "ready_position remaining = None" and "(d, VRegSrc s) \<in> set remaining"
  shows "\<exists>src. (s, src) \<in> set remaining"
proof -
  let ?R = "set remaining"
  define D where "D = fst ` ?R"
  define S where "S = {s. \<exists>d. (d, VRegSrc s) \<in> ?R}"
  have "S \<subseteq> (\<lambda>p. case snd p of VRegSrc s \<Rightarrow> s | Const _ \<Rightarrow> 0) ` ?R"
    unfolding S_def by force
  then have finS: "finite S" and "card S \<le> card ?R"
    using finite_surj[of ?R S] by (simp_all add: surj_card_le)
  moreover have "inj_on fst ?R"
    using assms(1) by (auto simp: inj_on_def functional_def)
  then have "card D = card ?R" unfolding D_def by (rule card_image)
  moreover have "D \<subseteq> S" using assms(2) by (force simp: ready_position_None D_def S_def)
  ultimately have "D = S" using card_seteq[of S D] by simp
  then have "s \<in> D" using assms(3) by (auto simp: S_def)
  then show ?thesis by (auto simp: D_def)
qed

lemma parallel_copy_other:
  "(\<And>d. k \<noteq> RegKey Gpr (VReg d)) \<Longrightarrow> parallel_copy M cs regs k = regs k"
  by (simp add: parallel_copy_def split: reg_key.split reg_class.split reg.split)

lemma parallel_copy_ready:
  assumes "functional remaining" "ready_position remaining = Some pos" "remaining ! pos = (d, src)"
  shows "parallel_copy M (remove_nth pos remaining) (regs(RegKey Gpr (VReg d) := copy_value M regs src))
    = parallel_copy M remaining regs"
proof -
  have pos: "pos < length remaining" and nosrc: "(d', VRegSrc d) \<notin> set remaining" for d'
    using ready_position_Some[OF assms(2)] assms(3) by auto
  have rem: "set remaining = insert (d, src) (set (remove_nth pos remaining))"
    using set_remove_nth[OF pos] assms(3) by simp
  have fun': "functional (remove_nth pos remaining)"
    using assms(1) rem by (auto simp: functional_def)
  have v: "copy_value M (regs(RegKey Gpr (VReg d) := x)) s' = copy_value M regs s'"
    if "(e, s') \<in> set remaining" for e s' x
    using that nosrc by (auto simp: copy_value_def split: copy_src.splits)
  have dsrc: "(d, src) \<in> set remaining" using rem by simp
  show ?thesis
  proof
    fix k
    show "parallel_copy M (remove_nth pos remaining) (regs(RegKey Gpr (VReg d) := copy_value M regs src)) k
        = parallel_copy M remaining regs k"
    proof (cases "\<exists>e. k = RegKey Gpr (VReg e)")
      case True
      then obtain e where k: "k = RegKey Gpr (VReg e)" by blast
      show ?thesis
      proof (cases "map_of (remove_nth pos remaining) e")
        case None
        then have "e \<notin> fst ` set (remove_nth pos remaining)" by (simp add: map_of_eq_None_iff)
        then have "e \<noteq> d \<Longrightarrow> map_of remaining e = None" using rem by (auto simp: map_of_eq_None_iff)
        then show ?thesis
          using None map_of_functional[OF assms(1) dsrc] by (auto simp: parallel_copy_def k)
      next
        case (Some s')
        then have "(e, s') \<in> set remaining" using rem by (auto dest: map_of_SomeD)
        then show ?thesis
          using Some v map_of_functional[OF assms(1)] by (simp add: parallel_copy_def k)
      qed
    next
      case False
      then show ?thesis by (simp add: parallel_copy_other)
    qed
  qed
qed

lemma map_of_redirect:
  "map_of (redirect s tmp remaining) e =
     map_option (\<lambda>src. if src = VRegSrc s then VRegSrc tmp else src) (map_of remaining e)"
  by (simp add: redirect_def map_of_map)

lemma parallel_copy_redirect:
  assumes "below remaining tmp" "k \<noteq> RegKey Gpr (VReg tmp)"
  shows "parallel_copy M (redirect s tmp remaining)
      (regs(RegKey Gpr (VReg tmp) := regs (RegKey Gpr (VReg s)))) k = parallel_copy M remaining regs k"
proof (cases "\<exists>e src. k = RegKey Gpr (VReg e) \<and> map_of remaining e = Some src")
  case True
  then obtain e src where k: "k = RegKey Gpr (VReg e)" "map_of remaining e = Some src" by blast
  have "(e, src) \<in> set remaining" using k(2) by (rule map_of_SomeD)
  then have "src \<noteq> VRegSrc tmp" using assms(1) by (auto simp: below_def)
  then show ?thesis
    using k by (auto simp: parallel_copy_def map_of_redirect copy_value_def split: copy_src.split)
next
  case False
  then show ?thesis
    using assms(2) by (auto simp: parallel_copy_def map_of_redirect
        split: reg_key.splits reg_class.splits reg.splits option.splits)
qed

lemma redirect_ready:
  assumes "functional remaining" "ready_position remaining = None" "below remaining tmp"
    and "(d, VRegSrc s) \<in> set remaining"
  shows "ready_position (redirect s tmp remaining) \<noteq> None"
proof -
  obtain src where "(s, src) \<in> set remaining"
    using cycle_source_is_destination[OF assms(1,2,4)] by blast
  then have "\<exists>src'. (s, src') \<in> set (redirect s tmp remaining)"
    by (force simp: redirect_def)
  moreover have "s \<noteq> tmp" using assms(3,4) by (auto simp: below_def)
  then have "(d', VRegSrc s) \<notin> set (redirect s tmp remaining)" for d'
    by (auto simp: redirect_def split: if_splits)
  ultimately show ?thesis by (auto simp: ready_position_None)
qed

text \<open>An upper bound on the number of temporaries the loop still needs.\<close>

definition temps_needed :: "pending \<Rightarrow> nat" where
  "temps_needed remaining =
     (if ready_position remaining = None then length remaining else length remaining - 1)"

definition loop_measure :: "pending \<Rightarrow> nat" where
  "loop_measure remaining = 2 * length remaining + (if ready_position remaining = None then 1 else 0)"

text \<open>The moves carry out the pending copies, up to the temporaries from \<open>lo\<close> to below \<open>hi\<close>.\<close>

definition copies_done ::
  "('v, 's, 'g) isa \<Rightarrow> pending \<Rightarrow> u32 \<Rightarrow> mir_syllable list \<Rightarrow> u32 \<Rightarrow> bool" where
  "copies_done M copies lo syls hi \<longleftrightarrow>
     (\<forall>st k. \<not> temp_key lo hi k \<longrightarrow>
        rf (exec M syls st) k = parallel_copy M copies (rf st) k \<and>
        stk (exec M syls st) = stk st \<and> glob (exec M syls st) = glob st)"

lemma copies_done_ready:
  assumes "moves_copy M" "functional remaining" "ready_position remaining = Some pos"
    and "remaining ! pos = (d, src)" "copies_done M (remove_nth pos remaining) lo syls hi"
  shows "copies_done M remaining lo (syllable_for_copy d src # syls) hi"
  using assms(5) by (simp add: copies_done_def exec_copy[OF assms(1)] parallel_copy_ready[OF assms(2-4)])

lemma copies_done_redirect:
  assumes "moves_copy M" "below remaining lo" "lo < lo + 1" "lo + 1 \<le> hi"
    and "copies_done M (redirect s lo remaining) (lo + 1) syls hi"
  shows "copies_done M remaining lo (syllable_for_copy lo (VRegSrc s) # syls) hi"
  unfolding copies_done_def
proof (intro allI impI)
  fix st :: "('a, 'b, 'c) mstate" and k
  assume "\<not> temp_key lo hi k"
  then have k: "k \<noteq> RegKey Gpr (VReg lo)" "\<not> temp_key (lo + 1) hi k"
    using assms(3,4) by (auto simp: temp_key_def)
  show "rf (exec M (syllable_for_copy lo (VRegSrc s) # syls) st) k = parallel_copy M remaining (rf st) k \<and>
      stk (exec M (syllable_for_copy lo (VRegSrc s) # syls) st) = stk st \<and>
      glob (exec M (syllable_for_copy lo (VRegSrc s) # syls) st) = glob st"
    using assms(5) k(2) by (simp add: copies_done_def exec_copy[OF assms(1)] copy_value_def
        parallel_copy_redirect[OF assms(2) k(1)])
qed

definition serialized :: "pending \<Rightarrow> u32 \<Rightarrow> mir_syllable list \<Rightarrow> u32 \<Rightarrow> bool" where
  "serialized remaining lo syls hi \<longleftrightarrow>
     (\<forall>result. serialize_loop remaining result lo = Some (result @ syls, hi)) \<and>
     lo \<le> hi \<and> unat hi \<le> unat lo + temps_needed remaining"

lemma serialize_ready_step:
  assumes "ready_position remaining = Some pos" "remaining ! pos = (d, src)"
    and "serialized (remove_nth pos remaining) lo syls hi"
  shows "serialized remaining lo (syllable_for_copy d src # syls) hi"
proof -
  have pos: "pos < length remaining" by (rule ready_position_Some(1)[OF assms(1)])
  have "serialize_loop remaining result lo = Some (result @ syllable_for_copy d src # syls, hi)" for result
    using assms pos by (subst serialize_loop.simps) (auto simp: serialized_def)
  moreover have "temps_needed (remove_nth pos remaining) \<le> temps_needed remaining"
    using length_remove_nth[OF pos] assms(1) by (auto simp: temps_needed_def)
  ultimately show ?thesis using assms(3) by (simp add: serialized_def)
qed

lemma serialize_break_step:
  assumes "ready_position remaining = None" "first_reg_source remaining = Some s" "remaining \<noteq> []"
    and "unat (lo + 1) = Suc (unat lo)" "Suc (temps_needed (redirect s lo remaining)) = temps_needed remaining"
    and "serialized (redirect s lo remaining) (lo + 1) syls hi"
  shows "serialized remaining lo (syllable_for_copy lo (VRegSrc s) # syls) hi"
proof -
  have "serialize_loop remaining result lo = Some (result @ syllable_for_copy lo (VRegSrc s) # syls, hi)" for result
    using assms(1-3,6) by (subst serialize_loop.simps) (auto simp: serialized_def)
  then show ?thesis using assms(4-6) by (simp add: serialized_def word_le_nat_alt)
qed

text \<open>What the loop keeps when it emits a ready copy, and when it breaks a cycle with the register \<open>lo\<close>.\<close>

lemma emit_ready_keeps:
  assumes "functional remaining" "below remaining lo" "unat lo + temps_needed remaining < 2 ^ 32"
    and "ready_position remaining = Some pos"
  defines "r \<equiv> remove_nth pos remaining"
  shows "loop_measure r < loop_measure remaining" "functional r" "below r lo" "unat lo + temps_needed r < 2 ^ 32"
proof -
  have pos: "pos < length remaining" by (rule ready_position_Some(1)[OF assms(4)])
  note len = length_remove_nth[OF pos] and rem = set_remove_nth[OF pos]
  show "loop_measure r < loop_measure remaining" using len pos by (auto simp: loop_measure_def r_def)
  show "functional r" "below r lo" using assms(1,2) rem by (auto simp: functional_def below_def r_def)
  show "unat lo + temps_needed r < 2 ^ 32"
    using assms(3,4) len by (auto simp: temps_needed_def r_def split: if_splits)
qed

lemma break_cycle_keeps:
  assumes "functional remaining" "below remaining lo" "unat lo + temps_needed remaining < 2 ^ 32"
    and "ready_position remaining = None" "remaining \<noteq> []" "(d, VRegSrc s) \<in> set remaining"
  defines "r \<equiv> redirect s lo remaining"
  shows "loop_measure r < loop_measure remaining" "functional r" "below r (lo + 1)"
    "unat (lo + 1) = Suc (unat lo)" "Suc (temps_needed r) = temps_needed remaining" "unat (lo + 1) + temps_needed r < 2 ^ 32"
proof -
  have ready: "ready_position r \<noteq> None" unfolding r_def by (rule redirect_ready[OF assms(1,4,2,6)])
  have len: "length r = length remaining" by (simp add: redirect_def r_def)
  then show need: "Suc (temps_needed r) = temps_needed remaining"
    using ready assms(4,5) by (simp add: temps_needed_def)
  then show nxt: "unat (lo + 1) = Suc (unat lo)" and "unat (lo + 1) + temps_needed r < 2 ^ 32"
    using assms(3) by (simp_all add: unat_word_ariths)
  have "lo < lo + 1" using nxt by (simp add: word_less_nat_alt)
  then show "below r (lo + 1)" using assms(2) by (fastforce simp: below_def redirect_def r_def split: if_splits)
  show "functional r" using assms(1) by (fastforce simp: functional_def redirect_def r_def)
  show "loop_measure r < loop_measure remaining" using ready assms(4,5) len by (auto simp: loop_measure_def)
qed

lemma serialize_loop_correct:
  assumes "functional remaining" "below remaining lo" "unat lo + temps_needed remaining < 2 ^ 32"
  shows "\<exists>syls hi. serialized remaining lo syls hi \<and>
    (\<forall>M :: ('v, 's, 'g) isa. moves_copy M \<longrightarrow> copies_done M remaining lo syls hi)"
  using assms
proof (induction "loop_measure remaining" arbitrary: remaining lo rule: less_induct)
  case less
  consider "remaining = []" | pos where "ready_position remaining = Some pos"
    | "remaining \<noteq> []" "ready_position remaining = None" by fastforce
  then show ?case
  proof cases
    case 1
    have "parallel_copy M [] regs k = regs k" for M :: "('v, 's, 'g) isa" and regs k
      by (simp add: parallel_copy_def split: reg_key.split reg_class.split reg.split)
    then have "serialized remaining lo [] lo \<and>
        (\<forall>M :: ('v, 's, 'g) isa. moves_copy M \<longrightarrow> copies_done M remaining lo [] lo)"
      using 1 by (auto simp: serialized_def copies_done_def serialize_loop.simps)
    then show ?thesis by blast
  next
    case (2 pos)
    obtain d src where p: "remaining ! pos = (d, src)" by fastforce
    obtain syls hi where "serialized (remove_nth pos remaining) lo syls hi"
        "\<forall>M :: ('v, 's, 'g) isa. moves_copy M \<longrightarrow> copies_done M (remove_nth pos remaining) lo syls hi"
      using less.hyps emit_ready_keeps[OF less.prems 2] by blast
    then show ?thesis
      using serialize_ready_step[OF 2 p] copies_done_ready[OF _ less.prems(1) 2 p] by blast
  next
    case 3
    then obtain d0 src0 where "(d0, src0) \<in> set remaining" by (cases remaining) auto
    then obtain s where s: "first_reg_source remaining = Some s"
      using 3(2) first_reg_source_ex by (metis ready_position_None)
    then obtain d where d: "(d, VRegSrc s) \<in> set remaining" using first_reg_source_Some by blast
    note keeps = break_cycle_keeps[OF less.prems 3(2,1) d]
    obtain syls hi where IH: "serialized (redirect s lo remaining) (lo + 1) syls hi"
        "\<forall>M :: ('v, 's, 'g) isa. moves_copy M \<longrightarrow> copies_done M (redirect s lo remaining) (lo + 1) syls hi"
      using less.hyps keeps by blast
    have lt: "lo < lo + 1" using keeps(4) by (simp add: word_less_nat_alt)
    then show ?thesis
      using IH serialize_break_step[OF 3(2) s 3(1) keeps(4,5) IH(1)]
        copies_done_redirect[OF _ less.prems(2) lt, of _ hi s syls] by (auto simp: serialized_def)
  qed
qed


section \<open>Lowering the copies of a predecessor, and of a function\<close>

definition copy_pairs :: "phi_copy list \<Rightarrow> pending" where
  "copy_pairs copies = map (\<lambda>c. (copy_dst c, copy_src c)) copies"

lemma set_initial_pending:
  "(d, src) \<in> set (initial_pending copies) \<longleftrightarrow> (d, src) \<in> set (copy_pairs copies) \<and> src \<noteq> VRegSrc d"
  by (auto simp: initial_pending_def set_map_filter copy_pairs_def split: if_splits)

lemma length_initial_pending: "length (initial_pending copies) \<le> length copies"
  by (induction copies) (simp_all add: initial_pending_def List.map_filter_simps)

lemma parallel_copy_initial:
  assumes "functional (copy_pairs copies)"
  shows "parallel_copy M (initial_pending copies) = parallel_copy M (copy_pairs copies)"
proof -
  have f: "functional (initial_pending copies)"
    using assms by (auto simp: functional_def set_initial_pending)
  have "(case map_of (initial_pending copies) d of Some src \<Rightarrow> copy_value M regs src | None \<Rightarrow> regs (RegKey Gpr (VReg d)))
      = (case map_of (copy_pairs copies) d of Some src \<Rightarrow> copy_value M regs src | None \<Rightarrow> regs (RegKey Gpr (VReg d)))"
    for regs d
  proof (cases "map_of (copy_pairs copies) d")
    case None
    then have "map_of (initial_pending copies) d = None"
      by (metis map_of_SomeD map_of_functional[OF assms] option.exhaust option.simps(3) set_initial_pending)
    then show ?thesis using None by simp
  next
    case (Some src)
    then have src: "(d, src) \<in> set (copy_pairs copies)" by (rule map_of_SomeD)
    show ?thesis
    proof (cases "src = VRegSrc d")
      case True
      have "map_of (initial_pending copies) d = None"
        by (metis True src assms functional_def map_of_SomeD option.exhaust set_initial_pending)
      then show ?thesis using Some True by (simp add: copy_value_def)
    next
      case False
      then show ?thesis
        using Some src map_of_functional[OF f, of d src] by (simp add: set_initial_pending)
    qed
  qed
  then show ?thesis by (auto simp: parallel_copy_def fun_eq_iff split: reg_key.split reg_class.split reg.split)
qed

definition copies_wf :: "phi_copy list \<Rightarrow> u32 \<Rightarrow> bool" where
  "copies_wf copies next_vreg \<longleftrightarrow> functional (copy_pairs copies) \<and> below (copy_pairs copies) next_vreg"

lemma serialize_correct:
  assumes "copies_wf copies next_vreg" "unat next_vreg + length copies < 2 ^ 32"
  shows "\<exists>syls next'. serialize_parallel_copies copies next_vreg = Some (syls, next') \<and>
    next_vreg \<le> next' \<and> unat next' \<le> unat next_vreg + length copies \<and>
    (\<forall>M :: ('v, 's, 'g) isa. moves_copy M \<longrightarrow> copies_done M (copy_pairs copies) next_vreg syls next')"
proof -
  let ?p = "initial_pending copies"
  have f: "functional (copy_pairs copies)" using assms(1) by (simp add: copies_wf_def)
  have need: "temps_needed ?p \<le> length copies"
    using length_initial_pending[of copies] unfolding temps_needed_def by (auto split: if_splits)
  have sub: "set ?p \<subseteq> set (copy_pairs copies)" by (auto simp: set_initial_pending)
  then have "functional ?p" using f unfolding functional_def by blast
  moreover have "below ?p next_vreg"
    using assms(1) sub unfolding copies_wf_def below_def by blast
  ultimately obtain syls hi where "serialized ?p next_vreg syls hi"
      "\<forall>M :: ('v, 's, 'g) isa. moves_copy M \<longrightarrow> copies_done M ?p next_vreg syls hi"
    using serialize_loop_correct[of ?p next_vreg] assms(2) need by (metis add_le_cancel_left le_less_trans)
  then show ?thesis
    using need by (intro exI[of _ syls] exI[of _ hi])
      (auto simp: serialize_parallel_copies_def serialized_def copies_done_def parallel_copy_initial[OF f])
qed

text \<open>What lowering does to one block: copies are appended exactly where the map has an entry.\<close>

definition phi_lowered ::
  "('v, 's, 'g) isa \<Rightarrow> u32 \<Rightarrow> u32 \<Rightarrow> (string \<times> phi_copy list) list \<Rightarrow> block \<Rightarrow> block \<Rightarrow> bool" where
  "phi_lowered M lo hi entries b b' \<longleftrightarrow>
     label b' = label b \<and> terminator b' = terminator b \<and>
     (case map_of entries (label b) of
        None \<Rightarrow> syllables b' = syllables b
      | Some copies \<Rightarrow> (\<exists>syls lo' hi'. syllables b' = syllables b @ syls \<and> lo \<le> lo' \<and> hi' \<le> hi \<and>
          copies_done M (copy_pairs copies) lo' syls hi'))"

lemma below_mono: "below copies n \<Longrightarrow> n \<le> m \<Longrightarrow> below copies m"
  by (force simp: below_def)

lemma phi_lowered_mono:
  "phi_lowered M mid hi entries b b' \<Longrightarrow> lo \<le> mid \<Longrightarrow> phi_lowered M lo hi entries b b'"
  unfolding phi_lowered_def by (cases "map_of entries (label b)") (simp_all, meson order_trans)

lemma lower_phi_entry_correct:
  assumes "moves_copy M" "l \<in> label ` set bs" "copies_wf copies lo" "unat lo + length copies < 2 ^ 32"
  shows "\<exists>idx syls hi. idx < length bs \<and> label (bs ! idx) = l \<and> lo \<le> hi \<and> unat hi \<le> unat lo + length copies \<and>
    copies_done M (copy_pairs copies) lo syls hi \<and>
    lower_phi_entry (bs, lo) (l, copies) =
      Inr (bs[idx := (bs ! idx)\<lparr>syllables := syllables (bs ! idx) @ syls\<rparr>], hi)"
proof -
  obtain idx where idx: "position (\<lambda>b. label b = l) bs = Some idx"
    using assms(2) position_None[of "\<lambda>b. label b = l" bs] by fastforce
  obtain syls hi where "serialize_parallel_copies copies lo = Some (syls, hi)" "lo \<le> hi"
      "unat hi \<le> unat lo + length copies" "copies_done M (copy_pairs copies) lo syls hi"
    using serialize_correct[OF assms(3,4)] assms(1) by blast
  then show ?thesis
    using idx position_Some[OF idx] by (intro exI[of _ idx] exI[of _ syls] exI[of _ hi])
      (simp add: lower_phi_entry_def)
qed

text \<open>The effect of one entry followed by the effect of the others, block by block.\<close>

lemma phi_lowered_step:
  assumes "distinct (map label bs)" "idx < length bs" "label (bs ! idx) = l" "map_of entries l = None" "lo \<le> mid" "mid \<le> hi"
    and "copies_done M (copy_pairs copies) lo syls mid"
    and "list_all2 (phi_lowered M mid hi entries) (bs[idx := (bs ! idx)\<lparr>syllables := syllables (bs ! idx) @ syls\<rparr>]) bs'"
  shows "list_all2 (phi_lowered M lo hi ((l, copies) # entries)) bs bs'"
proof -
  let ?bs = "bs[idx := (bs ! idx)\<lparr>syllables := syllables (bs ! idx) @ syls\<rparr>]"
  have "phi_lowered M lo hi ((l, copies) # entries) (bs ! j) (bs' ! j)" if j: "j < length bs" for j
  proof -
    have IHj: "phi_lowered M mid hi entries (?bs ! j) (bs' ! j)" using assms(8) j by (simp add: list_all2_conv_all_nth)
    show ?thesis
    proof (cases "j = idx")
      case True
      then show ?thesis using IHj assms(2-7) by (auto simp: phi_lowered_def)
    next
      case False
      then have "label (bs ! j) \<noteq> l"
        using assms(1-3) j by (metis length_map nth_eq_iff_index_eq nth_map)
      moreover have "phi_lowered M mid hi entries (bs ! j) (bs' ! j)" using IHj False by simp
      ultimately show ?thesis using assms(5) phi_lowered_mono[of M mid hi entries _ _ lo] by (auto simp: phi_lowered_def)
    qed
  qed
  then show ?thesis using assms(8) by (simp add: list_all2_conv_all_nth)
qed

lemma lower_phi_copies_correct:
  assumes "moves_copy M" "distinct (map label bs)" "distinct (map fst entries)"
    and "fst ` set entries \<subseteq> label ` set bs" "\<forall>(l, copies) \<in> set entries. copies_wf copies lo"
    and "unat lo + sum_list (map (length \<circ> snd) entries) < 2 ^ 32"
  shows "\<exists>bs' hi. lower_phi_copies bs entries lo = Inr (bs', hi) \<and> lo \<le> hi \<and>
    list_all2 (phi_lowered M lo hi entries) bs bs'"
  using assms
proof (induction entries arbitrary: bs lo)
  case Nil
  have "list_all2 (phi_lowered M lo lo []) bs bs" by (rule list_all2_refl) (simp add: phi_lowered_def)
  then show ?case by (auto simp: lower_phi_copies_def)
next
  case (Cons e entries)
  obtain l copies where e: "e = (l, copies)" by fastforce
  obtain idx syls mid where step: "idx < length bs" "label (bs ! idx) = l" "lo \<le> mid"
      "unat mid \<le> unat lo + length copies" "copies_done M (copy_pairs copies) lo syls mid"
      "lower_phi_entry (bs, lo) e = Inr (bs[idx := (bs ! idx)\<lparr>syllables := syllables (bs ! idx) @ syls\<rparr>], mid)"
    using lower_phi_entry_correct[OF Cons.prems(1), of l bs copies lo] Cons.prems(4-6) e by auto
  let ?b = "(bs ! idx)\<lparr>syllables := syllables (bs ! idx) @ syls\<rparr>"
  let ?bs = "bs[idx := ?b]"
  have labels: "map label ?bs = map label bs"
    using step(1) by (simp add: map_update list_update_same_conv)
  have "\<forall>(l, copies) \<in> set entries. copies_wf copies mid"
    using Cons.prems(5) step(3) below_mono by (fastforce simp: copies_wf_def)
  moreover have "unat mid + sum_list (map (length \<circ> snd) entries) < 2 ^ 32"
    using Cons.prems(6) step(4) e by (simp add: comp_def)
  moreover have "fst ` set entries \<subseteq> label ` set ?bs"
    using Cons.prems(4) labels by (metis image_set insert_subset list.simps(15) image_insert)
  ultimately obtain bs' hi where IH: "lower_phi_copies ?bs entries mid = Inr (bs', hi)" "mid \<le> hi"
      "list_all2 (phi_lowered M mid hi entries) ?bs bs'"
    using Cons.IH[of ?bs mid] Cons.prems(1-3) labels by (auto simp: comp_def)
  have "map_of entries l = None" using Cons.prems(3) e by (simp add: map_of_eq_None_iff)
  then have "list_all2 (phi_lowered M lo hi (e # entries)) bs bs'"
    using phi_lowered_step[OF Cons.prems(2) step(1,2) _ step(3) IH(2) step(5) IH(3)] e by simp
  then show ?case using step(3,6) IH(1,2) by (auto simp: lower_phi_copies_def)
qed

text \<open>
  C10: sequentialising parallel copies is correct and always succeeds.  Take any set of phi copies
  in which a destination has one source, whose registers are all below the next free register
  number, with room for the temporaries.  Then \<open>serialize_parallel_copies\<close> returns (its loop ends
  and its \<open>expect\<close> never fails), and running the moves leaves every register but the fresh
  temporaries as if all copies had happened at once, and memory unchanged: no move clobbers a
  source that a later move still needs, in chains, fans and cycles alike.
\<close>

theorem serialize_parallel_copies_correct:
  assumes "copies_wf copies next_vreg" "unat next_vreg + length copies < 2 ^ 32" "moves_copy M"
  shows "\<exists>syls next'. serialize_parallel_copies copies next_vreg = Some (syls, next') \<and>
    next_vreg \<le> next' \<and> unat next' \<le> unat next_vreg + length copies \<and>
    (\<forall>st k. \<not> temp_key next_vreg next' k \<longrightarrow>
       rf (exec M syls st) k = parallel_copy M (copy_pairs copies) (rf st) k \<and>
       stk (exec M syls st) = stk st \<and> glob (exec M syls st) = glob st)"
  using serialize_correct[OF assms(1,2)] assms(3) unfolding copies_done_def by blast

text \<open>Witness: a swap with a third copy hanging off the cycle, on a machine over integers.\<close>

definition int_isa :: "(int, unit, unit) isa" where
  "int_isa =
     \<lparr>imm_val = sint,
      alu_eff = (\<lambda>op vs. case vs of [x] \<Rightarrow> x | _ \<Rightarrow> sum_list vs),
      stack_eff = (\<lambda>_ _ m. (0, m)), global_eff = (\<lambda>_ _ m. (0, m)), unknown_eff = (\<lambda>_ _ m. (0, m))\<rparr>"

definition swap_copies :: "phi_copy list" where
  "swap_copies =
     [\<lparr>copy_dst = 1, copy_src = VRegSrc 2\<rparr>, \<lparr>copy_dst = 2, copy_src = VRegSrc 1\<rparr>,
      \<lparr>copy_dst = 3, copy_src = VRegSrc 1\<rparr>]"

theorem serialize_parallel_copies_correct_witness:
  "\<exists>syls next'. serialize_parallel_copies swap_copies 10 = Some (syls, next') \<and>
     (\<forall>st. rf (exec int_isa syls st) (RegKey Gpr (VReg 1)) = rf st (RegKey Gpr (VReg 2)) \<and>
           rf (exec int_isa syls st) (RegKey Gpr (VReg 2)) = rf st (RegKey Gpr (VReg 1)) \<and>
           rf (exec int_isa syls st) (RegKey Gpr (VReg 3)) = rf st (RegKey Gpr (VReg 1)))"
proof -
  have "copies_wf swap_copies 10" "unat (10 :: u32) + length swap_copies < 2 ^ 32" "moves_copy int_isa"
    by (auto simp: copies_wf_def functional_def below_def copy_pairs_def swap_copies_def moves_copy_def int_isa_def)
  from serialize_parallel_copies_correct[OF this] obtain syls next' where
    out: "serialize_parallel_copies swap_copies 10 = Some (syls, next')"
    and run: "\<And>st k. \<not> temp_key 10 next' k \<Longrightarrow>
       rf (exec int_isa syls st) k = parallel_copy int_isa (copy_pairs swap_copies) (rf st) k" by blast
  have "\<not> temp_key 10 next' (RegKey Gpr (VReg n))" if "n \<in> {1, 2, 3}" for n
    using that by (auto simp: temp_key_def word_le_nat_alt)
  then show ?thesis
    using out run by (intro exI[of _ syls] exI[of _ next'])
      (simp add: parallel_copy_def copy_pairs_def swap_copies_def copy_value_def)
qed

text \<open>
  C24: lowering all phi copies of a function touches only what it should.  Whatever order the
  \<open>HashMap\<close> iteration takes, if block labels are distinct and every predecessor named by an entry
  exists, \<open>lower_phi_copies\<close> succeeds; labels and terminators are unchanged; a block with an entry
  gets, after its own syllables, moves that perform exactly that entry's parallel copies; every
  other block is unchanged.
\<close>

theorem lower_phi_copies_frame:
  assumes "moves_copy M" "distinct (map label bs)" "distinct (map fst entries)"
    and "fst ` set entries \<subseteq> label ` set bs" "\<forall>(l, copies) \<in> set entries. copies_wf copies lo"
    and "unat lo + sum_list (map (length \<circ> snd) entries) < 2 ^ 32"
  shows "\<exists>bs' hi. lower_phi_copies bs entries lo = Inr (bs', hi) \<and>
    list_all2 (phi_lowered M lo hi entries) bs bs'"
  using lower_phi_copies_correct[OF assms] by blast

theorem lower_phi_copies_frame_witness:
  "\<exists>bs' hi. lower_phi_copies (blocks demo_mir) [(''entry'', swap_copies)] 10 = Inr (bs', hi) \<and>
     list_all2 (phi_lowered int_isa 10 hi [(''entry'', swap_copies)]) (blocks demo_mir) bs'"
proof (rule lower_phi_copies_frame)
  show "moves_copy int_isa" by (simp add: moves_copy_def int_isa_def)
  show "\<forall>(l, copies) \<in> set [(''entry'', swap_copies)]. copies_wf copies 10"
    by (auto simp: copies_wf_def functional_def below_def copy_pairs_def swap_copies_def)
qed (simp_all add: demo_mir_def swap_copies_def)

end
