(* ===== verification/Isel.thy ===== *)
theory Isel
  imports Llvm Phi Regs
begin

text \<open>
  Component \<open>vliw-backend/src/isel.rs\<close>: lowering of LLVM functions to MIR.  The local variables of
  \<open>lower_function\<close> that its loops change are the fields of one record, each kind of instruction is one
  definition, and the worklist loop is a recursive function.  Every \<open>expect\<close> and every index of a
  map that can fail is the error \<open>Panic\<close>.
\<close>

datatype raw_phi_val = ConstPhi i64 | LlvmRef nat

record pending_phi =
  phi_block_label :: string
  phi_dst :: u32
  phi_edges :: "(string \<times> raw_phi_val) list"

record isel_cx =
  vreg_map :: "nat \<rightharpoonup> u32"
  next_vreg :: u32
  gep_map :: "nat \<rightharpoonup> val \<times> i64"
  pending_phis :: "pending_phi list"
  edge_remap :: "string \<times> string \<rightharpoonup> string"
  call_count :: nat
  worklist :: "string list"
  visited :: "string list"
  mir_blocks :: "block list"
  cur_label :: string
  cur_syls :: "mir_syllable list"
  cur_term :: terminator
  false_succ :: "string option"
  true_succ :: "string option"

definition push_syl :: "mir_syllable \<Rightarrow> isel_cx \<Rightarrow> isel_cx" where
  "push_syl s cx = cx\<lparr>cur_syls := cur_syls cx @ [s]\<rparr>"

definition expect_some :: "'a option \<Rightarrow> string \<Rightarrow> compile_error + 'a" where
  "expect_some opt msg = ok_or opt (Panic msg)"

section \<open>Operands\<close>

definition lower_operand :: "llvm_operand \<Rightarrow> isel_cx \<Rightarrow> compile_error + val \<times> isel_cx" where
  "lower_operand opr cx =
     (case opr of
        ValueOp v \<Rightarrow>
          (case value_type v of
             IntType _ \<Rightarrow>
               if is_const v then
                 (let imm = (case const_int v of Some n \<Rightarrow> n | None \<Rightarrow> 0); dst_id = next_vreg cx
                  in Inr (RegV (VReg dst_id),
                          push_syl (syl MovImm (Some (VReg dst_id)) [ImmV imm]) (cx\<lparr>next_vreg := next_vreg cx + 1\<rparr>)))
               else
                 and_then (expect_some (vreg_map cx (value_key v)) ''VReg not found; value used before definition'')
                   (\<lambda>n. Inr (RegV (VReg n), cx))
           | _ \<Rightarrow> Inl (Panic ''non-integer operand in integer instruction''))
      | BlockOp _ \<Rightarrow> Inl (Panic ''unexpected basic-block operand in integer instruction''))"

definition lower_ptr_operand :: "llvm_operand \<Rightarrow> isel_cx \<Rightarrow> compile_error + val \<times> i64" where
  "lower_ptr_operand opr cx =
     (case opr of
        ValueOp v \<Rightarrow>
          if value_type v \<noteq> PointerType then
            Inl (NotImplemented ''non-pointer operand where pointer expected'')
          else if is_const v then
            (case inttoptr_const v of
               Some addr \<Rightarrow> Inr (ImmV addr, 0)
             | None \<Rightarrow> Inl (NotImplemented ''unsupported constant pointer expression''))
          else
            (case gep_map cx (value_key v) of
               Some (base, offset) \<Rightarrow> Inr (base, offset)
             | None \<Rightarrow>
                 (case vreg_map cx (value_key v) of
                    Some n \<Rightarrow> Inr (RegV (VReg n), 0)
                  | None \<Rightarrow> Inl (NotImplemented ''pointer not found in vreg_map or gep_map'')))
      | BlockOp _ \<Rightarrow> Inl (NotImplemented ''non-pointer operand where pointer expected''))"

text \<open>\<open>LLVMGetIntTypeWidth(ty) as i64 / 8\<close>: the width is a \<open>u32\<close>, so the division is on naturals.\<close>

definition int_type_byte_size :: "llvm_type \<Rightarrow> compile_error + i64" where
  "int_type_byte_size ty =
     (case ty of
        IntType w \<Rightarrow> Inr (of_nat (unat w div 8))
      | _ \<Rightarrow> Inl (NotImplemented ''GEP with non-integer element type''))"

definition bve_key :: "llvm_value \<Rightarrow> compile_error + nat" where
  "bve_key v =
     (case value_type v of
        IntType _ \<Rightarrow> Inr (value_key v)
      | PointerType \<Rightarrow> Inr (value_key v)
      | _ \<Rightarrow> Inl (Panic ''unsupported function parameter type''))"

section \<open>Instructions\<close>

type_synonym labels = "nat \<rightharpoonup> string"

definition label_at :: "labels \<Rightarrow> nat option \<Rightarrow> compile_error + string" where
  "label_at label_of k = expect_some (Option.bind k label_of) ''block not in label_of''"

definition raw_phi_edge :: "labels \<Rightarrow> llvm_value \<times> nat \<Rightarrow> compile_error + string \<times> raw_phi_val" where
  "raw_phi_edge label_of edge =
     (case edge of (v, bb) \<Rightarrow>
        and_then (label_at label_of (Some bb)) (\<lambda>pred_label.
        Inr (pred_label, case const_int v of Some n \<Rightarrow> ConstPhi n | None \<Rightarrow> LlvmRef (value_key v))))"

definition lower_phi :: "labels \<Rightarrow> string \<Rightarrow> llvm_instr \<Rightarrow> isel_cx \<Rightarrow> compile_error + isel_cx" where
  "lower_phi label_of lbl instr cx =
     (let dst_id = next_vreg cx;
          cx = cx\<lparr>next_vreg := next_vreg cx + 1, vreg_map := (vreg_map cx)(value_ref instr \<mapsto> dst_id)\<rparr>
      in and_then (try_map (raw_phi_edge label_of) (phi_incoming instr)) (\<lambda>edges.
         Inr (cx\<lparr>pending_phis := pending_phis cx @
                   [\<lparr>phi_block_label = lbl, phi_dst = dst_id, phi_edges = edges\<rparr>]\<rparr>)))"

definition lower_return :: "llvm_instr \<Rightarrow> isel_cx \<Rightarrow> compile_error + isel_cx" where
  "lower_return instr cx =
     and_then
       (case get_operands instr of
          ValueOp v # _ \<Rightarrow>
            (case value_type v of
               IntType _ \<Rightarrow>
                 if is_const v then
                   Inr (push_syl (syl MovImm (Some (PReg RETVAL_REG))
                          [ImmV (case const_int v of Some n \<Rightarrow> n | None \<Rightarrow> 0)]) cx)
                 else
                   and_then (expect_some (vreg_map cx (value_key v)) ''return value not in vreg_map'') (\<lambda>n.
                   Inr (push_syl (syl Mov (Some (PReg RETVAL_REG)) [RegV (VReg n)]) cx))
             | _ \<Rightarrow> Inr cx)
        | _ \<Rightarrow> Inr cx)
       (\<lambda>cx. Inr (cx\<lparr>cur_term := ReturnT\<rparr>))"

definition lower_br :: "labels \<Rightarrow> llvm_instr \<Rightarrow> isel_cx \<Rightarrow> compile_error + isel_cx" where
  "lower_br label_of instr cx =
     (case br_condition instr of
        Some cond \<Rightarrow>
          and_then (label_at label_of (get (br_successors instr) 0)) (\<lambda>true_label.
          and_then (label_at label_of (get (br_successors instr) 1)) (\<lambda>false_label.
          and_then (expect_some (vreg_map cx (value_key cond)) ''branch condition not in vreg_map'') (\<lambda>n.
          Inr (cx\<lparr>cur_term := BranchT (VReg n) true_label,
                  false_succ := Some false_label, true_succ := Some true_label\<rparr>))))
      | None \<Rightarrow>
          and_then (label_at label_of (get (br_successors instr) 0)) (\<lambda>target_label.
          Inr (cx\<lparr>cur_term := JumpT target_label, true_succ := Some target_label\<rparr>)))"

definition lower_arg :: "isel_cx \<Rightarrow> nat \<times> llvm_value \<Rightarrow> compile_error + isel_cx" where
  "lower_arg cx arg =
     (case arg of (i, v) \<Rightarrow>
        let dst = Some (PReg (ARG_REG_FIRST + of_nat i))
        in case const_int v of
             Some imm \<Rightarrow> Inr (push_syl (syl MovImm dst [ImmV imm]) cx)
           | None \<Rightarrow>
               and_then (expect_some (vreg_map cx (value_key v)) ''call argument not in vreg_map'') (\<lambda>n.
               Inr (push_syl (syl Mov dst [RegV (VReg n)]) cx)))"

definition split_at_call :: "u64 \<Rightarrow> string \<Rightarrow> isel_cx \<Rightarrow> isel_cx" where
  "split_at_call msize target cx =
     (let cx = push_syl (syl StoreD None [ImmV (link_reg_save_addr msize), RegV (PReg LINK_REG)]) cx;
          cont_label = cur_label cx @ ''__cont__'' @ show_nat (call_count cx);
          cx = cx\<lparr>call_count := call_count cx + 1,
                  mir_blocks := mir_blocks cx @
                    [\<lparr>label = cur_label cx, syllables = cur_syls cx, terminator = DirectCallT target cont_label\<rparr>],
                  cur_syls := [], cur_label := cont_label, cur_term := ReturnT\<rparr>
      in push_syl (syl LoadD (Some (PReg LINK_REG)) [ImmV (link_reg_save_addr msize)]) cx)"

definition lower_call :: "u64 \<Rightarrow> llvm_instr \<Rightarrow> isel_cx \<Rightarrow> compile_error + isel_cx" where
  "lower_call msize instr cx =
     (let callee = called_value instr
      in if \<not> is_function callee then Inl (UnsupportedFeature ''indirect call not supported'')
         else if callee_blocks callee = 0 then Inl (UnsupportedFeature ''call to external function'')
         else if 8 < length (arg_operands instr) then
           Inl (UnsupportedFeature ''call with more than 8 arguments'')
         else and_then (try_fold lower_arg cx (enumerate 0 (arg_operands instr))) (\<lambda>cx.
           let cx = split_at_call msize (callee_name callee) cx
           in if get_type instr \<noteq> VoidType then
                (let ret_vreg = next_vreg cx
                 in Inr (push_syl (syl Mov (Some (VReg ret_vreg)) [RegV (PReg RETVAL_REG)])
                      (cx\<lparr>next_vreg := next_vreg cx + 1,
                          vreg_map := (vreg_map cx)(value_ref instr \<mapsto> ret_vreg)\<rparr>)))
              else Inr cx))"

text \<open>The first two operands of a binary instruction, lowered from left to right.\<close>

definition lower_two_operands :: "string \<Rightarrow> string \<Rightarrow> llvm_instr \<Rightarrow> isel_cx \<Rightarrow> compile_error + (val \<times> val) \<times> isel_cx" where
  "lower_two_operands msg_lhs msg_rhs instr cx =
     and_then (expect_some (get (get_operands instr) 0) msg_lhs) (\<lambda>a.
     and_then (lower_operand a cx) (\<lambda>(lhs, cx).
     and_then (expect_some (get (get_operands instr) 1) msg_rhs) (\<lambda>b.
     and_then (lower_operand b cx) (\<lambda>(rhs, cx). Inr ((lhs, rhs), cx)))))"

definition icmp_selection :: "int_predicate \<Rightarrow> val \<Rightarrow> val \<Rightarrow> compile_error + opcode \<times> val \<times> val" where
  "icmp_selection pred lhs rhs =
     (case pred of
        EQ \<Rightarrow> Inr (CmpEq, lhs, rhs)
      | NE \<Rightarrow> Inr (CmpEq, lhs, rhs)
      | SLT \<Rightarrow> Inr (CmpLt, lhs, rhs)
      | SGT \<Rightarrow> Inr (CmpLt, rhs, lhs)
      | ULT \<Rightarrow> Inr (CmpUlt, lhs, rhs)
      | UGT \<Rightarrow> Inr (CmpUlt, rhs, lhs)
      | _ \<Rightarrow> Inl (NotImplemented ''unsupported icmp predicate''))"

definition lower_icmp :: "llvm_instr \<Rightarrow> isel_cx \<Rightarrow> compile_error + isel_cx" where
  "lower_icmp instr cx =
     and_then (expect_some (icmp_predicate instr) ''ICmp must have a predicate'') (\<lambda>pred.
     and_then (lower_two_operands ''icmp lhs'' ''icmp rhs'' instr cx) (\<lambda>((lhs, rhs), cx).
     and_then (icmp_selection pred lhs rhs) (\<lambda>(opcode, src0, src1).
     let cmp_dst = next_vreg cx;
         cx = push_syl (syl opcode (Some (VReg cmp_dst)) [src0, src1]) (cx\<lparr>next_vreg := next_vreg cx + 1\<rparr>)
     in if pred = NE then
          (let not_dst = next_vreg cx;
               cx = push_syl (syl PNot (Some (VReg not_dst)) [RegV (VReg cmp_dst)]) (cx\<lparr>next_vreg := next_vreg cx + 1\<rparr>)
           in Inr (cx\<lparr>vreg_map := (vreg_map cx)(value_ref instr \<mapsto> not_dst)\<rparr>))
        else Inr (cx\<lparr>vreg_map := (vreg_map cx)(value_ref instr \<mapsto> cmp_dst)\<rparr>))))"

definition binary_opcode :: "instruction_opcode \<Rightarrow> opcode option" where
  "binary_opcode op =
     (case op of
        AddI \<Rightarrow> Some Add | SubI \<Rightarrow> Some Sub | MulI \<Rightarrow> Some Mul | AndI \<Rightarrow> Some And | OrI \<Rightarrow> Some Or
      | XorI \<Rightarrow> Some Xor | ShlI \<Rightarrow> Some Shl | LShrI \<Rightarrow> Some Srl | AShrI \<Rightarrow> Some Sra | _ \<Rightarrow> None)"

definition lower_binary :: "opcode \<Rightarrow> llvm_instr \<Rightarrow> isel_cx \<Rightarrow> compile_error + isel_cx" where
  "lower_binary vliw_op instr cx =
     and_then (lower_two_operands ''binary op requires LHS'' ''binary op requires RHS'' instr cx) (\<lambda>((lhs, rhs), cx).
     let dst_id = next_vreg cx
     in Inr (push_syl (syl vliw_op (Some (VReg dst_id)) [lhs, rhs])
          (cx\<lparr>next_vreg := next_vreg cx + 1, vreg_map := (vreg_map cx)(value_ref instr \<mapsto> dst_id)\<rparr>)))"

definition store_opcode :: "llvm_operand \<Rightarrow> compile_error + opcode" where
  "store_opcode val_op =
     (case val_op of
        ValueOp v \<Rightarrow>
          (case value_type v of
             IntType w \<Rightarrow>
               if w = 8 then Inr StoreB else if w = 32 then Inr StoreW else if w = 64 then Inr StoreD
               else Inl (NotImplemented ''unsupported store width'')
           | _ \<Rightarrow> Inl (NotImplemented ''non-integer store''))
      | BlockOp _ \<Rightarrow> Inl (NotImplemented ''store value must be an LLVM Value operand''))"

definition address_srcs :: "val \<Rightarrow> i64 \<Rightarrow> val list" where
  "address_srcs base offset = [base] @ (if offset \<noteq> 0 then [ImmV offset] else [])"

definition lower_store :: "llvm_instr \<Rightarrow> isel_cx \<Rightarrow> compile_error + isel_cx" where
  "lower_store instr cx =
     and_then (expect_some (get (get_operands instr) 0) ''store: missing value operand'') (\<lambda>val_op.
     and_then (expect_some (get (get_operands instr) 1) ''store: missing pointer operand'') (\<lambda>ptr_op.
     and_then (store_opcode val_op) (\<lambda>opcode.
     and_then (lower_operand val_op cx) (\<lambda>(data_val, cx).
     and_then (lower_ptr_operand ptr_op cx) (\<lambda>(base_val, offset).
     Inr (push_syl (syl opcode None (address_srcs base_val offset @ [data_val])) cx))))))"

definition load_opcode :: "llvm_type \<Rightarrow> compile_error + opcode" where
  "load_opcode ty =
     (case ty of
        IntType w \<Rightarrow>
          if w = 8 then Inr LoadB else if w = 32 then Inr LoadW else if w = 64 then Inr LoadD
          else Inl (NotImplemented ''unsupported load width'')
      | _ \<Rightarrow> Inl (NotImplemented ''non-integer load''))"

definition lower_load :: "llvm_instr \<Rightarrow> isel_cx \<Rightarrow> compile_error + isel_cx" where
  "lower_load instr cx =
     and_then (expect_some (get (get_operands instr) 0) ''load: missing pointer operand'') (\<lambda>ptr_op.
     and_then (load_opcode (get_type instr)) (\<lambda>opcode.
     and_then (lower_ptr_operand ptr_op cx) (\<lambda>(base_val, offset).
     let dst_id = next_vreg cx
     in Inr (push_syl (syl opcode (Some (VReg dst_id)) (address_srcs base_val offset))
          (cx\<lparr>next_vreg := next_vreg cx + 1, vreg_map := (vreg_map cx)(value_ref instr \<mapsto> dst_id)\<rparr>)))))"

definition gep_index :: "i64 \<Rightarrow> i64 \<Rightarrow> llvm_operand \<Rightarrow> compile_error + i64" where
  "gep_index elem_bytes total_offset idx_op =
     (case idx_op of
        ValueOp v \<Rightarrow>
          (case value_type v of
             IntType _ \<Rightarrow>
               if is_const v
               then Inr (total_offset + (case const_int v of Some n \<Rightarrow> n | None \<Rightarrow> 0) * elem_bytes)
               else Inl (NotImplemented ''non-constant GEP index'')
           | _ \<Rightarrow> Inl (NotImplemented ''non-constant GEP index''))
      | BlockOp _ \<Rightarrow> Inl (NotImplemented ''non-constant GEP index''))"

definition lower_gep :: "llvm_instr \<Rightarrow> isel_cx \<Rightarrow> compile_error + isel_cx" where
  "lower_gep instr cx =
     and_then (expect_some (get (get_operands instr) 0) ''gep: missing base operand'') (\<lambda>base_op.
     and_then (lower_ptr_operand base_op cx) (\<lambda>(base_val, base_offset).
     and_then (int_type_byte_size (gep_source_type instr)) (\<lambda>elem_bytes.
     and_then (try_fold (gep_index elem_bytes) base_offset (tl (get_operands instr))) (\<lambda>total_offset.
     Inr (cx\<lparr>gep_map := (gep_map cx)(value_ref instr \<mapsto> (base_val, total_offset))\<rparr>)))))"

definition lower_instr :: "u64 \<Rightarrow> labels \<Rightarrow> string \<Rightarrow> isel_cx \<Rightarrow> llvm_instr \<Rightarrow> compile_error + isel_cx" where
  "lower_instr msize label_of lbl cx instr =
     (case get_opcode instr of
        PhiI \<Rightarrow> lower_phi label_of lbl instr cx
      | ReturnI \<Rightarrow> lower_return instr cx
      | BrI \<Rightarrow> lower_br label_of instr cx
      | CallI \<Rightarrow> lower_call msize instr cx
      | ICmpI \<Rightarrow> lower_icmp instr cx
      | StoreI \<Rightarrow> lower_store instr cx
      | LoadI \<Rightarrow> lower_load instr cx
      | GetElementPtrI \<Rightarrow> lower_gep instr cx
      | op \<Rightarrow>
          (case binary_opcode op of
             Some vliw_op \<Rightarrow> lower_binary vliw_op instr cx
           | None \<Rightarrow> Inl (NotImplemented ''unsupported instruction in ISel'')))"

section \<open>Blocks and functions\<close>

text \<open>One iteration of the worklist loop on a block that is not yet visited.\<close>

definition enter_block :: "string \<Rightarrow> isel_cx \<Rightarrow> isel_cx" where
  "enter_block lbl cx =
     cx\<lparr>visited := lbl # visited cx, cur_label := lbl, cur_syls := [], cur_term := ReturnT,
        false_succ := None, true_succ := None\<rparr>"

text \<open>The block takes over the vector of syllables, which is gone afterwards.\<close>

definition finish_block :: "string \<Rightarrow> isel_cx \<Rightarrow> isel_cx" where
  "finish_block lbl cx =
     (let cx = cx\<lparr>mir_blocks := mir_blocks cx @
                    [\<lparr>label = cur_label cx, syllables = cur_syls cx, terminator = cur_term cx\<rparr>],
                  cur_syls := [], cur_term := ReturnT\<rparr>;
          cx = (case false_succ cx of
                  None \<Rightarrow> cx
                | Some fl \<Rightarrow>
                    if fl \<in> set (visited cx) then
                      (let latch_label = lbl @ ''__latch__'' @ fl
                       in cx\<lparr>edge_remap := (edge_remap cx)((lbl, fl) \<mapsto> latch_label),
                             mir_blocks := mir_blocks cx @
                               [\<lparr>label = latch_label, syllables = [], terminator = JumpT fl\<rparr>]\<rparr>)
                    else cx\<lparr>worklist := fl # worklist cx\<rparr>)
      in case true_succ cx of
           None \<Rightarrow> cx
         | Some true_l \<Rightarrow>
             if true_l \<in> set (visited cx) then cx else cx\<lparr>worklist := worklist cx @ [true_l]\<rparr>)"

definition lower_block :: "u64 \<Rightarrow> labels \<Rightarrow> string \<Rightarrow> llvm_block \<Rightarrow> isel_cx \<Rightarrow> compile_error + isel_cx" where
  "lower_block msize label_of lbl bb cx =
     and_then (try_fold (lower_instr msize label_of lbl) (enter_block lbl cx) (instructions bb)) (\<lambda>cx.
     Inr (finish_block lbl cx))"

section \<open>Primitive steps\<close>

text \<open>
  Lowering an instruction is a sequence of a few primitive updates.  The relation counts the virtual
  registers handed out; invariants of the lowering are proved once per primitive.  A syllable reads
  only registers that are known: bound to a value, the base of a folded address, or just defined in
  the current block.
\<close>

definition known :: "isel_cx \<Rightarrow> u32 set" where
  "known cx = ran (vreg_map cx) \<union> {n. \<exists>k off. gep_map cx k = Some (RegV (VReg n), off)} \<union>
     {n. \<exists>s \<in> set (cur_syls cx). dst_vreg s = Some n}"

definition fresh_cx :: "isel_cx \<Rightarrow> isel_cx" where
  "fresh_cx cx = cx\<lparr>next_vreg := next_vreg cx + 1\<rparr>"

definition start_continuation :: "string \<Rightarrow> string \<Rightarrow> isel_cx \<Rightarrow> isel_cx" where
  "start_continuation target cont cx =
     cx\<lparr>call_count := call_count cx + 1,
        mir_blocks := mir_blocks cx @
          [\<lparr>label = cur_label cx, syllables = cur_syls cx, terminator = DirectCallT target cont\<rparr>],
        cur_syls := [], cur_label := cont, cur_term := ReturnT\<rparr>"

inductive isel_step :: "nat \<Rightarrow> isel_cx \<Rightarrow> isel_cx \<Rightarrow> bool" where
  emits: "dst_vreg s = None \<Longrightarrow> set (src_vregs s) \<subseteq> known cx \<Longrightarrow> isel_step 0 cx (push_syl s cx)"
| defs: "dst s = Some (VReg (next_vreg cx)) \<Longrightarrow> set (src_vregs s) \<subseteq> known cx \<Longrightarrow>
    isel_step 1 cx (push_syl s (fresh_cx cx))"
| binds: "n \<in> known cx \<Longrightarrow> isel_step 0 cx (cx\<lparr>vreg_map := (vreg_map cx)(k \<mapsto> n)\<rparr>)"
| adds_phi: "phi_dst p = next_vreg cx \<Longrightarrow>
    isel_step 1 cx ((fresh_cx cx)\<lparr>vreg_map := (vreg_map cx)(k \<mapsto> next_vreg cx),
                                 pending_phis := pending_phis cx @ [p]\<rparr>)"
| folds_gep: "(\<And>n. base = RegV (VReg n) \<Longrightarrow> n \<in> known cx) \<Longrightarrow>
    isel_step 0 cx (cx\<lparr>gep_map := (gep_map cx)(k \<mapsto> (base, off))\<rparr>)"
| ends: "(\<And>n l. t = BranchT (VReg n) l \<Longrightarrow> n \<in> known cx) \<Longrightarrow>
    isel_step 0 cx (cx\<lparr>cur_term := t, false_succ := f, true_succ := tr\<rparr>)"
| calls: "cont = cur_label cx @ ''__cont__'' @ show_nat (call_count cx) \<Longrightarrow>
    isel_step 0 cx (start_continuation target cont cx)"

inductive isel_run :: "nat \<Rightarrow> isel_cx \<Rightarrow> isel_cx \<Rightarrow> bool" where
  refl: "isel_run 0 cx cx"
| step: "isel_run m cx cx' \<Longrightarrow> isel_step n cx' cx'' \<Longrightarrow> isel_run (m + n) cx cx''"

lemma isel_run_one: "isel_step n cx cx' \<Longrightarrow> isel_run n cx cx'"
  using isel_run.step[OF isel_run.refl] by fastforce

lemma isel_run_trans: "isel_run n cx' cx'' \<Longrightarrow> isel_run m cx cx' \<Longrightarrow> isel_run (m + n) cx cx''"
proof (induction rule: isel_run.induct)
  case (step n cx cx' k cx'')
  then show ?case using isel_run.step by (metis add.assoc)
qed simp

lemma isel_run_step0: "isel_run m cx cx' \<Longrightarrow> isel_step 0 cx' cx'' \<Longrightarrow> isel_run m cx cx''"
  using isel_run.step[of m cx cx' 0 cx''] by simp

lemma isel_run_trans0: "isel_run 0 cx cx' \<Longrightarrow> isel_run n cx' cx'' \<Longrightarrow> isel_run n cx cx''"
  using isel_run_trans[of n cx' cx'' 0 cx] by simp

lemma isel_run_invariant:
  assumes "isel_run n cx cx'" "P cx" "\<And>n cx cx'. isel_step n cx cx' \<Longrightarrow> P cx \<Longrightarrow> P cx'"
  shows "P cx'"
  using assms by (induction rule: isel_run.induct) auto

lemma push_syl_sel [simp]:
  "vreg_map (push_syl s cx) = vreg_map cx" "next_vreg (push_syl s cx) = next_vreg cx"
  "gep_map (push_syl s cx) = gep_map cx" "pending_phis (push_syl s cx) = pending_phis cx"
  "worklist (push_syl s cx) = worklist cx" "visited (push_syl s cx) = visited cx"
  "mir_blocks (push_syl s cx) = mir_blocks cx" "cur_label (push_syl s cx) = cur_label cx"
  "cur_syls (push_syl s cx) = cur_syls cx @ [s]" "cur_term (push_syl s cx) = cur_term cx"
  "false_succ (push_syl s cx) = false_succ cx" "true_succ (push_syl s cx) = true_succ cx"
  "edge_remap (push_syl s cx) = edge_remap cx" "call_count (push_syl s cx) = call_count cx"
  by (simp_all add: push_syl_def)

lemma fresh_cx_sel [simp]:
  "vreg_map (fresh_cx cx) = vreg_map cx" "next_vreg (fresh_cx cx) = next_vreg cx + 1"
  "gep_map (fresh_cx cx) = gep_map cx" "pending_phis (fresh_cx cx) = pending_phis cx"
  "worklist (fresh_cx cx) = worklist cx" "visited (fresh_cx cx) = visited cx"
  "mir_blocks (fresh_cx cx) = mir_blocks cx" "cur_label (fresh_cx cx) = cur_label cx"
  "cur_syls (fresh_cx cx) = cur_syls cx" "cur_term (fresh_cx cx) = cur_term cx"
  "false_succ (fresh_cx cx) = false_succ cx" "true_succ (fresh_cx cx) = true_succ cx"
  "edge_remap (fresh_cx cx) = edge_remap cx" "call_count (fresh_cx cx) = call_count cx"
  by (simp_all add: fresh_cx_def)

lemma known_vreg: "vreg_map cx k = Some n \<Longrightarrow> n \<in> known cx"
  by (auto simp: known_def ran_def)

lemma known_gep: "gep_map cx k = Some (RegV (VReg n), off) \<Longrightarrow> n \<in> known cx"
  by (auto simp: known_def)

lemma known_push: "known (push_syl s cx) = known cx \<union> {n. dst_vreg s = Some n}"
  by (auto simp: known_def)

lemma known_fresh [simp]: "known (fresh_cx cx) = known cx"
  by (simp add: known_def)

definition known_val :: "isel_cx \<Rightarrow> val \<Rightarrow> bool" where
  "known_val cx v \<longleftrightarrow> (\<forall>n. v = RegV (VReg n) \<longrightarrow> n \<in> known cx)"

lemma src_vregs_known: "(\<forall>v \<in> set (srcs s). known_val cx v) \<Longrightarrow> set (src_vregs s) \<subseteq> known cx"
  by (auto simp: set_src_vregs known_val_def)

lemma dst_vreg_simps [simp]:
  "dst_vreg (syl op None ss) = None" "dst_vreg (syl op (Some (PReg r)) ss) = None"
  "dst_vreg (syl op (Some (VReg n)) ss) = Some n"
  by (simp_all add: dst_vreg_def)

lemma lower_operand_run:
  assumes "lower_operand opr cx = Inr (v, cx')"
  shows "\<exists>n \<le> 1. isel_run n cx cx' \<and> known_val cx' v \<and> known cx \<subseteq> known cx'"
proof (cases opr)
  case (ValueOp x)
  show ?thesis
  proof (cases "is_const x")
    case True
    then obtain imm where cx': "cx' = push_syl (syl MovImm (Some (VReg (next_vreg cx))) [ImmV imm]) (fresh_cx cx)"
        "v = RegV (VReg (next_vreg cx))"
      using assms ValueOp by (auto simp: lower_operand_def Let_def fresh_cx_def split: llvm_type.splits)
    have "isel_step 1 cx cx'" unfolding cx' by (rule defs) (auto simp: src_vregs_def List.map_filter_def)
    then show ?thesis using isel_run_one cx' by (auto simp: known_val_def known_push)
  next
    case False
    then have "cx' = cx" "known_val cx v"
      using assms ValueOp known_vreg
      by (auto simp: lower_operand_def expect_some_def result_simps known_val_def split: llvm_type.splits)
    then show ?thesis using isel_run.refl by blast
  qed
qed (use assms in \<open>simp add: lower_operand_def\<close>)

lemma known_val_mono: "known_val cx v \<Longrightarrow> known cx \<subseteq> known cx' \<Longrightarrow> known_val cx' v"
  by (auto simp: known_val_def)

lemma lower_two_operands_run:
  assumes "lower_two_operands ma mb instr cx = Inr ((lhs, rhs), cx')"
  shows "\<exists>n \<le> 2. isel_run n cx cx' \<and> known_val cx' lhs \<and> known_val cx' rhs"
proof -
  obtain a b cx1 where ab: "lower_operand a cx = Inr (lhs, cx1)" "lower_operand b cx1 = Inr (rhs, cx')"
    using assms by (auto simp: lower_two_operands_def result_simps)
  obtain m n where m: "m \<le> 1" "isel_run m cx cx1" "known_val cx1 lhs"
      and n: "n \<le> 1" "isel_run n cx1 cx'" "known_val cx' rhs" "known cx1 \<subseteq> known cx'"
    using lower_operand_run[OF ab(1)] lower_operand_run[OF ab(2)] by blast
  then have "m + n \<le> 2" "isel_run (m + n) cx cx'" "known_val cx' lhs"
    using isel_run_trans known_val_mono by (simp, blast, blast)
  then show ?thesis using n(3) by blast
qed

lemma lower_ptr_known: "lower_ptr_operand opr cx = Inr (base, off) \<Longrightarrow> known_val cx base"
  by (auto simp: lower_ptr_operand_def known_val_def known_vreg known_gep
      split: llvm_operand.splits if_splits option.splits)

lemma ends_step:
  "(\<And>n l. t = BranchT (VReg n) l \<Longrightarrow> n \<in> known cx) \<Longrightarrow> cx' = cx\<lparr>cur_term := t, false_succ := f, true_succ := tr\<rparr>
     \<Longrightarrow> isel_step 0 cx cx'"
  using ends by simp

lemma emits_run:
  "dst_vreg s = None \<Longrightarrow> (\<forall>v \<in> set (srcs s). known_val cx v) \<Longrightarrow> isel_run 0 cx (push_syl s cx)"
  by (intro isel_run_one emits src_vregs_known)

text \<open>A register is defined by the next syllable and bound to the instruction.\<close>

lemma define_bind_run:
  assumes "dst s = Some (VReg (next_vreg cx))" "\<forall>v \<in> set (srcs s). known_val cx v"
  shows "isel_run 1 cx (push_syl s ((fresh_cx cx)\<lparr>vreg_map := (vreg_map cx)(k \<mapsto> next_vreg cx)\<rparr>))"
proof -
  let ?cx = "push_syl s (fresh_cx cx)"
  have def_step: "isel_step 1 cx ?cx" using assms src_vregs_known by (intro defs) auto
  have "isel_step 0 ?cx (?cx\<lparr>vreg_map := (vreg_map ?cx)(k \<mapsto> next_vreg cx)\<rparr>)"
    using assms(1) by (intro binds) (simp add: known_push dst_vreg_def)
  moreover have "?cx\<lparr>vreg_map := (vreg_map ?cx)(k \<mapsto> next_vreg cx)\<rparr> =
      push_syl s ((fresh_cx cx)\<lparr>vreg_map := (vreg_map cx)(k \<mapsto> next_vreg cx)\<rparr>)"
    by (simp add: push_syl_def fresh_cx_def)
  ultimately show ?thesis using isel_run_step0[OF isel_run_one[OF def_step]] by metis
qed

lemma lower_phi_run: "lower_phi label_of lbl instr cx = Inr cx' \<Longrightarrow> isel_run 1 cx cx'"
proof -
  assume "lower_phi label_of lbl instr cx = Inr cx'"
  then obtain edges where "cx' = (fresh_cx cx)\<lparr>vreg_map := (vreg_map cx)(value_ref instr \<mapsto> next_vreg cx),
      pending_phis := pending_phis cx @ [\<lparr>phi_block_label = lbl, phi_dst = next_vreg cx, phi_edges = edges\<rparr>]\<rparr>"
    by (auto simp: lower_phi_def Let_def result_simps fresh_cx_def)
  then show ?thesis using isel_run_one[OF adds_phi] by simp
qed

lemma lower_return_run:
  assumes "lower_return instr cx = Inr cx'"
  shows "isel_run 0 cx cx'"
proof -
  obtain cx1 where cx1: "isel_run 0 cx cx1" "cx' = cx1\<lparr>cur_term := ReturnT\<rparr>"
  proof -
    obtain cx1 where cx1: "cx' = cx1\<lparr>cur_term := ReturnT\<rparr>" "cx1 = cx \<or> (\<exists>s. cx1 = push_syl s cx \<and>
        dst_vreg s = None \<and> (\<forall>v \<in> set (srcs s). known_val cx v))"
      using assms known_vreg
      by (fastforce simp: lower_return_def result_simps expect_some_def known_val_def
          split: list.splits llvm_operand.splits llvm_type.splits if_splits)
    then show ?thesis using that emits_run isel_run.refl by blast
  qed
  have "isel_step 0 cx1 cx'"
    using cx1(2) by (intro ends_step[where t = ReturnT and f = "false_succ cx1" and tr = "true_succ cx1"]) simp_all
  then show ?thesis by (rule isel_run_step0[OF cx1(1)])
qed

lemma lower_br_run:
  assumes "lower_br label_of instr cx = Inr cx'"
  shows "isel_run 0 cx cx'"
proof (cases "br_condition instr")
  case None
  then obtain l where "cx' = cx\<lparr>cur_term := JumpT l, true_succ := Some l\<rparr>"
    using assms by (auto simp: lower_br_def result_simps)
  then show ?thesis
    by (intro isel_run_one ends_step[where t = "JumpT l" and f = "false_succ cx" and tr = "Some l"]) simp_all
next
  case (Some cond)
  then obtain n l fl where "cx' = cx\<lparr>cur_term := BranchT (VReg n) l, false_succ := Some fl, true_succ := Some l\<rparr>"
      "vreg_map cx (value_key cond) = Some n"
    using assms by (auto simp: lower_br_def result_simps expect_some_def)
  then show ?thesis
    using known_vreg by (intro isel_run_one ends_step[where t = "BranchT (VReg n) l" and f = "Some fl" and tr = "Some l"]) auto
qed

lemma lower_args_run: "try_fold lower_arg cx args = Inr cx' \<Longrightarrow> isel_run 0 cx cx'"
proof (induction args arbitrary: cx)
  case (Cons arg args)
  then obtain cx1 where cx1: "lower_arg cx arg = Inr cx1" "try_fold lower_arg cx1 args = Inr cx'"
    by (auto simp: result_simps)
  then obtain s where "cx1 = push_syl s cx" "dst_vreg s = None" "\<forall>v \<in> set (srcs s). known_val cx v"
    using known_vreg by (fastforce simp: lower_arg_def result_simps expect_some_def known_val_def Let_def
        split: prod.splits option.splits)
  then have "isel_run 0 cx cx1" using emits_run by blast
  then show ?case using isel_run_trans0 Cons.IH[OF cx1(2)] by blast
qed (simp add: isel_run.refl)

lemma split_at_call_run: "isel_run 0 cx (split_at_call msize target cx)"
proof -
  let ?save = "syl StoreD None [ImmV (link_reg_save_addr msize), RegV (PReg LINK_REG)]"
  let ?load = "syl LoadD (Some (PReg LINK_REG)) [ImmV (link_reg_save_addr msize)]"
  let ?cx1 = "push_syl ?save cx"
  let ?cx2 = "start_continuation target (cur_label cx @ ''__cont__'' @ show_nat (call_count cx)) ?cx1"
  have "isel_run 0 cx ?cx1" by (rule emits_run) (simp_all add: known_val_def)
  moreover have "isel_step 0 ?cx1 ?cx2" by (rule calls) simp
  ultimately have "isel_run 0 cx ?cx2" by (rule isel_run_step0)
  moreover have "isel_run 0 ?cx2 (push_syl ?load ?cx2)" by (rule emits_run) (simp_all add: known_val_def)
  ultimately have "isel_run 0 cx (push_syl ?load ?cx2)" by (rule isel_run_trans0)
  moreover have "split_at_call msize target cx = push_syl ?load ?cx2"
    by (simp add: split_at_call_def start_continuation_def Let_def push_syl_def)
  ultimately show ?thesis by simp
qed

lemma lower_call_run:
  assumes "lower_call msize instr cx = Inr cx'"
  shows "\<exists>n \<le> 1. isel_run n cx cx'"
proof -
  obtain cx1 where cx1: "try_fold lower_arg cx (enumerate 0 (arg_operands instr)) = Inr cx1"
    using assms by (auto simp: lower_call_def Let_def result_simps split: if_splits)
  let ?cx2 = "split_at_call msize (callee_name (called_value instr)) cx1"
  have run: "isel_run 0 cx ?cx2"
    by (rule isel_run_trans0[OF lower_args_run[OF cx1] split_at_call_run])
  show ?thesis
  proof (cases "get_type instr = VoidType")
    case True
    then have "cx' = ?cx2" using assms cx1 by (simp add: lower_call_def Let_def split: if_splits)
    then show ?thesis using run by blast
  next
    case False
    let ?mov = "syl Mov (Some (VReg (next_vreg ?cx2))) [RegV (PReg RETVAL_REG)]"
    have "cx' = push_syl ?mov ((fresh_cx ?cx2)\<lparr>vreg_map := (vreg_map ?cx2)(value_ref instr \<mapsto> next_vreg ?cx2)\<rparr>)"
      using assms cx1 False by (simp add: lower_call_def Let_def fresh_cx_def split: if_splits)
    then have "isel_run 1 ?cx2 cx'" using define_bind_run[of ?mov ?cx2] by (simp add: known_val_def)
    then show ?thesis using isel_run_trans0[OF run] by blast
  qed
qed

lemma lower_binary_run:
  assumes "lower_binary op instr cx = Inr cx'"
  shows "\<exists>n \<le> 3. isel_run n cx cx'"
proof -
  obtain lhs rhs cx1 where cx1: "lower_two_operands ''binary op requires LHS'' ''binary op requires RHS'' instr cx = Inr ((lhs, rhs), cx1)"
      "cx' = push_syl (syl op (Some (VReg (next_vreg cx1))) [lhs, rhs])
         ((fresh_cx cx1)\<lparr>vreg_map := (vreg_map cx1)(value_ref instr \<mapsto> next_vreg cx1)\<rparr>)"
    using assms by (auto simp: lower_binary_def result_simps Let_def fresh_cx_def)
  obtain n where n: "n \<le> 2" "isel_run n cx cx1" "known_val cx1 lhs" "known_val cx1 rhs"
    using lower_two_operands_run[OF cx1(1)] by blast
  have "isel_run 1 cx1 cx'" unfolding cx1(2) using n by (intro define_bind_run) auto
  then have "isel_run (n + 1) cx cx'" by (rule isel_run_trans) (rule n(2))
  then show ?thesis using n(1) by (metis add_le_cancel_right numeral_2_eq_2 numeral_3_eq_3 Suc_eq_plus1)
qed

lemma icmp_selection_known:
  "icmp_selection pred lhs rhs = Inr (op, a, b) \<Longrightarrow> {a, b} \<subseteq> {lhs, rhs}"
  by (auto simp: icmp_selection_def split: int_predicate.splits)

lemma lower_icmp_run:
  assumes "lower_icmp instr cx = Inr cx'"
  shows "\<exists>n \<le> 4. isel_run n cx cx'"
proof -
  obtain pred lhs rhs cx1 op a b where cx1: "lower_two_operands ''icmp lhs'' ''icmp rhs'' instr cx = Inr ((lhs, rhs), cx1)"
      "icmp_selection pred lhs rhs = Inr (op, a, b)"
    and cx': "cx' = (let cmp_dst = next_vreg cx1;
         cx = push_syl (syl op (Some (VReg cmp_dst)) [a, b]) (fresh_cx cx1)
     in if pred = NE then
          (let not_dst = next_vreg cx;
               cx = push_syl (syl PNot (Some (VReg not_dst)) [RegV (VReg cmp_dst)]) (fresh_cx cx)
           in cx\<lparr>vreg_map := (vreg_map cx)(value_ref instr \<mapsto> not_dst)\<rparr>)
        else cx\<lparr>vreg_map := (vreg_map cx)(value_ref instr \<mapsto> cmp_dst)\<rparr>)"
    using assms by (auto simp: lower_icmp_def result_simps Let_def fresh_cx_def split: if_splits)
  obtain n where n: "n \<le> 2" "isel_run n cx cx1" "known_val cx1 lhs" "known_val cx1 rhs"
    using lower_two_operands_run[OF cx1(1)] by blast
  let ?cmp = "syl op (Some (VReg (next_vreg cx1))) [a, b]"
  let ?cx2 = "push_syl ?cmp (fresh_cx cx1)"
  have "isel_step 1 cx1 ?cx2"
    using n icmp_selection_known[OF cx1(2)] src_vregs_known[of ?cmp cx1] by (intro defs) auto
  then have run2: "isel_run (n + 1) cx ?cx2" by (rule isel_run.step[OF n(2)])
  have known2: "next_vreg cx1 \<in> known ?cx2" by (simp add: known_push)
  show ?thesis
  proof (cases "pred = NE")
    case False
    then have "isel_step 0 ?cx2 cx'" unfolding cx' Let_def using binds[OF known2] by simp
    then have "isel_run (n + 1) cx cx'" by (rule isel_run_step0[OF run2])
    moreover have "n + 1 \<le> 4" using n(1) by simp
    ultimately show ?thesis by blast
  next
    case True
    let ?not = "syl PNot (Some (VReg (next_vreg ?cx2))) [RegV (VReg (next_vreg cx1))]"
    let ?cx3 = "push_syl ?not (fresh_cx ?cx2)"
    have "isel_step 1 ?cx2 ?cx3"
      using known2 src_vregs_known[of ?not ?cx2] by (intro defs) (auto simp: known_val_def)
    then have run3: "isel_run (n + 1 + 1) cx ?cx3" by (rule isel_run.step[OF run2])
    have "next_vreg ?cx2 \<in> known ?cx3" by (simp add: known_push)
    then have "isel_step 0 ?cx3 cx'" unfolding cx' Let_def using True binds[of "next_vreg ?cx2" ?cx3] by simp
    then have "isel_run (n + 1 + 1) cx cx'" by (rule isel_run_step0[OF run3])
    moreover have "n + 1 + 1 \<le> 4" using n(1) by simp
    ultimately show ?thesis by blast
  qed
qed

lemma lower_store_run:
  assumes "lower_store instr cx = Inr cx'"
  shows "\<exists>n \<le> 1. isel_run n cx cx'"
proof -
  obtain val_op data cx1 base off op ptr_op where st: "lower_operand val_op cx = Inr (data, cx1)"
      "lower_ptr_operand ptr_op cx1 = Inr (base, off)"
      "cx' = push_syl (syl op None (address_srcs base off @ [data])) cx1"
    using assms by (auto simp: lower_store_def result_simps)
  obtain n where n: "n \<le> 1" "isel_run n cx cx1" "known_val cx1 data"
    using lower_operand_run[OF st(1)] by blast
  have "isel_run 0 cx1 cx'" unfolding st(3)
    using n(3) lower_ptr_known[OF st(2)] by (intro emits_run) (auto simp: address_srcs_def known_val_def)
  then show ?thesis using isel_run_trans[OF _ n(2)] n(1) by fastforce
qed

lemma lower_load_run:
  assumes "lower_load instr cx = Inr cx'"
  shows "isel_run 1 cx cx'"
proof -
  obtain base off op ptr_op where ld: "lower_ptr_operand ptr_op cx = Inr (base, off)"
      "cx' = push_syl (syl op (Some (VReg (next_vreg cx))) (address_srcs base off))
         ((fresh_cx cx)\<lparr>vreg_map := (vreg_map cx)(value_ref instr \<mapsto> next_vreg cx)\<rparr>)"
    using assms by (auto simp: lower_load_def result_simps Let_def fresh_cx_def)
  show ?thesis unfolding ld(2)
    using lower_ptr_known[OF ld(1)] by (intro define_bind_run) (auto simp: address_srcs_def known_val_def)
qed

lemma lower_gep_run: "lower_gep instr cx = Inr cx' \<Longrightarrow> isel_run 0 cx cx'"
  by (auto simp: lower_gep_def result_simps known_val_def dest!: lower_ptr_known intro!: isel_run_one folds_gep)

lemma lower_instr_run:
  assumes "lower_instr msize label_of lbl cx instr = Inr cx'"
  shows "\<exists>n \<le> 4. isel_run n cx cx'"
proof -
  have widen: "\<exists>n \<le> 4. isel_run n cx cx'" if "\<exists>n \<le> m. isel_run n cx cx'" "m \<le> 4" for m
    using that le_trans by blast
  have binary: ?thesis if "binary_opcode (get_opcode instr) = Some op" "lower_binary op instr cx = Inr cx'" for op
    using lower_binary_run[OF that(2)] by (rule widen) simp
  show ?thesis
  proof (cases "get_opcode instr")
    case PhiI
    then show ?thesis using assms lower_phi_run widen[of 1] by (fastforce simp: lower_instr_def)
  next
    case ReturnI
    then show ?thesis using assms lower_return_run widen[of 0] by (fastforce simp: lower_instr_def)
  next
    case BrI
    then show ?thesis using assms lower_br_run widen[of 0] by (fastforce simp: lower_instr_def)
  next
    case CallI
    then show ?thesis using assms lower_call_run widen[of 1] by (fastforce simp: lower_instr_def)
  next
    case ICmpI
    then show ?thesis using assms lower_icmp_run by (fastforce simp: lower_instr_def)
  next
    case StoreI
    then show ?thesis using assms lower_store_run widen[of 1] by (fastforce simp: lower_instr_def)
  next
    case LoadI
    then show ?thesis using assms lower_load_run widen[of 1] by (fastforce simp: lower_instr_def)
  next
    case GetElementPtrI
    then show ?thesis using assms lower_gep_run widen[of 0] by (fastforce simp: lower_instr_def)
  qed (use assms binary in \<open>simp_all add: lower_instr_def binary_opcode_def\<close>)
qed

lemma lower_instrs_run:
  "try_fold (lower_instr msize label_of lbl) cx instrs = Inr cx' \<Longrightarrow> \<exists>n \<le> 4 * length instrs. isel_run n cx cx'"
proof (induction instrs arbitrary: cx)
  case (Cons i rest)
  then obtain cx1 where cx1: "lower_instr msize label_of lbl cx i = Inr cx1"
      "try_fold (lower_instr msize label_of lbl) cx1 rest = Inr cx'"
    by (auto simp: result_simps)
  obtain m n where "m \<le> 4" "isel_run m cx cx1" "n \<le> 4 * length rest" "isel_run n cx1 cx'"
    using lower_instr_run[OF cx1(1)] Cons.IH[OF cx1(2)] by blast
  then have "isel_run (m + n) cx cx'" "m + n \<le> 4 * length (i # rest)" using isel_run_trans by auto
  then show ?case by blast
qed (auto intro: isel_run.refl)

section \<open>The worklist\<close>

lemma isel_step_lists: "isel_step n cx cx' \<Longrightarrow> worklist cx' = worklist cx \<and> visited cx' = visited cx"
  by (induction rule: isel_step.induct) (simp_all add: start_continuation_def)

lemma isel_run_lists: "isel_run n cx cx' \<Longrightarrow> worklist cx' = worklist cx \<and> visited cx' = visited cx"
  by (induction rule: isel_run.induct) (auto dest: isel_step_lists)

lemma finish_block_visited: "visited (finish_block lbl cx) = visited cx"
  by (simp add: finish_block_def Let_def split: option.splits)

lemma lower_block_visited:
  assumes "lower_block msize label_of lbl bb cx = Inr cx'"
  shows "visited cx' = lbl # visited cx"
proof -
  obtain cx1 where cx1: "try_fold (lower_instr msize label_of lbl) (enter_block lbl cx) (instructions bb) = Inr cx1"
      "cx' = finish_block lbl cx1"
    using assms by (auto simp: lower_block_def result_simps)
  then show ?thesis
    using lower_instrs_run[OF cx1(1)] isel_run_lists by (fastforce simp: finish_block_visited enter_block_def)
qed

definition unvisited :: "(string \<times> llvm_block) list \<Rightarrow> isel_cx \<Rightarrow> nat" where
  "unvisited bb_of cx = card (fst ` set bb_of - set (visited cx))"

lemma unvisited_decreases:
  assumes "map_of bb_of l = Some bb" "l \<notin> set (visited cx)" "visited cx' = l # visited cx"
  shows "unvisited bb_of cx' < unvisited bb_of cx"
proof -
  have "l \<in> fst ` set bb_of - set (visited cx)" using assms map_of_SomeD by force
  then show ?thesis using assms(3) unfolding unvisited_def by (intro psubset_card_mono) auto
qed

function lower_worklist ::
  "u64 \<Rightarrow> labels \<Rightarrow> (string \<times> llvm_block) list \<Rightarrow> isel_cx \<Rightarrow> compile_error + isel_cx" where
  "lower_worklist msize label_of bb_of cx =
     (case worklist cx of
        [] \<Rightarrow> Inr cx
      | l # wl \<Rightarrow>
          if l \<in> set (visited cx) then lower_worklist msize label_of bb_of (cx\<lparr>worklist := wl\<rparr>)
          else
            and_then (expect_some (map_of bb_of l) ''label not in bb_of'') (\<lambda>bb.
            and_then (lower_block msize label_of l bb (cx\<lparr>worklist := wl\<rparr>)) (\<lambda>cx.
            lower_worklist msize label_of bb_of cx)))"
  by auto
termination
proof (relation "measures [\<lambda>(_, _, bb_of, cx). unvisited bb_of cx, \<lambda>(_, _, _, cx). length (worklist cx)]")
  fix msize label_of bb_of cx l wl bb cx'
  assume l: "l \<notin> set (visited cx)" "expect_some (map_of bb_of l) ''label not in bb_of'' = Inr bb"
    and block: "lower_block msize label_of l bb (cx\<lparr>worklist := wl\<rparr>) = Inr cx'"
  have "map_of bb_of l = Some bb" using l(2) by (simp add: expect_some_def result_simps)
  then have "unvisited bb_of cx' < unvisited bb_of cx"
    using l(1) lower_block_visited[OF block] by (intro unvisited_decreases) simp_all
  then show "((msize, label_of, bb_of, cx'), msize, label_of, bb_of, cx)
      \<in> measures [\<lambda>(_, _, bb_of, cx). unvisited bb_of cx, \<lambda>(_, _, _, cx). length (worklist cx)]"
    by simp
qed (auto simp: unvisited_def)

declare lower_worklist.simps [simp del]

lemma lower_worklist_invariant:
  assumes "lower_worklist msize label_of bb_of cx = Inr cx'" "P cx"
    and skip: "\<And>cx l wl. P cx \<Longrightarrow> worklist cx = l # wl \<Longrightarrow> l \<in> set (visited cx) \<Longrightarrow> P (cx\<lparr>worklist := wl\<rparr>)"
    and block: "\<And>cx l wl bb cx'. P cx \<Longrightarrow> worklist cx = l # wl \<Longrightarrow> l \<notin> set (visited cx) \<Longrightarrow>
      map_of bb_of l = Some bb \<Longrightarrow> lower_block msize label_of l bb (cx\<lparr>worklist := wl\<rparr>) = Inr cx' \<Longrightarrow> P cx'"
  shows "P cx' \<and> worklist cx' = []"
  using assms(1,2) block
proof (induction msize label_of bb_of cx rule: lower_worklist.induct)
  case (1 msize label_of bb_of cx)
  note unfold = "1.prems"(1)[unfolded lower_worklist.simps[of _ _ _ cx]]
  show ?case
  proof (cases "worklist cx")
    case Nil
    then show ?thesis using unfold "1.prems"(2) by simp
  next
    case (Cons l wl)
    show ?thesis
    proof (cases "l \<in> set (visited cx)")
      case True
      then show ?thesis
        using unfold "1.IH"(1)[OF Cons True _ skip[OF "1.prems"(2) Cons True] "1.prems"(3)] Cons by simp
    next
      case False
      then obtain bb cx1 where bb: "map_of bb_of l = Some bb"
          "lower_block msize label_of l bb (cx\<lparr>worklist := wl\<rparr>) = Inr cx1"
          "lower_worklist msize label_of bb_of cx1 = Inr cx'"
        using unfold Cons by (auto simp: result_simps expect_some_def)
      have e: "expect_some (map_of bb_of l) ''label not in bb_of'' = Inr bb" using bb(1) by (simp add: expect_some_def)
      show ?thesis
        by (rule "1.IH"(2)[OF Cons False e bb(2,3) "1.prems"(3)[OF "1.prems"(2) Cons False bb(1,2)] "1.prems"(3)])
    qed
  qed
qed

section \<open>Functions\<close>

definition block_label :: "nat \<Rightarrow> llvm_block \<Rightarrow> string" where
  "block_label idx bb = (if block_name bb = [] then ''bb'' @ show_nat idx else block_name bb)"

text \<open>The maps \<open>label_of\<close> and \<open>bb_of\<close>: a later insertion replaces an earlier one with the same key.\<close>

definition make_label_of :: "llvm_block list \<Rightarrow> labels" where
  "make_label_of bbs = map_of (rev (map (\<lambda>(idx, bb). (block_key bb, block_label idx bb)) (enumerate 0 bbs)))"

definition make_bb_of :: "llvm_block list \<Rightarrow> (string \<times> llvm_block) list" where
  "make_bb_of bbs = rev (map (\<lambda>(idx, bb). (block_label idx bb, bb)) (enumerate 0 bbs))"

definition add_param :: "isel_cx \<Rightarrow> llvm_value \<Rightarrow> compile_error + isel_cx" where
  "add_param cx v =
     and_then (bve_key v) (\<lambda>k.
     Inr (cx\<lparr>vreg_map := (vreg_map cx)(k \<mapsto> next_vreg cx), next_vreg := next_vreg cx + 1\<rparr>))"

definition isel_cx_new :: isel_cx where
  "isel_cx_new =
     \<lparr>vreg_map = Map.empty, next_vreg = 0, gep_map = Map.empty, pending_phis = [], edge_remap = Map.empty,
      call_count = 0, worklist = [], visited = [], mir_blocks = [], cur_label = [], cur_syls = [],
      cur_term = ReturnT, false_succ = None, true_succ = None\<rparr>"

fun add_copy :: "string \<Rightarrow> phi_copy \<Rightarrow> (string \<times> phi_copy list) list \<Rightarrow> (string \<times> phi_copy list) list" where
  "add_copy l c [] = [(l, [c])]"
| "add_copy l c ((l', cs) # entries) =
     (if l = l' then (l', cs @ [c]) # entries else (l', cs) # add_copy l c entries)"

definition phi_edge_copy ::
  "isel_cx \<Rightarrow> pending_phi \<Rightarrow> (string \<times> phi_copy list) list \<Rightarrow> string \<times> raw_phi_val
     \<Rightarrow> compile_error + (string \<times> phi_copy list) list" where
  "phi_edge_copy cx phi entries edge =
     (case edge of (pred_label, raw_val) \<Rightarrow>
        let actual_pred = (case edge_remap cx (pred_label, phi_block_label phi) of
                             Some latch \<Rightarrow> latch | None \<Rightarrow> pred_label)
        in and_then
             (case raw_val of
                ConstPhi imm \<Rightarrow> Inr (Const imm)
              | LlvmRef k \<Rightarrow>
                  and_then (expect_some (vreg_map cx k) ''phi incoming value not found in vreg_map after ISel'')
                    (\<lambda>n. Inr (VRegSrc n)))
             (\<lambda>src. Inr (add_copy actual_pred \<lparr>copy_dst = phi_dst phi, copy_src = src\<rparr> entries)))"

definition collect_copies :: "isel_cx \<Rightarrow> compile_error + (string \<times> phi_copy list) list" where
  "collect_copies cx =
     try_fold (\<lambda>entries phi. try_fold (phi_edge_copy cx phi) entries (phi_edges phi)) [] (pending_phis cx)"

text \<open>
  \<open>entry_order\<close> is the order in which \<open>lower_phi_copies\<close> iterates the \<open>HashMap\<close> of copies, which Rust
  leaves open.
\<close>

type_synonym entry_order = "(string \<times> phi_copy list) list \<Rightarrow> (string \<times> phi_copy list) list"

definition select_blocks :: "u64 \<Rightarrow> llvm_function \<Rightarrow> compile_error + isel_cx" where
  "select_blocks msize f =
     (let bbs = basic_blocks f; label_of = make_label_of bbs
      in and_then (expect_some (first bbs) ''index out of bounds'') (\<lambda>entry.
         and_then (label_at label_of (Some (block_key entry))) (\<lambda>entry_label.
         and_then (try_fold add_param isel_cx_new (params f)) (\<lambda>cx.
         lower_worklist msize label_of (make_bb_of bbs) (cx\<lparr>worklist := [entry_label]\<rparr>)))))"

definition lower_function :: "entry_order \<Rightarrow> llvm_function \<Rightarrow> u64 \<Rightarrow> compile_error + mir_function" where
  "lower_function entry_iter f msize =
     and_then (select_blocks msize f) (\<lambda>cx.
     and_then (collect_copies cx) (\<lambda>copies_per_block.
     and_then (lower_phi_copies (mir_blocks cx) (entry_iter copies_per_block) (next_vreg cx)) (\<lambda>(bs, _).
     Inr \<lparr>fname = llvm_name f, blocks = bs\<rparr>)))"

definition lower_all_functions :: "entry_order \<Rightarrow> llvm_module \<Rightarrow> u64 \<Rightarrow> compile_error + mir_function list" where
  "lower_all_functions entry_iter m msize =
     try_map (\<lambda>f. lower_function entry_iter f msize)
       (filter (\<lambda>f. 0 < length (basic_blocks f)) (module_functions m))"

definition lower_module :: "entry_order \<Rightarrow> llvm_module \<Rightarrow> u64 \<Rightarrow> compile_error + mir_function" where
  "lower_module entry_iter m msize =
     and_then (lower_all_functions entry_iter m msize) (\<lambda>fns.
     ok_or (first fns) (NotImplemented ''no function body to lower''))"

section \<open>An example\<close>

text \<open>A loop that counts to ten: a phi, an addition, a comparison and a conditional back edge.\<close>

definition jump_to :: "nat \<Rightarrow> nat \<Rightarrow> llvm_instr" where
  "jump_to k target = (plain_instr k BrI VoidType [])\<lparr>br_successors := [target]\<rparr>"

definition count_loop :: llvm_function where
  "count_loop =
     \<lparr>llvm_name = ''count'', params = [], return_type = IntType 64,
      basic_blocks =
        [\<lparr>block_key = 10, block_name = ''entry'', instructions = [jump_to 1 11]\<rparr>,
         \<lparr>block_key = 11, block_name = ''header'',
          instructions =
            [(plain_instr 2 PhiI (IntType 64) [])\<lparr>phi_incoming := [(int_constant 0 64 0, 10), (int_value 3 64, 11)]\<rparr>,
             plain_instr 3 AddI (IntType 64) [ValueOp (int_value 2 64), ValueOp (int_constant 0 64 1)],
             (plain_instr 4 ICmpI (IntType 1) [ValueOp (int_value 3 64), ValueOp (int_constant 0 64 10)])
               \<lparr>icmp_predicate := Some SGT\<rparr>,
             (plain_instr 5 BrI VoidType [])\<lparr>br_condition := Some (int_value 4 1), br_successors := [12, 11]\<rparr>]\<rparr>,
         \<lparr>block_key = 12, block_name = ''exit'',
          instructions = [plain_instr 6 ReturnI VoidType [ValueOp (int_value 3 64)]]\<rparr>]\<rparr>"

lemma count_loop_selected: "\<exists>cx. select_blocks 0x10000 count_loop = Inr cx"
proof -
  have "case select_blocks 0x10000 count_loop of Inl _ \<Rightarrow> False | Inr _ \<Rightarrow> True" by code_simp
  then show ?thesis by (auto split: sum.splits)
qed

lemma count_loop_size:
  "params count_loop = []" "sum_list (map (length \<circ> instructions) (basic_blocks count_loop)) = 6"
  by (simp_all add: count_loop_def)

end
