(* ===== verification/Liveness.thy ===== *)
theory Liveness
  imports Mir
begin

text \<open>
  Component \<open>vliw-backend/src/liveness.rs\<close>: the bit-set \<open>LiveSet\<close>, the per-block use/def summary and
  the backward dataflow iteration \<open>Liveness::compute\<close>.  The lemmas show that the iteration ends,
  that its result solves the dataflow equations, and that a register is live in a block exactly
  when some path of the control-flow graph reaches a use of it before a definition.
\<close>

unbundle bit_operations_syntax

section \<open>Bit sets\<close>

text \<open>
  \<open>insert\<close> follows the release build: \<open>1u64 << idx\<close> masks the shift distance to six bits (the debug
  build stops at the \<open>debug_assert\<close> instead).  \<open>contains\<close> is false beyond 63.
\<close>

type_synonym live_set = "64 word"

definition ls_empty :: live_set where
  "ls_empty = 0"

definition ls_insert :: "u32 \<Rightarrow> live_set \<Rightarrow> live_set" where
  "ls_insert idx s = s OR push_bit (unat idx mod 64) 1"

definition ls_contains :: "live_set \<Rightarrow> u32 \<Rightarrow> bool" where
  "ls_contains s idx \<longleftrightarrow> unat idx < 64 \<and> drop_bit (unat idx) s AND 1 = 1"

definition ls_union :: "live_set \<Rightarrow> live_set \<Rightarrow> live_set" where
  "ls_union a b = a OR b"

definition ls_difference :: "live_set \<Rightarrow> live_set \<Rightarrow> live_set" where
  "ls_difference a b = a AND NOT b"

lemma ls_contains_iff: "ls_contains s idx \<longleftrightarrow> unat idx < 64 \<and> bit s (unat idx)"
  by (simp add: ls_contains_def and_one_eq bit_iff_odd_drop_bit odd_iff_mod_2_eq_one)

lemma ls_contains_empty [simp]: "\<not> ls_contains ls_empty idx"
  by (simp add: ls_contains_iff ls_empty_def)

lemma ls_contains_insert:
  "unat i < 64 \<Longrightarrow> ls_contains (ls_insert i s) idx \<longleftrightarrow> idx = i \<or> ls_contains s idx"
  by (auto simp: ls_contains_iff ls_insert_def bit_or_iff bit_exp_iff word_unat_eq_iff)

lemma ls_contains_union [simp]:
  "ls_contains (ls_union a b) idx \<longleftrightarrow> ls_contains a idx \<or> ls_contains b idx"
  by (auto simp: ls_contains_iff ls_union_def bit_or_iff)

lemma ls_contains_difference [simp]:
  "ls_contains (ls_difference a b) idx \<longleftrightarrow> ls_contains a idx \<and> \<not> ls_contains b idx"
  by (auto simp: ls_contains_iff ls_difference_def bit_and_iff bit_not_iff)

lemma ls_contains_bound: "ls_contains s idx \<Longrightarrow> unat idx < 64"
  by (simp add: ls_contains_iff)

lemma ls_eqI:
  assumes "\<And>idx. ls_contains a idx \<longleftrightarrow> ls_contains b idx"
  shows "a = b"
proof (rule bit_word_eqI)
  fix n :: nat assume "n < LENGTH(64)"
  then have "unat (of_nat n :: u32) = n" by (simp add: unat_of_nat)
  then show "bit a n \<longleftrightarrow> bit b n"
    using assms[of "of_nat n"] \<open>n < LENGTH(64)\<close> by (simp add: ls_contains_iff)
qed


text \<open>The set interface the dataflow analysis relies on, and its client lemmas.\<close>

locale live_sets =
  fixes empty :: 's
    and union :: "'s \<Rightarrow> 's \<Rightarrow> 's"
    and difference :: "'s \<Rightarrow> 's \<Rightarrow> 's"
    and contains :: "'s \<Rightarrow> u32 \<Rightarrow> bool"
  assumes contains_empty: "\<not> contains empty v"
    and contains_union: "contains (union a b) v \<longleftrightarrow> contains a v \<or> contains b v"
    and contains_difference: "contains (difference a b) v \<longleftrightarrow> contains a v \<and> \<not> contains b v"
    and contains_ext: "(\<And>v. contains a v \<longleftrightarrow> contains b v) \<Longrightarrow> a = b"
    and contains_finite: "finite {v. contains a v}"
begin

lemma contains_unions:
  "contains (foldl (\<lambda>acc x. union acc (f x)) a xs) v \<longleftrightarrow> contains a v \<or> (\<exists>x \<in> set xs. contains (f x) v)"
  by (induction xs arbitrary: a) (auto simp: contains_union)

lemma contains_transfer:
  "contains (union gen (difference out kill)) v \<longleftrightarrow> contains gen v \<or> contains out v \<and> \<not> contains kill v"
  by (simp add: contains_union contains_difference)

lemma grow_card:
  assumes "\<And>v. contains a v \<Longrightarrow> contains b v"
  shows "card {v. contains a v} \<le> card {v. contains b v}"
  using assms contains_finite by (auto intro!: card_mono)

lemma grow_card_strict:
  assumes "\<And>v. contains a v \<Longrightarrow> contains b v" and "a \<noteq> b"
  shows "card {v. contains a v} < card {v. contains b v}"
proof -
  obtain v where "contains b v" "\<not> contains a v"
    using assms contains_ext by metis
  then have "{v. contains a v} \<subset> {v. contains b v}" using assms(1) by auto
  then show ?thesis using contains_finite by (simp add: psubset_card_mono)
qed

end

interpretation ls: live_sets ls_empty ls_union ls_difference ls_contains
  by unfold_locales (auto intro: ls_eqI)


section \<open>The analysis\<close>

record block_info =
  use_before_def :: live_set
  def_set :: live_set
  live_in :: live_set
  live_out :: live_set

definition default_info :: block_info where
  "default_info =
     \<lparr>use_before_def = ls_empty, def_set = ls_empty, live_in = ls_empty, live_out = ls_empty\<rparr>"

definition scan_use :: "u32 \<Rightarrow> block_info \<Rightarrow> block_info" where
  "scan_use idx info =
     (if \<not> ls_contains (def_set info) idx
      then info\<lparr>use_before_def := ls_insert idx (use_before_def info)\<rparr> else info)"

definition scan_src :: "block_info \<Rightarrow> val \<Rightarrow> block_info" where
  "scan_src info v = (case v of RegV (VReg idx) \<Rightarrow> scan_use idx info | _ \<Rightarrow> info)"

definition scan_syllable :: "block_info \<Rightarrow> mir_syllable \<Rightarrow> block_info" where
  "scan_syllable info s =
     (let info = foldl scan_src info (srcs s)
      in case dst s of
           Some (VReg idx) \<Rightarrow> info\<lparr>def_set := ls_insert idx (def_set info)\<rparr>
         | _ \<Rightarrow> info)"

definition scan_block :: "block \<Rightarrow> block_info" where
  "scan_block b =
     (let info = foldl scan_syllable default_info (syllables b)
      in case terminator b of
           BranchT (VReg idx) _ \<Rightarrow> scan_use idx info
         | _ \<Rightarrow> info)"

definition label_to_idx :: "mir_function \<Rightarrow> string \<rightharpoonup> nat" where
  "label_to_idx f = map_of (rev (map (\<lambda>(i, b). (label b, i)) (enumerate 0 (blocks f))))"

definition block_succs :: "mir_function \<Rightarrow> nat \<Rightarrow> block \<Rightarrow> nat list" where
  "block_succs f i b =
     (case terminator b of
        BranchT _ l \<Rightarrow>
          (let succs = (case label_to_idx f l of Some j \<Rightarrow> [j] | None \<Rightarrow> []);
               fall = i + 1
           in if fall < length (blocks f) \<and> fall \<notin> set succs then succs @ [fall] else succs)
      | JumpT l \<Rightarrow> (case label_to_idx f l of Some j \<Rightarrow> [j] | None \<Rightarrow> [])
      | ReturnT \<Rightarrow> []
      | DirectCallT _ cont \<Rightarrow> (case label_to_idx f cont of Some j \<Rightarrow> [j] | None \<Rightarrow> []))"

definition successors :: "mir_function \<Rightarrow> nat list list" where
  "successors f = map (\<lambda>(i, b). block_succs f i b) (enumerate 0 (blocks f))"

definition live_step :: "nat list list \<Rightarrow> bool \<times> block_info list \<Rightarrow> nat \<Rightarrow> bool \<times> block_info list" where
  "live_step succs st i =
     (let (changed, infos) = st;
          new_live_out = foldl (\<lambda>acc s. ls_union acc (live_in (infos ! s))) ls_empty (succs ! i);
          new_live_in =
            ls_union (use_before_def (infos ! i)) (ls_difference new_live_out (def_set (infos ! i)))
      in if new_live_out \<noteq> live_out (infos ! i) \<or> new_live_in \<noteq> live_in (infos ! i)
         then (True, infos[i := (infos ! i)\<lparr>live_out := new_live_out, live_in := new_live_in\<rparr>])
         else (changed, infos))"

definition live_sweep :: "nat list list \<Rightarrow> block_info list \<Rightarrow> bool \<times> block_info list" where
  "live_sweep succs infos = foldl (live_step succs) (False, infos) (rev [0..<length infos])"

partial_function (option) live_loop :: "nat list list \<Rightarrow> block_info list \<Rightarrow> block_info list option" where
  "live_loop succs infos =
     (let (changed, infos') = live_sweep succs infos
      in if changed then live_loop succs infos' else Some infos')"

declare live_loop.simps [code]

definition compute :: "mir_function \<Rightarrow> block_info list option" where
  "compute f = live_loop (successors f) (map scan_block (blocks f))"


section \<open>Specification: liveness by paths\<close>

text \<open>
  The control flow of a function, read off its terminators: a label stands for the block that
  carries it (the last one, should labels repeat), a jump and a call continue at their label, and a
  conditional branch goes to its label or on to the next block.
\<close>

definition labelled :: "mir_function \<Rightarrow> string \<Rightarrow> nat \<Rightarrow> bool" where
  "labelled f l j \<longleftrightarrow> j < length (blocks f) \<and> label (blocks f ! j) = l \<and>
     (\<forall>k < length (blocks f). label (blocks f ! k) = l \<longrightarrow> k \<le> j)"

inductive flows_to :: "mir_function \<Rightarrow> nat \<Rightarrow> nat \<Rightarrow> bool" for f i where
  flow_jump: "terminator (blocks f ! i) = JumpT l \<Longrightarrow> labelled f l j \<Longrightarrow> flows_to f i j"
| flow_call: "terminator (blocks f ! i) = DirectCallT callee l \<Longrightarrow> labelled f l j \<Longrightarrow> flows_to f i j"
| flow_taken: "terminator (blocks f ! i) = BranchT cond l \<Longrightarrow> labelled f l j \<Longrightarrow> flows_to f i j"
| flow_fall: "terminator (blocks f ! i) = BranchT cond l \<Longrightarrow> Suc i < length (blocks f) \<Longrightarrow> flows_to f i (Suc i)"

inductive_simps flows_to_iff: "flows_to f i j"

definition kills :: "block \<Rightarrow> u32 \<Rightarrow> bool" where
  "kills b v \<longleftrightarrow> (\<exists>s \<in> set (syllables b). dst_vreg s = Some v)"

primrec reads_before_write :: "mir_syllable list \<Rightarrow> u32 \<Rightarrow> bool" where
  "reads_before_write [] v \<longleftrightarrow> False"
| "reads_before_write (s # ss) v \<longleftrightarrow>
     v \<in> set (src_vregs s) \<or> dst_vreg s \<noteq> Some v \<and> reads_before_write ss v"

definition upward_exposed :: "block \<Rightarrow> u32 \<Rightarrow> bool" where
  "upward_exposed b v \<longleftrightarrow>
     reads_before_write (syllables b) v \<or> term_vreg (terminator b) = Some v \<and> \<not> kills b v"

inductive live_at_entry :: "mir_function \<Rightarrow> u32 \<Rightarrow> nat \<Rightarrow> bool" for f v where
  live_use: "i < length (blocks f) \<Longrightarrow> upward_exposed (blocks f ! i) v \<Longrightarrow> live_at_entry f v i"
| live_through: "i < length (blocks f) \<Longrightarrow> \<not> kills (blocks f ! i) v \<Longrightarrow>
     flows_to f i j \<Longrightarrow> live_at_entry f v j \<Longrightarrow> live_at_entry f v i"

definition vregs_below_64 :: "mir_function \<Rightarrow> bool" where
  "vregs_below_64 f \<longleftrightarrow>
     (\<forall>b \<in> set (blocks f).
        (\<forall>s \<in> set (syllables b). (\<forall>v \<in> set (src_vregs s). unat v < 64) \<and>
           (\<forall>v. dst_vreg s = Some v \<longrightarrow> unat v < 64)) \<and>
        (\<forall>v. term_vreg (terminator b) = Some v \<longrightarrow> unat v < 64))"


section \<open>The block summaries\<close>

lemma scan_srcs_eq: "foldl scan_src info (srcs s) = foldl (\<lambda>info v. scan_use v info) info (src_vregs s)"
proof -
  have "foldl scan_src info vs =
      foldl (\<lambda>info v. scan_use v info) info
        (List.map_filter (\<lambda>v. case v of RegV (VReg n) \<Rightarrow> Some n | _ \<Rightarrow> None) vs)" for vs
    by (induction vs arbitrary: info)
      (simp_all add: scan_src_def List.map_filter_simps split: val.split reg.split)
  then show ?thesis by (simp add: src_vregs_def)
qed

lemma scan_uses:
  assumes "\<forall>v \<in> set vs. unat v < 64"
  shows "def_set (foldl (\<lambda>info v. scan_use v info) info vs) = def_set info \<and>
    (ls_contains (use_before_def (foldl (\<lambda>info v. scan_use v info) info vs)) w \<longleftrightarrow>
       ls_contains (use_before_def info) w \<or> w \<in> set vs \<and> \<not> ls_contains (def_set info) w)"
  using assms by (induction vs arbitrary: info) (auto simp: scan_use_def ls_contains_insert)

lemma scan_syllable_def_set:
  assumes "\<forall>v \<in> set (src_vregs s). unat v < 64" and "\<forall>v. dst_vreg s = Some v \<longrightarrow> unat v < 64"
  shows "ls_contains (def_set (scan_syllable info s)) w \<longleftrightarrow>
     ls_contains (def_set info) w \<or> dst_vreg s = Some w"
  using assms scan_uses[of "src_vregs s" info w]
  by (auto simp: scan_syllable_def scan_srcs_eq dst_vreg_def Let_def ls_contains_insert
      split: option.splits reg.splits)

lemma scan_syllable_use:
  assumes "\<forall>v \<in> set (src_vregs s). unat v < 64"
  shows "ls_contains (use_before_def (scan_syllable info s)) w \<longleftrightarrow>
     ls_contains (use_before_def info) w \<or> w \<in> set (src_vregs s) \<and> \<not> ls_contains (def_set info) w"
  using scan_uses[OF assms, of info w]
  by (auto simp: scan_syllable_def scan_srcs_eq Let_def split: option.splits reg.splits)

lemma scan_syllable_live:
  "live_in (scan_syllable info s) = live_in info \<and> live_out (scan_syllable info s) = live_out info"
proof -
  have "live_in (foldl scan_src i vs) = live_in i \<and> live_out (foldl scan_src i vs) = live_out i" for i vs
    by (induction vs arbitrary: i) (simp_all add: scan_src_def scan_use_def split: val.split reg.split)
  then show ?thesis by (simp add: scan_syllable_def Let_def split: option.split reg.split)
qed

lemma reads_before_write_snoc:
  "reads_before_write (ss @ [s]) v \<longleftrightarrow>
     reads_before_write ss v \<or> v \<in> set (src_vregs s) \<and> (\<forall>t \<in> set ss. dst_vreg t \<noteq> Some v)"
  by (induction ss) auto

lemma scan_syllables:
  assumes "\<forall>s \<in> set ss. (\<forall>v \<in> set (src_vregs s). unat v < 64) \<and> (\<forall>v. dst_vreg s = Some v \<longrightarrow> unat v < 64)"
  shows "(ls_contains (def_set (foldl scan_syllable default_info ss)) w \<longleftrightarrow> (\<exists>s \<in> set ss. dst_vreg s = Some w)) \<and>
    (ls_contains (use_before_def (foldl scan_syllable default_info ss)) w \<longleftrightarrow> reads_before_write ss w)"
  using assms
proof (induction ss rule: rev_induct)
  case Nil
  show ?case by (simp add: default_info_def)
next
  case (snoc s ss)
  then show ?case
    by (auto simp: scan_syllable_def_set scan_syllable_use reads_before_write_snoc)
qed

lemma scan_syllables_live:
  "live_in (foldl scan_syllable info ss) = live_in info \<and> live_out (foldl scan_syllable info ss) = live_out info"
  by (induction ss arbitrary: info) (simp_all add: scan_syllable_live)

lemma scan_block_live: "live_in (scan_block b) = ls_empty \<and> live_out (scan_block b) = ls_empty"
  using scan_syllables_live[of default_info "syllables b"]
  by (simp add: scan_block_def scan_use_def default_info_def Let_def split: terminator.split reg.split)

lemma scan_block_summary:
  assumes "vregs_below_64 f" and "b \<in> set (blocks f)"
  shows "(ls_contains (def_set (scan_block b)) w \<longleftrightarrow> kills b w) \<and>
    (ls_contains (use_before_def (scan_block b)) w \<longleftrightarrow> upward_exposed b w)"
proof -
  let ?I = "foldl scan_syllable default_info (syllables b)"
  have small: "\<forall>s \<in> set (syllables b). (\<forall>v \<in> set (src_vregs s). unat v < 64) \<and>
      (\<forall>v. dst_vreg s = Some v \<longrightarrow> unat v < 64)"
    and tm: "\<forall>v. term_vreg (terminator b) = Some v \<longrightarrow> unat v < 64"
    using assms by (auto simp: vregs_below_64_def)
  have "ls_contains (def_set ?I) w \<longleftrightarrow> kills b w" "ls_contains (use_before_def ?I) w \<longleftrightarrow> reads_before_write (syllables b) w"
    "\<And>v. ls_contains (def_set ?I) v \<longleftrightarrow> kills b v"
    using scan_syllables[OF small] by (auto simp: kills_def)
  then show ?thesis
    using tm by (auto simp: scan_block_def scan_use_def upward_exposed_def term_vreg_def
        ls_contains_insert Let_def split: terminator.splits reg.splits)
qed


section \<open>The iteration\<close>

definition flow_out :: "nat list list \<Rightarrow> block_info list \<Rightarrow> nat \<Rightarrow> u32 \<Rightarrow> bool" where
  "flow_out succs infos i v \<longleftrightarrow> (\<exists>j \<in> set (succs ! i). ls_contains (live_in (infos ! j)) v)"

definition flow_in :: "block_info \<Rightarrow> (u32 \<Rightarrow> bool) \<Rightarrow> u32 \<Rightarrow> bool" where
  "flow_in info out v \<longleftrightarrow> ls_contains (use_before_def info) v \<or> out v \<and> \<not> ls_contains (def_set info) v"

definition stable :: "nat list list \<Rightarrow> block_info list \<Rightarrow> nat \<Rightarrow> bool" where
  "stable succs infos i \<longleftrightarrow>
     (\<forall>v. ls_contains (live_out (infos ! i)) v \<longleftrightarrow> flow_out succs infos i v) \<and>
     (\<forall>v. ls_contains (live_in (infos ! i)) v \<longleftrightarrow> flow_in (infos ! i) (flow_out succs infos i) v)"

text \<open>The sets only grow: what is recorded is still derivable.\<close>

definition ascending :: "nat list list \<Rightarrow> block_info list \<Rightarrow> bool" where
  "ascending succs infos \<longleftrightarrow>
     (\<forall>i < length infos.
        (\<forall>v. ls_contains (live_out (infos ! i)) v \<longrightarrow> flow_out succs infos i v) \<and>
        (\<forall>v. ls_contains (live_in (infos ! i)) v \<longrightarrow> flow_in (infos ! i) (flow_out succs infos i) v))"

definition grown :: "block_info list \<Rightarrow> block_info list \<Rightarrow> bool" where
  "grown infos infos' \<longleftrightarrow>
     length infos' = length infos \<and>
     (\<forall>i < length infos.
        use_before_def (infos' ! i) = use_before_def (infos ! i) \<and> def_set (infos' ! i) = def_set (infos ! i) \<and>
        (\<forall>v. ls_contains (live_in (infos ! i)) v \<longrightarrow> ls_contains (live_in (infos' ! i)) v) \<and>
        (\<forall>v. ls_contains (live_out (infos ! i)) v \<longrightarrow> ls_contains (live_out (infos' ! i)) v))"

definition info_weight :: "block_info \<Rightarrow> nat" where
  "info_weight info = card {v. ls_contains (live_in info) v} + card {v. ls_contains (live_out info) v}"

definition weight :: "block_info list \<Rightarrow> nat" where
  "weight infos = sum_list (map info_weight infos)"

definition wf_flow :: "nat list list \<Rightarrow> nat \<Rightarrow> bool" where
  "wf_flow succs n \<longleftrightarrow> length succs = n \<and> (\<forall>i < n. \<forall>j \<in> set (succs ! i). j < n)"

lemma grown_refl: "grown infos infos"
  by (simp add: grown_def)

lemma grown_trans: "grown a b \<Longrightarrow> grown b c \<Longrightarrow> grown a c"
  by (auto simp: grown_def)

lemma card_contains_le: "card {v. ls_contains s v} \<le> 64"
proof -
  have "{v. ls_contains s v} \<subseteq> of_nat ` {..<64}"
  proof
    fix v assume "v \<in> {v. ls_contains s v}"
    then have "unat v < 64" by (simp add: ls_contains_bound)
    then show "v \<in> of_nat ` {..<64}" by (intro image_eqI[of _ _ "unat v"]) simp_all
  qed
  then show ?thesis
    by (metis card_image_le card_lessThan card_mono finite_imageI finite_lessThan le_trans)
qed

lemma weight_le: "weight infos \<le> 128 * length infos"
proof (induction infos)
  case (Cons i infos)
  have "info_weight i \<le> 128"
    using card_contains_le[of "live_in i"] card_contains_le[of "live_out i"] by (simp add: info_weight_def)
  then show ?case using Cons by (simp add: weight_def)
qed (simp add: weight_def)

lemma live_step_cases:
  obtains (changed) new where "live_step succs (c, infos) i = (True, infos[i := new])"
      "new = (infos ! i)\<lparr>live_out := live_out new, live_in := live_in new\<rparr>"
      "\<And>v. ls_contains (live_out new) v \<longleftrightarrow> flow_out succs infos i v"
      "\<And>v. ls_contains (live_in new) v \<longleftrightarrow> flow_in (infos ! i) (flow_out succs infos i) v"
      "live_out new \<noteq> live_out (infos ! i) \<or> live_in new \<noteq> live_in (infos ! i)"
  | (same) "live_step succs (c, infos) i = (c, infos)" "stable succs infos i"
proof -
  define out where "out = foldl (\<lambda>acc s. ls_union acc (live_in (infos ! s))) ls_empty (succs ! i)"
  define inn where "inn = ls_union (use_before_def (infos ! i)) (ls_difference out (def_set (infos ! i)))"
  have o: "\<And>v. ls_contains out v \<longleftrightarrow> flow_out succs infos i v"
    by (simp add: out_def ls.contains_unions flow_out_def)
  have i: "\<And>v. ls_contains inn v \<longleftrightarrow> flow_in (infos ! i) (flow_out succs infos i) v"
    by (simp add: inn_def o flow_in_def)
  have step: "live_step succs (c, infos) i =
      (if out \<noteq> live_out (infos ! i) \<or> inn \<noteq> live_in (infos ! i)
       then (True, infos[i := (infos ! i)\<lparr>live_out := out, live_in := inn\<rparr>]) else (c, infos))"
    by (simp add: live_step_def Let_def out_def inn_def)
  show thesis
  proof (cases "out \<noteq> live_out (infos ! i) \<or> inn \<noteq> live_in (infos ! i)")
    case True
    then show thesis
      by (intro changed[of "(infos ! i)\<lparr>live_out := out, live_in := inn\<rparr>"]) (simp_all add: step o i)
  next
    case False
    then show thesis using o i by (intro same) (auto simp: step stable_def)
  qed
qed

lemma weight_update_less:
  assumes "i < length infos" and "info_weight (infos ! i) < info_weight new"
  shows "weight infos < weight (infos[i := new])"
proof -
  have "infos = take i infos @ infos ! i # drop (Suc i) infos"
    using assms(1) by (rule id_take_nth_drop)
  then have "weight infos = weight (take i infos) + info_weight (infos ! i) + weight (drop (Suc i) infos)"
    by (metis (no_types) add.assoc map_append sum_list.append sum_list.Cons list.map(2) weight_def)
  moreover have "weight (infos[i := new]) = weight (take i infos) + info_weight new + weight (drop (Suc i) infos)"
    using assms(1) by (simp add: weight_def upd_conv_take_nth_drop)
  ultimately show ?thesis using assms(2) by simp
qed

lemma live_step_grows:
  assumes "ascending succs infos" and "i < length infos" and "live_step succs (c, infos) i = (c', infos')"
  shows "grown infos infos' \<and> (c' = c \<and> infos' = infos \<and> stable succs infos i \<or> c' \<and> weight infos < weight infos')"
proof (cases rule: live_step_cases[of succs c infos i])
  case (changed new)
  have infos': "infos' = infos[i := new]" "c'" using changed(1) assms(3) by auto
  have sub: "ls_contains (live_out (infos ! i)) v \<Longrightarrow> ls_contains (live_out new) v"
    "ls_contains (live_in (infos ! i)) v \<Longrightarrow> ls_contains (live_in new) v" for v
    using assms(1,2) changed(3,4) by (auto simp: ascending_def)
  have same: "use_before_def new = use_before_def (infos ! i)" "def_set new = def_set (infos ! i)"
    by (subst changed(2), simp)+
  have "grown infos infos'"
    using assms(2) sub same by (auto simp: grown_def infos' nth_list_update)
  moreover have "info_weight (infos ! i) < info_weight new"
  proof (cases "live_in new = live_in (infos ! i)")
    case True
    then show ?thesis
      using changed(5) sub(1) ls.grow_card_strict[of "live_out (infos ! i)" "live_out new"]
      by (simp add: info_weight_def)
  next
    case False
    then show ?thesis
      using sub ls.grow_card_strict[of "live_in (infos ! i)" "live_in new"]
        ls.grow_card[of "live_out (infos ! i)" "live_out new"]
      by (simp add: info_weight_def add_less_le_mono)
  qed
  ultimately show ?thesis
    using weight_update_less[OF assms(2)] infos' by blast
next
  case same
  then show ?thesis using assms(3) by (auto simp: grown_refl)
qed

lemma flow_out_mono:
  assumes "grown infos infos'" "wf_flow succs (length infos)" "i < length infos" "flow_out succs infos i v"
  shows "flow_out succs infos' i v"
proof -
  obtain j where j: "j \<in> set (succs ! i)" "ls_contains (live_in (infos ! j)) v"
    using assms(4) by (auto simp: flow_out_def)
  moreover have "j < length infos" using assms(2,3) j(1) by (simp add: wf_flow_def)
  ultimately show ?thesis using assms(1) by (auto simp: flow_out_def grown_def)
qed

lemma live_step_ascending:
  assumes "ascending succs infos" "i < length infos" "wf_flow succs (length infos)"
    and "live_step succs (c, infos) i = (c', infos')"
  shows "ascending succs infos'"
proof -
  have g: "grown infos infos'" using live_step_grows[OF assms(1,2,4)] by blast
  note mono = flow_out_mono[OF g assms(3)]
  show ?thesis
  proof (cases rule: live_step_cases[of succs c infos i])
    case (changed new)
    have infos': "infos' = infos[i := new]" using changed(1) assms(4) by auto
    have same: "use_before_def new = use_before_def (infos ! i)" "def_set new = def_set (infos ! i)"
      by (subst changed(2), simp)+
    have "(\<forall>v. ls_contains (live_out (infos' ! j)) v \<longrightarrow> flow_out succs infos' j v) \<and>
        (\<forall>v. ls_contains (live_in (infos' ! j)) v \<longrightarrow> flow_in (infos' ! j) (flow_out succs infos' j) v)"
      if "j < length infos" for j
    proof (cases "j = i")
      case True
      then show ?thesis
        using that changed(3,4) mono[OF assms(2)] same by (auto simp: infos' flow_in_def)
    next
      case False
      then have "infos' ! j = infos ! j" by (simp add: infos')
      then show ?thesis
        using that assms(1) mono[OF that] by (auto simp: ascending_def flow_in_def)
    qed
    then show ?thesis by (simp add: ascending_def infos')
  next
    case same
    then show ?thesis using assms(1,4) by simp
  qed
qed

lemma live_steps:
  assumes "ascending succs infos" "wf_flow succs (length infos)" "\<forall>i \<in> set ids. i < length infos"
    and "foldl (live_step succs) (c, infos) ids = (c', infos')"
  shows "grown infos infos' \<and> ascending succs infos' \<and>
    (c' = c \<and> infos' = infos \<and> (\<forall>i \<in> set ids. stable succs infos i) \<or> c' \<and> weight infos < weight infos')"
  using assms
proof (induction ids arbitrary: c infos)
  case Nil
  then show ?case by (simp add: grown_refl)
next
  case (Cons i ids)
  obtain c1 infos1 where s1: "live_step succs (c, infos) i = (c1, infos1)" by fastforce
  have i: "i < length infos" using Cons.prems(3) by simp
  have g1: "grown infos infos1 \<and>
      (c1 = c \<and> infos1 = infos \<and> stable succs infos i \<or> c1 \<and> weight infos < weight infos1)"
    by (rule live_step_grows[OF Cons.prems(1) i s1])
  have len: "length infos1 = length infos" using g1 by (simp add: grown_def)
  have "grown infos1 infos' \<and> ascending succs infos' \<and>
      (c' = c1 \<and> infos' = infos1 \<and> (\<forall>i \<in> set ids. stable succs infos1 i) \<or> c' \<and> weight infos1 < weight infos')"
    using Cons.prems len s1 live_step_ascending[OF Cons.prems(1) i Cons.prems(2) s1]
    by (intro Cons.IH) simp_all
  then show ?case using g1 grown_trans[of infos infos1 infos'] less_trans by fastforce
qed

text \<open>
  Nothing is recorded beyond a closed predicate \<open>L\<close>: one that holds wherever a register is used
  before it is defined, and that passes backwards over blocks that do not define it.
\<close>

definition flow_closed :: "nat list list \<Rightarrow> block_info list \<Rightarrow> (u32 \<Rightarrow> nat \<Rightarrow> bool) \<Rightarrow> bool" where
  "flow_closed succs infos L \<longleftrightarrow>
     (\<forall>i < length infos. \<forall>v. flow_in (infos ! i) (\<lambda>v. \<exists>j \<in> set (succs ! i). L v j) v \<longrightarrow> L v i)"

definition recorded_within :: "block_info list \<Rightarrow> (u32 \<Rightarrow> nat \<Rightarrow> bool) \<Rightarrow> bool" where
  "recorded_within infos L \<longleftrightarrow> (\<forall>i < length infos. \<forall>v. ls_contains (live_in (infos ! i)) v \<longrightarrow> L v i)"

lemma live_step_within:
  assumes "flow_closed succs infos L" "recorded_within infos L" "i < length infos" "wf_flow succs (length infos)"
    and "live_step succs (c, infos) i = (c', infos')"
  shows "flow_closed succs infos' L \<and> recorded_within infos' L"
proof (cases rule: live_step_cases[of succs c infos i])
  case (changed new)
  have infos': "infos' = infos[i := new]" using changed(1) assms(5) by auto
  have same: "use_before_def new = use_before_def (infos ! i)" "def_set new = def_set (infos ! i)"
    by (subst changed(2), simp)+
  have "flow_out succs infos i v \<Longrightarrow> \<exists>j \<in> set (succs ! i). L v j" for v
    using assms(2-4) by (force simp: flow_out_def recorded_within_def wf_flow_def)
  then have "ls_contains (live_in new) v \<Longrightarrow> L v i" for v
    using assms(1,3) changed(4) by (fastforce simp: flow_closed_def flow_in_def)
  then have "recorded_within infos' L"
    using assms(2,3) by (auto simp: recorded_within_def infos' nth_list_update split: if_splits)
  moreover have "flow_closed succs infos' L"
    using assms(1,3) same by (auto simp: flow_closed_def flow_in_def infos' nth_list_update)
  ultimately show ?thesis by blast
next
  case same
  then show ?thesis using assms by simp
qed

lemma live_steps_within:
  assumes "flow_closed succs infos L" "recorded_within infos L" "wf_flow succs (length infos)"
    and "\<forall>i \<in> set ids. i < length infos" and "foldl (live_step succs) (c, infos) ids = (c', infos')"
  shows "flow_closed succs infos' L \<and> recorded_within infos' L"
  using assms
proof (induction ids arbitrary: c infos)
  case (Cons i ids)
  obtain c1 infos1 where s1: "live_step succs (c, infos) i = (c1, infos1)" by fastforce
  have "length infos1 = length infos"
    by (rule live_step_cases[of succs c infos i]) (use s1 in auto)
  then show ?case
    using Cons.prems s1 live_step_within[OF Cons.prems(1,2) _ Cons.prems(3) s1]
    by (intro Cons.IH[of infos1 c1]) simp_all
qed simp

text \<open>The loop ends: every sweep that changes something adds a bit, and there are at most 128 per block.\<close>

lemma live_loop_terminates:
  assumes "ascending succs infos" "wf_flow succs (length infos)" "flow_closed succs infos L" "recorded_within infos L"
  shows "\<exists>infos'. live_loop succs infos = Some infos' \<and> grown infos infos' \<and>
    (\<forall>i < length infos'. stable succs infos' i) \<and> recorded_within infos' L"
  using assms
proof (induction "128 * length infos - weight infos" arbitrary: infos rule: less_induct)
  case less
  obtain c infos1 where s: "live_sweep succs infos = (c, infos1)" by fastforce
  then have st: "grown infos infos1 \<and> ascending succs infos1 \<and>
      (\<not> c \<and> infos1 = infos \<and> (\<forall>i < length infos. stable succs infos i) \<or> c \<and> weight infos < weight infos1)"
    and within: "flow_closed succs infos1 L \<and> recorded_within infos1 L"
    using live_steps[OF less.prems(1,2), of "rev [0..<length infos]" False c infos1]
      live_steps_within[OF less.prems(3,4,2), of "rev [0..<length infos]" False c infos1]
    by (auto simp: live_sweep_def)
  show ?case
  proof (cases c)
    case True
    then have w: "weight infos < weight infos1" and len: "length infos1 = length infos"
      using st by (auto simp: grown_def)
    have "128 * length infos1 - weight infos1 < 128 * length infos - weight infos"
      using w len weight_le[of infos1] by simp
    then obtain infos' where "live_loop succs infos1 = Some infos'" "grown infos1 infos'"
        "\<forall>i < length infos'. stable succs infos' i" "recorded_within infos' L"
      using less.hyps[of infos1] st less.prems(2) len within by auto
    then show ?thesis using s True st by (subst live_loop.simps) (auto intro: grown_trans)
  next
    case False
    then show ?thesis using s st within by (subst live_loop.simps) auto
  qed
qed


section \<open>Correctness of the analysis\<close>

lemma label_to_idx_bound: "label_to_idx f l = Some j \<Longrightarrow> j < length (blocks f)"
  by (auto simp: label_to_idx_def dest!: map_of_SomeD simp: in_set_enumerate_eq)

lemma length_successors: "length (successors f) = length (blocks f)"
  by (simp add: successors_def)

lemma wf_flow_successors: "wf_flow (successors f) (length (blocks f))"
proof -
  have "j < length (blocks f)" if "j \<in> set (block_succs f i b)" for i j b
    using that label_to_idx_bound
    by (auto simp: block_succs_def Let_def split: terminator.splits option.splits if_splits)
  then show ?thesis
    by (auto simp: wf_flow_def length_successors) (auto simp: successors_def nth_enumerate_eq)
qed

text \<open>The successor lists of the code are the edges of the specification.\<close>

lemma label_to_idx_labelled: "label_to_idx f l = Some j \<longleftrightarrow> labelled f l j"
proof -
  have "map_of (rev (map (\<lambda>(i, b). (label b, i)) (enumerate 0 bs))) l = Some j \<longleftrightarrow>
      j < length bs \<and> label (bs ! j) = l \<and> (\<forall>k < length bs. label (bs ! k) = l \<longrightarrow> k \<le> j)" for bs
  proof (induction bs rule: rev_induct)
    case (snoc b bs)
    then show ?case
      by (auto simp: enumerate_append_eq nth_append less_Suc_eq all_conj_distrib split: if_splits)
  qed simp
  then show ?thesis by (simp add: label_to_idx_def labelled_def)
qed

lemma successors_flow:
  assumes "i < length (blocks f)"
  shows "j \<in> set (successors f ! i) \<longleftrightarrow> flows_to f i j"
proof -
  have "successors f ! i = block_succs f i (blocks f ! i)"
    using assms by (simp add: successors_def nth_enumerate_eq)
  then show ?thesis
    by (auto simp: flows_to_iff block_succs_def Let_def label_to_idx_labelled[symmetric]
        split: terminator.splits option.splits if_splits)
qed

lemma compute_correct:
  assumes small: "vregs_below_64 f"
  shows "\<exists>infos. compute f = Some infos \<and> length infos = length (blocks f) \<and>
    (\<forall>i < length (blocks f). \<forall>v.
       (ls_contains (live_in (infos ! i)) v \<longleftrightarrow> live_at_entry f v i) \<and>
       (ls_contains (live_out (infos ! i)) v \<longleftrightarrow> (\<exists>j. flows_to f i j \<and> live_at_entry f v j)))"
proof -
  let ?I = "map scan_block (blocks f)" and ?S = "successors f"
  have gen: "ls_contains (use_before_def (?I ! i)) v \<longleftrightarrow> upward_exposed (blocks f ! i) v"
    and kill: "ls_contains (def_set (?I ! i)) v \<longleftrightarrow> kills (blocks f ! i) v" if "i < length (blocks f)" for i v
    using scan_block_summary[OF small nth_mem[OF that]] that by simp_all
  have "ascending ?S ?I" "recorded_within ?I (live_at_entry f)"
    by (simp_all add: ascending_def recorded_within_def scan_block_live)
  moreover have "flow_closed ?S ?I (live_at_entry f)"
    using gen kill by (auto simp: flow_closed_def flow_in_def successors_flow intro: live_at_entry.intros)
  ultimately obtain infos where infos: "live_loop ?S ?I = Some infos" "grown ?I infos"
      "\<forall>i < length infos. stable ?S infos i" "recorded_within infos (live_at_entry f)"
    using live_loop_terminates[of ?S ?I "live_at_entry f"] wf_flow_successors[of f] by auto
  have len: "length infos = length (blocks f)" using infos(2) by (simp add: grown_def)
  have summary: "use_before_def (infos ! i) = use_before_def (?I ! i)" "def_set (infos ! i) = def_set (?I ! i)"
    if "i < length (blocks f)" for i
    using infos(2) that by (simp_all add: grown_def)
  have complete: "ls_contains (live_in (infos ! i)) v" if "live_at_entry f v i" for i v
    using that
  proof (induction rule: live_at_entry.induct)
    case (live_use i)
    then show ?case using infos(3) len gen summary(1) by (auto simp: stable_def flow_in_def)
  next
    case (live_through i j)
    then have "flow_out ?S infos i v" by (auto simp: flow_out_def successors_flow)
    then show ?case using live_through infos(3) len kill summary(2) by (auto simp: stable_def flow_in_def)
  qed
  have ins: "ls_contains (live_in (infos ! i)) v \<longleftrightarrow> live_at_entry f v i" if "i < length (blocks f)" for i v
    using complete infos(4) len that by (auto simp: recorded_within_def)
  have "ls_contains (live_out (infos ! i)) v \<longleftrightarrow> (\<exists>j \<in> set (?S ! i). live_at_entry f v j)"
    if "i < length (blocks f)" for i v
    using infos(3) len that wf_flow_successors[of f] ins
    by (auto simp: stable_def flow_out_def wf_flow_def)
  then have "ls_contains (live_out (infos ! i)) v \<longleftrightarrow> (\<exists>j. flows_to f i j \<and> live_at_entry f v j)"
    if "i < length (blocks f)" for i v
    using that by (auto simp: successors_flow)
  then show ?thesis using infos(1) len ins by (auto simp: compute_def)
qed

lemma compute_total: "\<exists>infos. compute f = Some infos \<and> length infos = length (blocks f)"
proof -
  let ?I = "map scan_block (blocks f)"
  have "ascending (successors f) ?I" "recorded_within ?I (\<lambda>_ _. True)" "flow_closed (successors f) ?I (\<lambda>_ _. True)"
    by (simp_all add: ascending_def recorded_within_def flow_closed_def scan_block_live)
  then show ?thesis
    using live_loop_terminates[of "successors f" ?I "\<lambda>_ _. True"] wf_flow_successors[of f]
    by (auto simp: compute_def grown_def)
qed

text \<open>
  C9: liveness analysis is exact.  For every function whose virtual registers fit the bit set (all
  indices below 64), \<open>Liveness::compute\<close> returns, and in its result a register is live at the start
  of a block exactly when some control-flow path from there reaches a use of the register with no
  definition in between, and live at the end of a block exactly when it is live at the start of a
  block control can reach next.  Paths follow \<open>flows_to\<close>, which is read off the terminators and not
  off the successor lists of the code: a jump or a call goes to the block of its label, a conditional
  branch there or on to the next block.
\<close>

theorem liveness_exact:
  assumes "vregs_below_64 f"
  shows "\<exists>infos. compute f = Some infos \<and> length infos = length (blocks f) \<and>
    (\<forall>i < length (blocks f). \<forall>v.
       (ls_contains (live_in (infos ! i)) v \<longleftrightarrow> live_at_entry f v i) \<and>
       (ls_contains (live_out (infos ! i)) v \<longleftrightarrow> (\<exists>j. flows_to f i j \<and> live_at_entry f v j)))"
  by (rule compute_correct[OF assms])

text \<open>
  Witness: a branch around a block.  Register 0 is read only in the block the branch falls through
  to, so it is live before the branch and dead at its target.
\<close>

definition skip_over :: mir_function where
  "skip_over =
     \<lparr>fname = ''skip_over'',
      blocks =
        [\<lparr>label = ''head'', syllables = [syl CmpEq (Some (VReg 1)) [RegV (VReg 2), ImmV 10]],
          terminator = BranchT (VReg 1) ''exit''\<rparr>,
         \<lparr>label = ''body'', syllables = [syl Add (Some (VReg 2)) [RegV (VReg 0), ImmV 1]],
          terminator = JumpT ''exit''\<rparr>,
         \<lparr>label = ''exit'', syllables = [], terminator = ReturnT\<rparr>]\<rparr>"

theorem liveness_exact_witness:
  "live_at_entry skip_over 0 0 \<and> live_at_entry skip_over 2 0 \<and> \<not> live_at_entry skip_over 1 0 \<and>
   \<not> live_at_entry skip_over 0 2"
proof -
  have small: "vregs_below_64 skip_over"
    by (simp add: vregs_below_64_def skip_over_def src_vregs_def dst_vreg_def term_vreg_def
        List.map_filter_simps)
  obtain infos where infos: "compute skip_over = Some infos"
      "\<forall>i < 3. \<forall>v. ls_contains (live_in (infos ! i)) v \<longleftrightarrow> live_at_entry skip_over v i"
    using liveness_exact[OF small] by (auto simp: skip_over_def)
  have "map (\<lambda>infos. map live_in infos) (case compute skip_over of Some x \<Rightarrow> [x] | None \<Rightarrow> []) = [[5, 1, 0]]"
    by code_simp
  then have "live_in (infos ! 0) = 5" "live_in (infos ! 2) = 0"
    using infos(1) by (auto simp: map_eq_Cons_conv)
  then have "ls_contains (live_in (infos ! 0)) 0" "ls_contains (live_in (infos ! 0)) 2"
      "\<not> ls_contains (live_in (infos ! 0)) 1" "\<not> ls_contains (live_in (infos ! 2)) 0"
    by (simp_all add: ls_contains_def)
  then show ?thesis using infos(2) by auto
qed

end
