(* ===== verification/Regalloc.thy ===== *)
theory Regalloc
  imports Liveness Machine Errors
begin

text \<open>
  Component \<open>vliw-backend/src/regalloc.rs\<close>: the linear register allocator with spilling.

  The victim of a spill is the first entry of the \<open>HashMap\<close> \<open>assigned\<close>, in iteration order, whose key
  is not protected.  Rust leaves that order unspecified, so it is a parameter: \<open>hash_iter\<close> gives the
  sequence in which the entries are visited, and the results hold for every \<open>hash_iter\<close> that visits
  exactly the entries of the map.
\<close>

definition SPILL_SLOT_BYTES :: i64 where
  "SPILL_SLOT_BYTES = 8"

record allocator =
  last_uses :: "(u32 \<rightharpoonup> nat) list"
  alloc_live_out :: "live_set list"
  assigned :: "(u32 \<times> u8) list"
  free :: "u8 list"
  spill_slots :: "u32 \<rightharpoonup> i64"
  next_spill_slot :: i64
  alloc_spill_base :: i64

definition allocator_new :: "(u32 \<rightharpoonup> nat) list \<Rightarrow> live_set list \<Rightarrow> i64 \<Rightarrow> allocator" where
  "allocator_new uses outs base =
     \<lparr>last_uses = uses, alloc_live_out = outs, assigned = [], free = allocatable,
      spill_slots = Map.empty, next_spill_slot = 0, alloc_spill_base = base\<rparr>"

definition is_live_out :: "allocator \<Rightarrow> u32 \<Rightarrow> nat \<Rightarrow> bool" where
  "is_live_out al v block_idx =
     ls_contains (case get (alloc_live_out al) block_idx of Some s \<Rightarrow> s | None \<Rightarrow> ls_empty) v"

definition last_use :: "allocator \<Rightarrow> nat \<Rightarrow> u32 \<Rightarrow> nat option" where
  "last_use al block_idx v = Option.bind (get (last_uses al) block_idx) (\<lambda>uses. uses v)"

definition can_free_after :: "allocator \<Rightarrow> u32 \<Rightarrow> nat \<Rightarrow> nat \<Rightarrow> bool" where
  "can_free_after al v block_idx pos \<longleftrightarrow> last_use al block_idx v = Some pos \<and> \<not> is_live_out al v block_idx"

definition has_later_block_use :: "allocator \<Rightarrow> u32 \<Rightarrow> nat \<Rightarrow> nat \<Rightarrow> bool" where
  "has_later_block_use al v block_idx pos \<longleftrightarrow>
     (case last_use al block_idx v of Some q \<Rightarrow> pos < q | None \<Rightarrow> False)"

definition free_vreg :: "u32 \<Rightarrow> allocator \<Rightarrow> allocator" where
  "free_vreg v al =
     (case map_of (assigned al) v of
        Some r \<Rightarrow> al\<lparr>assigned := AList.delete v (assigned al), free := r # free al\<rparr>
      | None \<Rightarrow> al)"

definition spill_slot :: "u32 \<Rightarrow> allocator \<Rightarrow> i64 \<times> allocator" where
  "spill_slot v al =
     (case spill_slots al v of
        Some slot \<Rightarrow> (slot, al)
      | None \<Rightarrow>
          let slot = alloc_spill_base al + next_spill_slot al * SPILL_SLOT_BYTES
          in (slot, al\<lparr>next_spill_slot := next_spill_slot al + 1,
                       spill_slots := (spill_slots al)(v \<mapsto> slot)\<rparr>))"

text \<open>The allocator and the list of inserted syllables, threaded through the calls.\<close>

type_synonym alloc_state = "allocator \<times> mir_syllable list"
type_synonym hash_order = "(u32 \<times> u8) list \<Rightarrow> (u32 \<times> u8) list"

definition alloc_preg ::
  "hash_order \<Rightarrow> u32 \<Rightarrow> u32 set \<Rightarrow> alloc_state \<Rightarrow> compile_error + (u8 \<times> alloc_state)" where
  "alloc_preg hash_iter requesting protected st =
     (let (al, pre) = st in
      case free al of
        r # rs \<Rightarrow> Inr (r, al\<lparr>free := rs\<rparr>, pre)
      | [] \<Rightarrow>
          and_then (ok_or (find (\<lambda>(v, _). v \<notin> protected) (hash_iter (assigned al))) (OutOfRegisters requesting))
            (\<lambda>(victim, r).
               let (slot, al) = spill_slot victim (al\<lparr>assigned := AList.delete victim (assigned al)\<rparr>)
               in Inr (r, al, pre @ [syl StoreD None [StackV slot, RegV (PReg r)]])))"

definition preg_for_vreg ::
  "hash_order \<Rightarrow> u32 \<Rightarrow> u32 set \<Rightarrow> alloc_state \<Rightarrow> compile_error + (u8 \<times> alloc_state)" where
  "preg_for_vreg hash_iter v protected st =
     (case map_of (assigned (fst st)) v of
        Some r \<Rightarrow> Inr (r, st)
      | None \<Rightarrow>
          and_then (alloc_preg hash_iter v protected st) (\<lambda>(r, al, pre).
            let al = al\<lparr>assigned := AList.update v r (assigned al)\<rparr>
            in case spill_slots al v of
                 Some slot \<Rightarrow> Inr (r, al, pre @ [syl LoadD (Some (PReg r)) [StackV slot]])
               | None \<Rightarrow> Inr (r, al, pre)))"

definition rewrite_value ::
  "hash_order \<Rightarrow> u32 set \<Rightarrow> val \<Rightarrow> u32 list \<times> alloc_state \<Rightarrow> compile_error + (val \<times> u32 list \<times> alloc_state)" where
  "rewrite_value hash_iter protected v st =
     (case v of
        RegV (VReg n) \<Rightarrow>
          and_then (preg_for_vreg hash_iter n protected (snd st)) (\<lambda>(r, st').
            Inr (RegV (PReg r), fst st @ [n], st'))
      | _ \<Rightarrow> Inr (v, st))"

text \<open>The loop over the operands, which collects the rewritten operands.\<close>

fun rewrite_values ::
  "hash_order \<Rightarrow> u32 set \<Rightarrow> val list \<Rightarrow> u32 list \<times> alloc_state \<Rightarrow> compile_error + (val list \<times> u32 list \<times> alloc_state)" where
  "rewrite_values hash_iter protected [] st = Inr ([], st)"
| "rewrite_values hash_iter protected (v # vs) st =
     and_then (rewrite_value hash_iter protected v st) (\<lambda>(v', st').
     and_then (rewrite_values hash_iter protected vs st') (\<lambda>(vs', st'').
       Inr (v' # vs', st'')))"

definition free_dead_source ::
  "u32 option \<Rightarrow> nat \<Rightarrow> nat \<Rightarrow> u32 \<Rightarrow> allocator \<times> u32 set \<Rightarrow> allocator \<times> u32 set" where
  "free_dead_source d block_idx pos v st =
     (let (al, protected) = st in
      if Some v \<noteq> d \<and> can_free_after al v block_idx pos then (free_vreg v al, protected - {v})
      else (al, protected))"

definition rewrite_syllable ::
  "hash_order \<Rightarrow> nat \<Rightarrow> nat \<Rightarrow> allocator \<Rightarrow> mir_syllable \<Rightarrow> compile_error + (mir_syllable list \<times> allocator)" where
  "rewrite_syllable hash_iter block_idx pos al s =
     (let protected = set (src_vregs s) in
      and_then (rewrite_values hash_iter protected (srcs s) ([], al, [])) (\<lambda>(srcs', vregs, al, pre).
        let (al, protected) = fold (free_dead_source (dst_vreg s) block_idx pos) vregs (al, protected)
        in and_then
             (case dst s of
                Some (VReg v) \<Rightarrow>
                  and_then (preg_for_vreg hash_iter v protected (al, pre)) (\<lambda>(r, al, pre).
                    let al = (if \<not> has_later_block_use al v block_idx pos \<and> \<not> is_live_out al v block_idx
                              then free_vreg v al else al)
                    in Inr (Some (PReg r), al, pre))
              | other \<Rightarrow> Inr (other, al, pre))
             (\<lambda>(d, al, pre). Inr (pre @ [syl (opc s) d srcs'], al))))"

definition rewrite_terminator ::
  "hash_order \<Rightarrow> nat \<Rightarrow> nat \<Rightarrow> allocator \<Rightarrow> terminator \<Rightarrow>
     compile_error + (mir_syllable list \<times> terminator \<times> allocator)" where
  "rewrite_terminator hash_iter block_idx pos al t =
     (case t of
        BranchT (VReg v) l \<Rightarrow>
          and_then (preg_for_vreg hash_iter v {v} (al, [])) (\<lambda>(r, al, pre).
            let al = (if can_free_after al v block_idx pos then free_vreg v al else al)
            in Inr (pre, BranchT (PReg r) l, al))
      | BranchT (PReg r) l \<Rightarrow> Inr ([], BranchT (PReg r) l, al)
      | JumpT l \<Rightarrow> Inr ([], JumpT l, al)
      | ReturnT \<Rightarrow> Inr ([], ReturnT, al)
      | DirectCallT target cont \<Rightarrow> Inr ([], DirectCallT target cont, al))"

definition syllable_last_uses :: "mir_syllable \<Rightarrow> (u32 \<rightharpoonup> nat) \<times> nat \<Rightarrow> (u32 \<rightharpoonup> nat) \<times> nat" where
  "syllable_last_uses s st =
     (let (uses, pos) = st in (fold (\<lambda>v uses. uses(v \<mapsto> pos)) (src_vregs s) uses, pos + 1))"

definition block_last_uses :: "block \<Rightarrow> nat \<Rightarrow> (u32 \<rightharpoonup> nat) \<times> nat" where
  "block_last_uses b pos =
     (let (uses, pos) = fold syllable_last_uses (syllables b) (Map.empty, pos)
      in (case term_vreg (terminator b) of Some v \<Rightarrow> uses(v \<mapsto> pos) | None \<Rightarrow> uses, pos + 1))"

fun last_uses_from :: "block list \<Rightarrow> nat \<Rightarrow> (u32 \<rightharpoonup> nat) list" where
  "last_uses_from [] pos = []"
| "last_uses_from (b # bs) pos = (let (uses, pos') = block_last_uses b pos in uses # last_uses_from bs pos')"

definition compute_block_last_uses :: "mir_function \<Rightarrow> (u32 \<rightharpoonup> nat) list" where
  "compute_block_last_uses f = last_uses_from (blocks f) 0"

fun rewrite_syllables ::
  "hash_order \<Rightarrow> nat \<Rightarrow> nat \<Rightarrow> allocator \<Rightarrow> mir_syllable list \<Rightarrow> compile_error + (mir_syllable list \<times> allocator)" where
  "rewrite_syllables hash_iter block_idx pos al [] = Inr ([], al)"
| "rewrite_syllables hash_iter block_idx pos al (s # ss) =
     and_then (rewrite_syllable hash_iter block_idx pos al s) (\<lambda>(out1, al1).
     and_then (rewrite_syllables hash_iter block_idx (pos + 1) al1 ss) (\<lambda>(out2, al2).
       Inr (out1 @ out2, al2)))"

definition rewrite_block ::
  "hash_order \<Rightarrow> nat \<Rightarrow> nat \<Rightarrow> allocator \<Rightarrow> block \<Rightarrow> compile_error + (block \<times> nat \<times> allocator)" where
  "rewrite_block hash_iter block_idx pos al b =
     and_then (rewrite_syllables hash_iter block_idx pos al (syllables b)) (\<lambda>(out, al).
       let pos = pos + length (syllables b) in
       and_then (rewrite_terminator hash_iter block_idx pos al (terminator b)) (\<lambda>(pre, t, al).
         Inr (\<lparr>label = label b, syllables = out @ pre, terminator = t\<rparr>, pos + 1, al)))"

fun rewrite_blocks ::
  "hash_order \<Rightarrow> nat \<Rightarrow> nat \<Rightarrow> allocator \<Rightarrow> block list \<Rightarrow> compile_error + (block list \<times> allocator)" where
  "rewrite_blocks hash_iter block_idx pos al [] = Inr ([], al)"
| "rewrite_blocks hash_iter block_idx pos al (b # bs) =
     and_then (rewrite_block hash_iter block_idx pos al b) (\<lambda>(b', pos', al1).
     and_then (rewrite_blocks hash_iter (block_idx + 1) pos' al1 bs) (\<lambda>(bs', al2).
       Inr (b' # bs', al2)))"

definition allocate_registers :: "hash_order \<Rightarrow> mir_function \<Rightarrow> u64 \<Rightarrow> compile_error + mir_function" where
  "allocate_registers hash_iter f m =
     and_then (ok_or (compute f) (Panic ''the liveness analysis does not terminate'')) (\<lambda>infos.
     and_then
       (rewrite_blocks hash_iter 0 0
          (allocator_new (compute_block_last_uses f) (map live_out infos) (spill_base m)) (blocks f))
       (\<lambda>(bs, al). Inr \<lparr>fname = fname f, blocks = bs\<rparr>))"

section \<open>The allocator's invariant\<close>

definition hash_order_ok :: "hash_order \<Rightarrow> bool" where
  "hash_order_ok hash_iter \<longleftrightarrow> (\<forall>xs. set (hash_iter xs) = set xs)"

text \<open>
  Every allocatable register is either free or assigned to exactly one virtual register; the spill
  slots handed out so far are numbered from 0 without gaps, one per virtual register.
\<close>

definition regs_inv :: "allocator \<Rightarrow> bool" where
  "regs_inv al \<longleftrightarrow>
     distinct (map fst (assigned al)) \<and>
     mset (map snd (assigned al)) + mset (free al) = mset allocatable"

definition slots_inv :: "allocator \<Rightarrow> bool" where
  "slots_inv al \<longleftrightarrow>
     unat (next_spill_slot al) = card (dom (spill_slots al)) \<and>
     (\<exists>g. inj_on g (dom (spill_slots al)) \<and>
        (\<forall>v slot. spill_slots al v = Some slot \<longrightarrow>
           g v < unat (next_spill_slot al) \<and>
           slot = alloc_spill_base al + of_nat (g v) * SPILL_SLOT_BYTES))"

definition alloc_inv :: "allocator \<Rightarrow> bool" where
  "alloc_inv al \<longleftrightarrow> regs_inv al \<and> slots_inv al"

text \<open>The read-only part of the allocator.\<close>

definition same_tables :: "allocator \<Rightarrow> allocator \<Rightarrow> bool" where
  "same_tables al al' \<longleftrightarrow>
     last_uses al' = last_uses al \<and> alloc_live_out al' = alloc_live_out al \<and>
     alloc_spill_base al' = alloc_spill_base al"

lemma same_tables_refl [simp]: "same_tables al al"
  by (simp add: same_tables_def)

lemma same_tables_trans: "same_tables a b \<Longrightarrow> same_tables b c \<Longrightarrow> same_tables a c"
  by (simp add: same_tables_def)

lemma same_tables_uses:
  assumes "same_tables al al'"
  shows "can_free_after al' v bi pos = can_free_after al v bi pos"
    "has_later_block_use al' v bi pos = has_later_block_use al v bi pos"
    "is_live_out al' v bi = is_live_out al v bi" "last_use al' bi v = last_use al bi v"
  using assms
  by (simp_all add: same_tables_def can_free_after_def has_later_block_use_def is_live_out_def last_use_def)

lemma alloc_inv_new: "alloc_inv (allocator_new uses outs base)"
  by (simp add: alloc_inv_def regs_inv_def slots_inv_def allocator_new_def)

lemma mset_delete:
  assumes "distinct (map fst xs)" "map_of xs v = Some r"
  shows "add_mset r (mset (map snd (AList.delete v xs))) = mset (map snd xs)"
  using assms
proof (induction xs)
  case (Cons x xs)
  show ?case
  proof (cases "fst x = v")
    case True
    then have "AList.delete v xs = xs" using Cons.prems(1) by simp
    then show ?thesis using True Cons.prems(2) by (cases x) simp
  next
    case False
    then show ?thesis using Cons by (cases x) (auto simp: add_mset_commute)
  qed
qed simp

lemma mset_update_fresh:
  "map_of xs v = None \<Longrightarrow> mset (map snd (AList.update v r xs)) = add_mset r (mset (map snd xs))"
  by (induction xs) (auto split: if_splits)

lemma assigned_allocatable:
  assumes "regs_inv al" "map_of (assigned al) v = Some r"
  shows "r \<in> set allocatable" "r \<notin> set (free al)" "map_of (assigned al) w = Some r \<Longrightarrow> w = v"
proof -
  have m: "mset (map snd (assigned al)) + mset (free al) = mset allocatable"
    and d: "distinct (map fst (assigned al))" using assms(1) by (auto simp: regs_inv_def)
  have "mset (map snd (assigned al) @ free al) = mset allocatable" using m by simp
  then have s: "set (map snd (assigned al) @ free al) = set allocatable"
    and dd: "distinct (map snd (assigned al) @ free al)"
    using distinct_allocatable by (metis mset_eq_setD, metis mset_eq_imp_distinct_iff)
  have r: "r \<in> set (map snd (assigned al))" using assms(2) by (force dest: map_of_SomeD)
  show "r \<in> set allocatable" "r \<notin> set (free al)" using r s dd by auto
  show "w = v" if "map_of (assigned al) w = Some r"
  proof -
    have "(w, r) \<in> set (assigned al)" "(v, r) \<in> set (assigned al)"
      using that assms(2) by (auto dest: map_of_SomeD)
    moreover have "inj_on snd (set (assigned al))" using dd by (simp add: distinct_map)
    ultimately show ?thesis by (metis fst_conv inj_onD snd_conv)
  qed
qed

lemma slots_inv_frame [simp]:
  "slots_inv (al\<lparr>assigned := xs\<rparr>) \<longleftrightarrow> slots_inv al" "slots_inv (al\<lparr>free := rs\<rparr>) \<longleftrightarrow> slots_inv al"
  by (simp_all add: slots_inv_def)

lemma free_vreg_inv:
  assumes "alloc_inv al"
  shows "alloc_inv (free_vreg v al)" "same_tables al (free_vreg v al)"
    "spill_slots (free_vreg v al) = spill_slots al"
    "map_of (assigned (free_vreg v al)) = (map_of (assigned al))(v := None)"
proof -
  show "alloc_inv (free_vreg v al)"
  proof (cases "map_of (assigned al) v")
    case (Some r)
    have "add_mset r (mset (map snd (AList.delete v (assigned al)))) = mset (map snd (assigned al))"
      using assms by (intro mset_delete Some) (simp add: alloc_inv_def regs_inv_def)
    then have "regs_inv (free_vreg v al)"
      using assms Some unfolding alloc_inv_def regs_inv_def free_vreg_def
      by (simp add: distinct_delete) (metis union_mset_add_mset_left)
    then show ?thesis using assms Some by (simp add: alloc_inv_def free_vreg_def)
  qed (simp add: assms free_vreg_def)
qed (auto simp: free_vreg_def same_tables_def delete_conv' fun_upd_idem split: option.splits)

lemma card_slots: "card (dom (m :: u32 \<rightharpoonup> i64)) \<le> 2 ^ 32"
proof -
  have "card (dom m) \<le> card (UNIV :: u32 set)" by (rule card_mono) simp_all
  then show ?thesis by (simp add: card_word)
qed

lemma spill_slot_inv:
  assumes "slots_inv al" "spill_slot v al = (slot, al')"
  shows "slots_inv al'" "same_tables al al'" "assigned al' = assigned al" "free al' = free al"
    "spill_slots al' = (spill_slots al)(v \<mapsto> slot)"
proof -
  let ?n = "next_spill_slot al"
  obtain g where g: "inj_on g (dom (spill_slots al))"
      "\<And>w s. spill_slots al w = Some s \<Longrightarrow> g w < unat ?n \<and> s = alloc_spill_base al + of_nat (g w) * SPILL_SLOT_BYTES"
    and n: "unat ?n = card (dom (spill_slots al))"
    using assms(1) by (auto simp: slots_inv_def)
  show "slots_inv al'"
  proof (cases "spill_slots al v")
    case (Some s)
    then show ?thesis using assms by (simp add: spill_slot_def)
  next
    case None
    let ?g = "g(v := unat ?n)"
    have "unat ?n \<le> 2 ^ 32" using n card_slots by simp
    then have n1: "unat (?n + 1) = Suc (unat ?n)" by (simp add: unat_word_ariths)
    have nx: "(of_nat (card (dom (spill_slots al))) :: i64) = ?n" by (simp flip: n)
    have v: "v \<notin> dom (spill_slots al)" using None by auto
    have "inj_on ?g (insert v (dom (spill_slots al)))"
      using g v by (auto simp: inj_on_def) (metis less_irrefl)+
    moreover have "card (insert v (dom (spill_slots al))) = Suc (card (dom (spill_slots al)))"
      using v by (simp add: finite_subset[OF subset_UNIV])
    ultimately show ?thesis
      using assms(2) None n n1 g(2) nx
      by (auto simp: spill_slot_def slots_inv_def Let_def less_Suc_eq intro!: exI[of _ ?g])
  qed
qed (use assms(2) in \<open>auto simp: spill_slot_def same_tables_def Let_def split: option.splits\<close>)

section \<open>Obtaining a register\<close>

text \<open>
  The two ways to obtain a register: take a free one, or evict an unprotected virtual register,
  storing it to its spill slot.
\<close>

definition took_free :: "allocator \<Rightarrow> u8 \<Rightarrow> allocator \<Rightarrow> mir_syllable list \<Rightarrow> bool" where
  "took_free al r al' code \<longleftrightarrow>
     code = [] \<and> r \<in> set (free al) \<and> map_of (assigned al') = map_of (assigned al) \<and>
     spill_slots al' = spill_slots al"

definition evicted :: "u32 set \<Rightarrow> allocator \<Rightarrow> u8 \<Rightarrow> allocator \<Rightarrow> mir_syllable list \<Rightarrow> bool" where
  "evicted protected al r al' code \<longleftrightarrow>
     free al = [] \<and>
     (\<exists>victim slot. victim \<notin> protected \<and> map_of (assigned al) victim = Some r \<and>
        code = [syl StoreD None [StackV slot, RegV (PReg r)]] \<and>
        map_of (assigned al') = (map_of (assigned al))(victim := None) \<and>
        spill_slots al' = (spill_slots al)(victim \<mapsto> slot))"

lemma mset_free_Cons: "free al = r # rs \<Longrightarrow> mset (free al) = add_mset r (mset rs)"
  by simp

text \<open>While its new owner is not recorded, the obtained register is neither free nor assigned.\<close>

definition in_transit :: "allocator \<Rightarrow> u8 \<Rightarrow> bool" where
  "in_transit al r \<longleftrightarrow>
     distinct (map fst (assigned al)) \<and> slots_inv al \<and>
     add_mset r (mset (map snd (assigned al)) + mset (free al)) = mset allocatable"

lemma alloc_preg_effect:
  assumes iter: "hash_order_ok hash_iter" and inv: "alloc_inv al"
    and ok: "alloc_preg hash_iter v protected (al, pre) = Inr (r, al', pre')"
  shows "\<exists>code. pre' = pre @ code \<and> in_transit al' r \<and> same_tables al al' \<and>
    (took_free al r al' code \<or> evicted protected al r al' code)"
proof (cases "free al")
  case (Cons q rs)
  then have "r = q" "al' = al\<lparr>free := rs\<rparr>" "pre' = pre" using ok by (auto simp: alloc_preg_def)
  then show ?thesis
    using inv Cons by (auto simp: alloc_inv_def regs_inv_def in_transit_def same_tables_def took_free_def)
next
  case Nil
  then obtain victim q where f: "find (\<lambda>(v, _). v \<notin> protected) (hash_iter (assigned al)) = Some (victim, q)"
    using ok by (auto simp: alloc_preg_def result_simps)
  obtain slot al2 where "spill_slot victim (al\<lparr>assigned := AList.delete victim (assigned al)\<rparr>) = (slot, al2)"
    by fastforce
  with f ok Nil have v: "find (\<lambda>(v, _). v \<notin> protected) (hash_iter (assigned al)) = Some (victim, r)"
      "spill_slot victim (al\<lparr>assigned := AList.delete victim (assigned al)\<rparr>) = (slot, al')"
      "pre' = pre @ [syl StoreD None [StackV slot, RegV (PReg r)]]"
    by (auto simp: alloc_preg_def)
  have d: "distinct (map fst (assigned al))" using inv by (simp add: alloc_inv_def regs_inv_def)
  have "(victim, r) \<in> set (assigned al)" "victim \<notin> protected"
    using find_SomeD[OF v(1)] iter by (auto simp: hash_order_ok_def)
  then have vic: "map_of (assigned al) victim = Some r" "victim \<notin> protected" using d by simp_all
  have s0: "slots_inv (al\<lparr>assigned := AList.delete victim (assigned al)\<rparr>)"
    using inv by (simp add: alloc_inv_def)
  note sp = spill_slot_inv[OF s0 v(2)]
  have "in_transit al' r"
    using sp inv Nil mset_delete[OF d vic(1)] by (simp add: in_transit_def alloc_inv_def regs_inv_def distinct_delete)
  moreover have "same_tables al al'" using sp(2) by (simp add: same_tables_def)
  moreover have "evicted protected al r al' [syl StoreD None [StackV slot, RegV (PReg r)]]"
    using vic Nil sp(3,5) by (auto simp: evicted_def delete_conv')
  ultimately show ?thesis using v(3) by blast
qed

lemma alloc_preg_succeeds:
  assumes iter: "hash_order_ok hash_iter" and inv: "alloc_inv al" and few: "finite protected" "card protected < 29"
  shows "\<exists>r al' pre'. alloc_preg hash_iter v protected (al, pre) = Inr (r, al', pre')"
proof (cases "free al")
  case Nil
  have d: "distinct (map fst (assigned al))" and "mset (map snd (assigned al)) = mset allocatable"
    using inv Nil by (auto simp: alloc_inv_def regs_inv_def)
  then have "length (assigned al) = 29" using length_allocatable by (metis length_map size_mset)
  then have "card (set (map fst (assigned al))) = 29" using d by (simp only: distinct_card length_map)
  then have "\<not> set (map fst (assigned al)) \<subseteq> protected"
    using few card_mono[OF few(1), of "set (map fst (assigned al))"] by auto
  then obtain w q where x: "(w, q) \<in> set (assigned al)" "w \<notin> protected" by fastforce
  then have "(w, q) \<in> set (hash_iter (assigned al))" using iter by (simp add: hash_order_ok_def)
  then have "find (\<lambda>(v, _). v \<notin> protected) (hash_iter (assigned al)) \<noteq> None"
    using x(2) unfolding find_None_iff by blast
  then show ?thesis
    using Nil by (auto simp: alloc_preg_def split: prod.splits)
qed (simp add: alloc_preg_def)

lemma record_owner:
  assumes "in_transit al r" "map_of (assigned al) v = None"
  shows "alloc_inv (al\<lparr>assigned := AList.update v r (assigned al)\<rparr>)"
  using assms mset_update_fresh[OF assms(2), of r]
  by (simp add: in_transit_def alloc_inv_def regs_inv_def distinct_update)

text \<open>What \<open>preg_for_vreg\<close> does, whichever way the register was obtained.\<close>

definition reload :: "allocator \<Rightarrow> u32 \<Rightarrow> u8 \<Rightarrow> mir_syllable list" where
  "reload al v r =
     (case spill_slots al v of Some slot \<Rightarrow> [syl LoadD (Some (PReg r)) [StackV slot]] | None \<Rightarrow> [])"

lemma preg_for_vreg_effect:
  assumes iter: "hash_order_ok hash_iter" and inv: "alloc_inv al"
    and ok: "preg_for_vreg hash_iter v protected (al, pre) = Inr (r, al', pre')"
  shows "alloc_inv al' \<and> same_tables al al' \<and> map_of (assigned al') v = Some r \<and>
    (al' = al \<and> pre' = pre \<and> map_of (assigned al) v = Some r \<or>
     map_of (assigned al) v = None \<and>
     (\<exists>code al1. pre' = pre @ code @ reload al v r \<and> slots_inv al1 \<and>
        (took_free al r al1 code \<or> evicted protected al r al1 code) \<and>
        map_of (assigned al') = (map_of (assigned al1))(v \<mapsto> r) \<and> spill_slots al' = spill_slots al1))"
proof (cases "map_of (assigned al) v")
  case (Some q)
  then show ?thesis using ok inv by (auto simp: preg_for_vreg_def)
next
  case None
  obtain al1 pre1 where a: "alloc_preg hash_iter v protected (al, pre) = Inr (r, al1, pre1)"
      "al' = al1\<lparr>assigned := AList.update v r (assigned al1)\<rparr>" "pre' = pre1 @ reload al1 v r"
    using ok None by (auto simp: preg_for_vreg_def result_simps Let_def reload_def split: option.splits)
  obtain code where c: "pre1 = pre @ code" "in_transit al1 r" "same_tables al al1"
      "took_free al r al1 code \<or> evicted protected al r al1 code"
    using alloc_preg_effect[OF iter inv a(1)] by blast
  have v1: "map_of (assigned al1) v = None" "spill_slots al1 v = spill_slots al v"
    using c(4) None by (auto simp: took_free_def evicted_def)
  have "alloc_inv al'" using record_owner[OF c(2) v1(1)] a(2) by simp
  moreover have "reload al1 v r = reload al v r" by (simp add: reload_def v1(2))
  moreover have "same_tables al al'" using c(3) a(2) by (simp add: same_tables_def)
  moreover have "slots_inv al1" using c(2) by (simp add: in_transit_def)
  ultimately show ?thesis using None a(2,3) c(1,4) by (auto simp: update_conv')
qed

lemma preg_for_vreg_succeeds:
  assumes "hash_order_ok hash_iter" "alloc_inv al" "finite protected" "card protected < 29"
  shows "\<exists>r al' pre'. preg_for_vreg hash_iter v protected (al, pre) = Inr (r, al', pre')"
proof (cases "map_of (assigned al) v")
  case None
  obtain r al1 pre1 where "alloc_preg hash_iter v protected (al, pre) = Inr (r, al1, pre1)"
    using alloc_preg_succeeds[OF assms] by blast
  then show ?thesis using None by (simp add: preg_for_vreg_def Let_def split: option.split)
qed (simp add: preg_for_vreg_def)

section \<open>Spill code on the machine\<close>

text \<open>Two eight-byte words of memory that do not overlap.\<close>

definition apart :: "i64 \<Rightarrow> i64 \<Rightarrow> bool" where
  "apart a b \<longleftrightarrow> 8 \<le> unat (a - b) \<and> 8 \<le> unat (b - a)"

text \<open>
  What the spill code relies on of the machine: a doubleword load reads the last doubleword stored
  at its address, and stores elsewhere do not disturb it.
\<close>

definition spill_memory :: "('v, 's, 'g) isa \<Rightarrow> ('s \<Rightarrow> i64 \<Rightarrow> 'v) \<Rightarrow> bool" where
  "spill_memory M lk \<longleftrightarrow>
     (\<forall>a m. stack_eff M LoadD [imm_val M a] m = (lk m a, m)) \<and>
     (\<forall>a v m. lk (snd (stack_eff M StoreD [imm_val M a, v] m)) a = v) \<and>
     (\<forall>a b v m. apart a b \<longrightarrow> lk (snd (stack_eff M StoreD [imm_val M a, v] m)) b = lk m b)"

lemma unat_diff_ge_8:
  assumes "k \<noteq> l" "k < 2 ^ 33" "l < 2 ^ 33"
  shows "8 \<le> unat ((of_nat k * 8 - of_nat l * 8) :: i64)"
proof -
  have "unat (of_nat k * 8 :: i64) = k * 8" "unat (of_nat l * 8 :: i64) = l * 8"
    using assms(2,3) by (simp_all add: unat_word_ariths unat_of_nat)
  moreover have "8 \<le> k * 8 - l * 8" if "l \<le> k" using that assms(1) by simp
  moreover have "8 \<le> k * 8 + 18446744073709551616 - l * 8" using assms(3) by simp
  ultimately show ?thesis by (simp add: unat_sub_if')
qed

lemma slots_apart:
  assumes "slots_inv al" "spill_slots al v = Some a" "spill_slots al w = Some b" "v \<noteq> w"
  shows "apart a b"
proof -
  obtain g where g: "inj_on g (dom (spill_slots al))" "unat (next_spill_slot al) = card (dom (spill_slots al))"
      "\<forall>v slot. spill_slots al v = Some slot \<longrightarrow> g v < unat (next_spill_slot al) \<and>
         slot = alloc_spill_base al + of_nat (g v) * SPILL_SLOT_BYTES"
    using assms(1) by (auto simp: slots_inv_def)
  have "g v \<noteq> g w" using g(1) assms(2-4) by (auto simp: inj_on_def)
  moreover have "g v < 2 ^ 33" "g w < 2 ^ 33"
    using g(2,3) assms(2,3) card_slots[of "spill_slots al"] by fastforce+
  moreover have "a = alloc_spill_base al + of_nat (g v) * 8" "b = alloc_spill_base al + of_nat (g w) * 8"
    using g(3) assms(2,3) by (simp_all add: SPILL_SLOT_BYTES_def)
  ultimately show ?thesis using unat_diff_ge_8[of "g v" "g w"] unat_diff_ge_8[of "g w" "g v"]
    by (simp add: apart_def)
qed

abbreviation gpr :: "u8 \<Rightarrow> reg_key" where "gpr r \<equiv> RegKey Gpr (PReg r)"

definition located :: "('s \<Rightarrow> i64 \<Rightarrow> 'v) \<Rightarrow> allocator \<Rightarrow> u32 \<Rightarrow> 'v \<Rightarrow> ('v, 's, 'g) mstate \<Rightarrow> bool" where
  "located lk al w x st \<longleftrightarrow>
     (case map_of (assigned al) w of
        Some r \<Rightarrow> rf st (gpr r) = x
      | None \<Rightarrow> (\<exists>slot. spill_slots al w = Some slot \<and> lk (stk st) slot = x))"

text \<open>Inserted code moves values between registers and slots but loses none, and touches nothing else.\<close>

definition keeps :: "('v, 's, 'g) isa \<Rightarrow> ('s \<Rightarrow> i64 \<Rightarrow> 'v) \<Rightarrow> allocator \<Rightarrow> mir_syllable list \<Rightarrow> allocator \<Rightarrow> bool" where
  "keeps M lk al code al' \<longleftrightarrow>
     (\<forall>w x st. located lk al w x st \<longrightarrow> located lk al' w x (exec M code st)) \<and>
     (\<forall>st. glob (exec M code st) = glob st \<and>
        (\<forall>n. n \<notin> set allocatable \<longrightarrow> rf (exec M code st) (gpr n) = rf st (gpr n)))"

lemma keeps_refl [simp]: "keeps M lk al [] al"
  by (simp add: keeps_def)

lemma keeps_trans: "keeps M lk al c al1 \<Longrightarrow> keeps M lk al1 d al2 \<Longrightarrow> keeps M lk al (c @ d) al2"
  by (simp add: keeps_def)

lemma exec_spill_store:
  "exec_syl M (syl StoreD None [StackV slot, RegV (PReg r)]) st =
     st\<lparr>stk := snd (stack_eff M StoreD [imm_val M slot, rf st (gpr r)] (stk st))\<rparr>"
  by (simp add: exec_syl_def src_values_def src_value_def is_memory_opcode_def memory_bucket_def
      memory_base_value_def dest_reg_key_def write_reg_def source_class_def predicate_sources_def
      units_def writes_gpr_def writes_pred_def case_prod_beta)

lemma exec_spill_load:
  assumes "spill_memory M lk" "r \<noteq> ZERO_REG"
  shows "exec_syl M (syl LoadD (Some (PReg r)) [StackV slot]) st = st\<lparr>rf := (rf st)(gpr r := lk (stk st) slot)\<rparr>"
  using assms
  by (simp add: exec_syl_def src_values_def src_value_def is_memory_opcode_def memory_bucket_def
      memory_base_value_def dest_reg_key_def write_reg_def units_def writes_gpr_def spill_memory_def)

lemma exec_reload:
  assumes "spill_memory M lk" "r \<in> set allocatable"
  shows "exec M (reload al v r) st =
    (case spill_slots al v of Some slot \<Rightarrow> st\<lparr>rf := (rf st)(gpr r := lk (stk st) slot)\<rparr> | None \<Rightarrow> st)"
proof -
  have "r \<noteq> ZERO_REG" using assms(2) fixed_not_allocatable(1) by metis
  then show ?thesis by (simp add: reload_def exec_spill_load[OF assms(1)] split: option.split)
qed

lemma keeps_spill_store:
  assumes mem: "spill_memory M lk" and "regs_inv al" "slots_inv al1"
    and ev: "map_of (assigned al) victim = Some r"
      "map_of (assigned al1) = (map_of (assigned al))(victim := None)"
      "spill_slots al1 = (spill_slots al)(victim \<mapsto> slot)"
  shows "keeps M lk al [syl StoreD None [StackV slot, RegV (PReg r)]] al1"
proof -
  let ?m = "\<lambda>st. snd (stack_eff M StoreD [imm_val M slot, rf st (gpr r)] (stk st))"
  have "located lk al1 w x (st\<lparr>stk := ?m st\<rparr>)" if "located lk al w x st" for w x and st :: "('a, 'b, 'c) mstate"
  proof (cases "w = victim")
    case True
    then show ?thesis using that mem ev by (simp add: located_def spill_memory_def)
  next
    case False
    have "lk (?m st) b = lk (stk st) b" if b: "spill_slots al w = Some b" for b
      using slots_apart[OF assms(3), of victim slot w b] False b mem ev(3) by (simp add: spill_memory_def)
    then show ?thesis using that False ev by (auto simp: located_def split: option.splits)
  qed
  then show ?thesis by (simp add: keeps_def exec_spill_store)
qed

lemma keeps_reload:
  assumes mem: "spill_memory M lk" and r: "r \<in> set allocatable" "\<forall>w. map_of (assigned al) w \<noteq> Some r"
    and v: "map_of (assigned al) v = None" "map_of (assigned al') = (map_of (assigned al))(v \<mapsto> r)"
      "spill_slots al' = spill_slots al"
  shows "keeps M lk al (reload al v r) al'"
proof -
  have "n \<noteq> r" if "n \<notin> set allocatable" for n using that r(1) by blast
  then show ?thesis
    using assms unfolding keeps_def exec_reload[OF mem r(1)] located_def
    by (auto split: option.splits)
qed

text \<open>Inserted code consists of doubleword stores to and loads from stack slots.\<close>

definition spill_only :: "mir_syllable list \<Rightarrow> bool" where
  "spill_only ss \<longleftrightarrow>
     (\<forall>s \<in> set ss. \<exists>slot r. r \<in> set allocatable \<and>
        (s = syl StoreD None [StackV slot, RegV (PReg r)] \<or> s = syl LoadD (Some (PReg r)) [StackV slot]))"

lemma spill_only_simps [simp]: "spill_only []" "spill_only (ss @ ts) \<longleftrightarrow> spill_only ss \<and> spill_only ts"
  by (auto simp: spill_only_def)

lemma spill_only_reload: "r \<in> set allocatable \<Longrightarrow> spill_only (reload al v r)"
  by (cases "spill_slots al v") (simp_all add: spill_only_def reload_def)

lemma spill_only_obtain:
  "took_free al r al1 code \<or> evicted p al r al1 code \<Longrightarrow> r \<in> set allocatable \<Longrightarrow> spill_only code"
  by (auto simp: spill_only_def took_free_def evicted_def)

lemma preg_for_vreg_keeps:
  assumes iter: "hash_order_ok hash_iter" and inv: "alloc_inv al" and mem: "spill_memory M lk"
    and ok: "preg_for_vreg hash_iter v protected (al, pre) = Inr (r, al', pre')"
  shows "\<exists>code. pre' = pre @ code \<and> spill_only code \<and> keeps M lk al code al' \<and>
    (spill_slots al v = None \<longrightarrow> (\<forall>st. rf (exec M code st) = rf st))"
proof -
  note eff = preg_for_vreg_effect[OF iter inv ok]
  have inv': "alloc_inv al'" and v': "map_of (assigned al') v = Some r" using eff by auto
  then have r: "r \<in> set allocatable" using assigned_allocatable(1) by (auto simp: alloc_inv_def)
  show ?thesis
  proof (cases "map_of (assigned al) v")
    case (Some q)
    then have "al' = al" "pre' = pre" using eff by auto
    then show ?thesis by (intro exI[of _ "[]"]) simp
  next
    case None
    then obtain code al1 where c: "pre' = pre @ code @ reload al v r"
        "took_free al r al1 code \<or> evicted protected al r al1 code"
        "map_of (assigned al') = (map_of (assigned al1))(v \<mapsto> r)" "spill_slots al' = spill_slots al1"
        "slots_inv al1"
      using eff by auto
    have r1: "\<forall>w. map_of (assigned al1) w \<noteq> Some r" and v1: "map_of (assigned al1) v = None"
        "spill_slots al1 v = spill_slots al v"
      using c(2) None assigned_allocatable(2,3) inv by (auto simp: took_free_def evicted_def alloc_inv_def split: if_splits)
    have "keeps M lk al1 (reload al1 v r) al'" by (rule keeps_reload[OF mem r r1 v1(1) c(3,4)])
    moreover have "reload al1 v r = reload al v r" by (simp add: reload_def v1(2))
    moreover have "keeps M lk al code al1 \<and> (\<forall>st. rf (exec M code st) = rf st)"
      using c(2)
    proof
      assume "took_free al r al1 code"
      then show ?thesis by (auto simp: took_free_def keeps_def located_def split: option.splits)
    next
      assume "evicted protected al r al1 code"
      then obtain victim slot where ev: "map_of (assigned al) victim = Some r"
          "code = [syl StoreD None [StackV slot, RegV (PReg r)]]"
          "map_of (assigned al1) = (map_of (assigned al))(victim := None)"
          "spill_slots al1 = (spill_slots al)(victim \<mapsto> slot)"
        by (auto simp: evicted_def)
      show ?thesis
        using keeps_spill_store[OF mem _ c(5) ev(1,3,4)] inv ev(2) by (simp add: alloc_inv_def exec_spill_store)
    qed
    ultimately have "keeps M lk al (code @ reload al v r) al' \<and>
        (spill_slots al v = None \<longrightarrow> (\<forall>st. rf (exec M (code @ reload al v r) st) = rf st))"
      using keeps_trans by (auto simp: reload_def)
    then show ?thesis using c(1,2) r spill_only_obtain spill_only_reload by (intro exI[of _ "code @ reload al v r"]) auto
  qed
qed

section \<open>Rewriting the operands\<close>

definition owners :: "allocator \<Rightarrow> u32 set" where
  "owners al = dom (map_of (assigned al)) \<union> dom (spill_slots al)"

lemma preg_for_vreg_frame:
  assumes "hash_order_ok hash_iter" "alloc_inv al"
    "preg_for_vreg hash_iter v protected (al, pre) = Inr (r, al', pre')"
  shows "alloc_inv al'" "same_tables al al'" "map_of (assigned al') v = Some r"
    "owners al' \<subseteq> insert v (owners al)"
    "w \<in> protected \<Longrightarrow> map_of (assigned al) w = Some q \<Longrightarrow> map_of (assigned al') w = Some q"
  using preg_for_vreg_effect[OF assms]
  by (auto simp: owners_def took_free_def evicted_def split: if_splits)

definition value_vregs :: "val list \<Rightarrow> u32 list" where
  "value_vregs vs = List.map_filter (\<lambda>v. case v of RegV (VReg n) \<Rightarrow> Some n | _ \<Rightarrow> None) vs"

lemma src_vregs_value: "src_vregs s = value_vregs (srcs s)"
  by (simp add: src_vregs_def value_vregs_def)

lemma value_vregs_simps [simp]:
  "value_vregs [] = []" "value_vregs (RegV (VReg n) # vs) = n # value_vregs vs"
  "value_vregs (RegV (PReg r) # vs) = value_vregs vs" "value_vregs (ImmV i # vs) = value_vregs vs"
  "value_vregs (StackV i # vs) = value_vregs vs"
  by (simp_all add: value_vregs_def map_filter_simps)

text \<open>A rewritten operand: the register that holds the virtual register, anything else unchanged.\<close>

definition operand_of :: "allocator \<Rightarrow> val \<Rightarrow> val \<Rightarrow> bool" where
  "operand_of al v v' \<longleftrightarrow>
     (case v of
        RegV (VReg n) \<Rightarrow> (\<exists>r. v' = RegV (PReg r) \<and> map_of (assigned al) n = Some r)
      | _ \<Rightarrow> v' = v)"

definition operands_rewritten ::
  "('v, 's, 'g) isa \<Rightarrow> ('s \<Rightarrow> i64 \<Rightarrow> 'v) \<Rightarrow> u32 set \<Rightarrow> val list \<Rightarrow> allocator \<Rightarrow> val list \<Rightarrow> mir_syllable list \<Rightarrow> allocator \<Rightarrow> bool" where
  "operands_rewritten M lk protected vs al vs' code al' \<longleftrightarrow>
     alloc_inv al' \<and> same_tables al al' \<and> owners al' \<subseteq> set (value_vregs vs) \<union> owners al \<and>
     (\<forall>w \<in> protected. \<forall>q. map_of (assigned al) w = Some q \<longrightarrow> map_of (assigned al') w = Some q) \<and>
     list_all2 (operand_of al') vs vs' \<and> spill_only code \<and> keeps M lk al code al'"

lemma operand_of_stable:
  assumes "operand_of al v v'" "\<And>n. v = RegV (VReg n) \<Longrightarrow> n \<in> protected"
    "\<forall>w \<in> protected. \<forall>q. map_of (assigned al) w = Some q \<longrightarrow> map_of (assigned al') w = Some q"
  shows "operand_of al' v v'"
  using assms by (auto simp: operand_of_def split: val.splits reg.splits)

lemma rewrite_value_effect:
  assumes "hash_order_ok hash_iter" "alloc_inv al" "spill_memory M lk"
    and "rewrite_value hash_iter protected v (acc, al, pre) = Inr (v', acc', al', pre')"
  shows "\<exists>code. acc' = acc @ value_vregs [v] \<and> pre' = pre @ code \<and>
    operands_rewritten M lk protected [v] al [v'] code al'"
proof (cases "\<exists>n. v = RegV (VReg n)")
  case True
  then obtain n where v: "v = RegV (VReg n)" by blast
  obtain r where p: "preg_for_vreg hash_iter n protected (al, pre) = Inr (r, al', pre')"
      "v' = RegV (PReg r)" "acc' = acc @ [n]"
    using assms(4) v by (auto simp: rewrite_value_def result_simps)
  obtain code where "pre' = pre @ code" "spill_only code" "keeps M lk al code al'"
    using preg_for_vreg_keeps[OF assms(1,2,3) p(1)] by blast
  then show ?thesis
    using preg_for_vreg_frame[OF assms(1,2) p(1)] p(2,3) v
    by (auto simp: operands_rewritten_def operand_of_def)
next
  case False
  then have "v' = v" "acc' = acc" "al' = al" "pre' = pre" "value_vregs [v] = []" "operand_of al v v"
    using assms(4) by (auto simp: rewrite_value_def operand_of_def split: val.splits reg.splits)
  then show ?thesis using assms(2) by (auto simp: operands_rewritten_def)
qed

lemma rewrite_values_effect:
  assumes "hash_order_ok hash_iter" "alloc_inv al" "spill_memory M lk" "set (value_vregs vs) \<subseteq> protected"
    and "rewrite_values hash_iter protected vs (acc, al, pre) = Inr (vs', acc', al', pre')"
  shows "\<exists>code. acc' = acc @ value_vregs vs \<and> pre' = pre @ code \<and>
    operands_rewritten M lk protected vs al vs' code al'"
  using assms(2,4,5)
proof (induction vs arbitrary: al acc pre vs')
  case Nil
  then show ?case by (auto simp: operands_rewritten_def)
next
  case (Cons v vs)
  obtain v1 acc1 al1 pre1 vs1 where
    1: "rewrite_value hash_iter protected v (acc, al, pre) = Inr (v1, acc1, al1, pre1)" and
    2: "rewrite_values hash_iter protected vs (acc1, al1, pre1) = Inr (vs1, acc', al', pre')" and
    vs': "vs' = v1 # vs1"
    using Cons.prems(3) by (auto simp: result_simps)
  obtain c1 where c1: "acc1 = acc @ value_vregs [v]" "pre1 = pre @ c1"
      "operands_rewritten M lk protected [v] al [v1] c1 al1"
    using rewrite_value_effect[OF assms(1) Cons.prems(1) assms(3) 1] by blast
  have vv: "value_vregs (v # vs) = value_vregs [v] @ value_vregs vs"
    by (cases v; cases "\<exists>r. v = RegV r") (auto simp: value_vregs_def List.map_filter_def)
  obtain c2 where c2: "acc' = acc1 @ value_vregs vs" "pre' = pre1 @ c2"
      "operands_rewritten M lk protected vs al1 vs1 c2 al'"
    using Cons.IH[OF _ _ 2] c1(3) Cons.prems(2) vv by (auto simp: operands_rewritten_def)
  have "operand_of al' v v1"
  proof (rule operand_of_stable)
    show "operand_of al1 v v1" using c1(3) by (simp add: operands_rewritten_def)
    show "n \<in> protected" if "v = RegV (VReg n)" for n using Cons.prems(2) that by simp
  qed (use c2(3) in \<open>simp add: operands_rewritten_def\<close>)
  then have "operands_rewritten M lk protected (v # vs) al vs' (c1 @ c2) al'"
    using c1(3) c2(3) vs' vv keeps_trans[of M lk al c1 al1 c2 al'] same_tables_trans
    unfolding operands_rewritten_def by auto
  then show ?case using c1(1,2) c2(1,2) vv by auto
qed

section \<open>Rewriting a syllable\<close>

lemma free_dead_source_simp:
  "free_dead_source d bi pos v (al, protected) =
     (if Some v \<noteq> d \<and> can_free_after al v bi pos then (free_vreg v al, protected - {v}) else (al, protected))"
  by (simp add: free_dead_source_def)

lemma free_dead_sources_effect:
  assumes "alloc_inv al" "fold (free_dead_source d bi pos) vs (al, protected) = (al', protected')"
  shows "alloc_inv al' \<and> same_tables al al' \<and> spill_slots al' = spill_slots al \<and> protected' \<subseteq> protected \<and>
    (\<forall>w. map_of (assigned al') w =
       (if w \<in> set vs \<and> Some w \<noteq> d \<and> can_free_after al w bi pos then None else map_of (assigned al) w))"
  using assms
proof (induction vs arbitrary: al protected)
  case (Cons v vs)
  show ?case
  proof (cases "Some v \<noteq> d \<and> can_free_after al v bi pos")
    case True
    note fr = free_vreg_inv[OF Cons.prems(1), of v]
    have "fold (free_dead_source d bi pos) vs (free_vreg v al, protected - {v}) = (al', protected')"
      using Cons.prems(2) True by (simp add: free_dead_source_simp)
    from Cons.IH[OF fr(1) this] show ?thesis
      using fr(2-4) True by (auto simp: same_tables_uses[OF fr(2)] intro: same_tables_trans)
  next
    case False
    have "fold (free_dead_source d bi pos) vs (al, protected) = (al', protected')"
      using Cons.prems(2) False by (simp only: fold_simps free_dead_source_simp if_False comp_apply)
    from Cons.IH[OF Cons.prems(1) this] show ?thesis using False by auto
  qed
qed simp

text \<open>The pieces of a rewritten syllable: operand code, destination code, the syllable itself.\<close>

lemma rewrite_syllable_cases:
  assumes "rewrite_syllable hash_iter bi pos al s = Inr (out, al')"
  obtains srcs' vregs al1 pre1 al2 prot where
    "rewrite_values hash_iter (set (src_vregs s)) (srcs s) ([], al, []) = Inr (srcs', vregs, al1, pre1)"
    "fold (free_dead_source (dst_vreg s) bi pos) vregs (al1, set (src_vregs s)) = (al2, prot)"
    "(\<exists>v r al3 pre3. dst s = Some (VReg v) \<and>
        preg_for_vreg hash_iter v prot (al2, pre1) = Inr (r, al3, pre3) \<and>
        al' = (if \<not> has_later_block_use al3 v bi pos \<and> \<not> is_live_out al3 v bi then free_vreg v al3 else al3) \<and>
        out = pre3 @ [syl (opc s) (Some (PReg r)) srcs']) \<or>
     dst_vreg s = None \<and> al' = al2 \<and> out = pre1 @ [syl (opc s) (dst s) srcs']"
proof -
  obtain srcs' vregs al1 pre1 where
    1: "rewrite_values hash_iter (set (src_vregs s)) (srcs s) ([], al, []) = Inr (srcs', vregs, al1, pre1)"
    using assms by (auto simp: rewrite_syllable_def Let_def result_simps)
  obtain al2 prot where 2: "fold (free_dead_source (dst_vreg s) bi pos) vregs (al1, set (src_vregs s)) = (al2, prot)"
    by fastforce
  show ?thesis
  proof (rule that[OF 1 2])
    show "(\<exists>v r al3 pre3. dst s = Some (VReg v) \<and>
        preg_for_vreg hash_iter v prot (al2, pre1) = Inr (r, al3, pre3) \<and>
        al' = (if \<not> has_later_block_use al3 v bi pos \<and> \<not> is_live_out al3 v bi then free_vreg v al3 else al3) \<and>
        out = pre3 @ [syl (opc s) (Some (PReg r)) srcs']) \<or>
     dst_vreg s = None \<and> al' = al2 \<and> out = pre1 @ [syl (opc s) (dst s) srcs']"
    proof (cases "\<exists>v. dst s = Some (VReg v)")
      case True
      then obtain v where v: "dst s = Some (VReg v)" by blast
      then obtain r al3 pre3 where "preg_for_vreg hash_iter v prot (al2, pre1) = Inr (r, al3, pre3)"
        using assms 1 2 by (auto simp: rewrite_syllable_def Let_def result_simps)
      then show ?thesis using assms 1 2 v by (simp add: rewrite_syllable_def Let_def)
    next
      case False
      then show ?thesis
        using assms 1 2
        by (auto simp: rewrite_syllable_def Let_def dst_vreg_def split: option.splits reg.splits)
    qed
  qed
qed

lemma rewrite_values_succeeds:
  assumes "hash_order_ok hash_iter" "alloc_inv al" "finite protected" "card protected < 29"
  shows "\<exists>vs' acc' al' pre'. rewrite_values hash_iter protected vs (acc, al, pre) = Inr (vs', acc', al', pre') \<and> alloc_inv al'"
  using assms(2)
proof (induction vs arbitrary: al acc pre)
  case (Cons v vs)
  have "\<exists>v' acc' al' pre'. rewrite_value hash_iter protected v (acc, al, pre) = Inr (v', acc', al', pre') \<and> alloc_inv al'"
  proof (cases "\<exists>n. v = RegV (VReg n)")
    case True
    then obtain n r al1 pre1 where "v = RegV (VReg n)" "preg_for_vreg hash_iter n protected (al, pre) = Inr (r, al1, pre1)"
      using preg_for_vreg_succeeds[OF assms(1) Cons.prems assms(3,4)] by blast
    then show ?thesis using preg_for_vreg_frame(1)[OF assms(1) Cons.prems] by (simp add: rewrite_value_def)
  next
    case False
    then show ?thesis using Cons.prems by (auto simp: rewrite_value_def split: val.splits reg.splits)
  qed
  then obtain v' acc1 al1 pre1 where
    1: "rewrite_value hash_iter protected v (acc, al, pre) = Inr (v', acc1, al1, pre1)" "alloc_inv al1" by blast
  show ?case using Cons.IH[OF 1(2), of acc1 pre1] 1(1) by auto
qed simp

lemma rewrite_syllable_succeeds:
  assumes "hash_order_ok hash_iter" "alloc_inv al" "card (set (src_vregs s)) < 29"
  shows "\<exists>out al'. rewrite_syllable hash_iter bi pos al s = Inr (out, al')"
proof -
  obtain srcs' vregs al1 pre1 where
    1: "rewrite_values hash_iter (set (src_vregs s)) (srcs s) ([], al, []) = Inr (srcs', vregs, al1, pre1)" "alloc_inv al1"
    using rewrite_values_succeeds[OF assms(1,2) _ assms(3)] by blast
  obtain al2 prot where 2: "fold (free_dead_source (dst_vreg s) bi pos) vregs (al1, set (src_vregs s)) = (al2, prot)"
    by fastforce
  have 3: "alloc_inv al2" "prot \<subseteq> set (src_vregs s)" using free_dead_sources_effect[OF 1(2) 2] by auto
  then have "finite prot" "card prot < 29"
    using assms(3) finite_subset card_mono[of "set (src_vregs s)" prot] by auto
  then have p: "\<exists>r al3 pre3. preg_for_vreg hash_iter v prot (al2, pre1) = Inr (r, al3, pre3)" for v
    using preg_for_vreg_succeeds[OF assms(1) 3(1)] by blast
  show ?thesis
  proof (cases "\<exists>v. dst s = Some (VReg v)")
    case True
    then obtain v where v: "dst s = Some (VReg v)" by blast
    obtain r al3 pre3 where "preg_for_vreg hash_iter v prot (al2, pre1) = Inr (r, al3, pre3)" using p by blast
    then show ?thesis using 1(1) 2 v by (simp add: rewrite_syllable_def Let_def)
  next
    case False
    then show ?thesis using 1(1) 2 by (simp add: rewrite_syllable_def Let_def split: option.split reg.split)
  qed
qed

text \<open>
  For facts that do not depend on what the code computes, a machine with a single value will do.
\<close>

definition unit_isa :: "(unit, unit, unit) isa" where
  "unit_isa = \<lparr>imm_val = (\<lambda>_. ()), alu_eff = (\<lambda>_ _. ()), stack_eff = (\<lambda>_ _ m. ((), m)),
     global_eff = (\<lambda>_ _ m. ((), m)), unknown_eff = (\<lambda>_ _ m. ((), m))\<rparr>"

lemma spill_memory_unit: "spill_memory unit_isa (\<lambda>_ _. ())"
  by (simp add: spill_memory_def unit_isa_def)

text \<open>The rewritten form of a syllable: the same opcode over allocatable registers, after spill code.\<close>

definition renamed :: "val \<Rightarrow> val \<Rightarrow> bool" where
  "renamed v v' \<longleftrightarrow> (case v of RegV (VReg _) \<Rightarrow> (\<exists>r \<in> set allocatable. v' = RegV (PReg r)) | _ \<Rightarrow> v' = v)"

definition renamed_dst :: "reg option \<Rightarrow> reg option \<Rightarrow> bool" where
  "renamed_dst d d' \<longleftrightarrow>
     (case d of Some (VReg _) \<Rightarrow> (\<exists>r \<in> set allocatable. d' = Some (PReg r)) | _ \<Rightarrow> d' = d)"

definition rewritten :: "mir_syllable \<Rightarrow> mir_syllable list \<Rightarrow> bool" where
  "rewritten s out \<longleftrightarrow>
     (\<exists>pre s'. out = pre @ [s'] \<and> spill_only pre \<and> opc s' = opc s \<and> renamed_dst (dst s) (dst s') \<and>
        list_all2 renamed (srcs s) (srcs s'))"

lemma operand_of_renamed: "regs_inv al \<Longrightarrow> operand_of al v v' \<Longrightarrow> renamed v v'"
  by (auto simp: operand_of_def renamed_def dest: assigned_allocatable(1) split: val.splits reg.splits)

lemma rewrite_syllable_struct:
  assumes iter: "hash_order_ok hash_iter" and inv: "alloc_inv al"
    and ok: "rewrite_syllable hash_iter bi pos al s = Inr (out, al')"
  shows "alloc_inv al' \<and> same_tables al al' \<and> rewritten s out"
proof -
  from ok obtain srcs' vregs al1 pre1 al2 prot where
    1: "rewrite_values hash_iter (set (src_vregs s)) (srcs s) ([], al, []) = Inr (srcs', vregs, al1, pre1)" and
    2: "fold (free_dead_source (dst_vreg s) bi pos) vregs (al1, set (src_vregs s)) = (al2, prot)" and
    3: "(\<exists>v r al3 pre3. dst s = Some (VReg v) \<and>
        preg_for_vreg hash_iter v prot (al2, pre1) = Inr (r, al3, pre3) \<and>
        al' = (if \<not> has_later_block_use al3 v bi pos \<and> \<not> is_live_out al3 v bi then free_vreg v al3 else al3) \<and>
        out = pre3 @ [syl (opc s) (Some (PReg r)) srcs']) \<or>
     dst_vreg s = None \<and> al' = al2 \<and> out = pre1 @ [syl (opc s) (dst s) srcs']"
    by (rule rewrite_syllable_cases)
  have 1: "operands_rewritten unit_isa (\<lambda>_ _. ()) (set (src_vregs s)) (srcs s) al srcs' pre1 al1"
    using rewrite_values_effect[OF iter inv spill_memory_unit _ 1] by (auto simp: src_vregs_value)
  then have al1: "alloc_inv al1" "same_tables al al1" "spill_only pre1" "list_all2 renamed (srcs s) srcs'"
    by (auto simp: operands_rewritten_def alloc_inv_def elim: list_all2_mono intro: operand_of_renamed)
  have al2: "alloc_inv al2" "same_tables al al2"
    using free_dead_sources_effect[OF al1(1) 2] al1(2) same_tables_trans by auto
  from 3 show ?thesis
  proof (elim disjE exE conjE)
    fix v r al3 pre3
    assume p: "dst s = Some (VReg v)" "preg_for_vreg hash_iter v prot (al2, pre1) = Inr (r, al3, pre3)"
      and al': "al' = (if \<not> has_later_block_use al3 v bi pos \<and> \<not> is_live_out al3 v bi then free_vreg v al3 else al3)"
      and out: "out = pre3 @ [syl (opc s) (Some (PReg r)) srcs']"
    note fr = preg_for_vreg_frame[OF iter al2(1) p(2)]
    have "r \<in> set allocatable" using fr(1,3) assigned_allocatable(1) by (auto simp: alloc_inv_def)
    moreover obtain code where "pre3 = pre1 @ code" "spill_only code"
      using preg_for_vreg_keeps[OF iter al2(1) spill_memory_unit p(2)] by blast
    ultimately have "rewritten s out" using out al1(3,4) p(1) by (auto simp: rewritten_def renamed_dst_def)
    moreover have "alloc_inv al'" "same_tables al3 al'"
      using al' fr(1) free_vreg_inv(1,2)[OF fr(1), of v] by simp_all
    moreover have "same_tables al al3" using al2(2) fr(2) by (rule same_tables_trans)
    ultimately show ?thesis using same_tables_trans by blast
  next
    assume "dst_vreg s = None" "al' = al2" "out = pre1 @ [syl (opc s) (dst s) srcs']"
    then show ?thesis
      using al1(3,4) al2
      by (auto simp: rewritten_def renamed_dst_def dst_vreg_def split: option.splits reg.splits)
  qed
qed

lemma rewrite_syllables_struct:
  assumes "hash_order_ok hash_iter" "alloc_inv al"
    and "rewrite_syllables hash_iter bi pos al ss = Inr (out, al')"
  shows "alloc_inv al' \<and> same_tables al al' \<and> (\<exists>outs. out = concat outs \<and> list_all2 rewritten ss outs)"
  using assms(2,3)
proof (induction ss arbitrary: al pos out)
  case (Cons s ss)
  obtain out1 al1 out2 where 1: "rewrite_syllable hash_iter bi pos al s = Inr (out1, al1)"
      "rewrite_syllables hash_iter bi (pos + 1) al1 ss = Inr (out2, al')" "out = out1 @ out2"
    using Cons.prems(2) by (auto simp: result_simps)
  note s1 = rewrite_syllable_struct[OF assms(1) Cons.prems(1) 1(1)]
  then obtain outs where "alloc_inv al'" "same_tables al1 al'" "out2 = concat outs" "list_all2 rewritten ss outs"
    using Cons.IH[OF _ 1(2)] by blast
  then show ?case using s1 1(3) same_tables_trans by (intro conjI exI[of _ "out1 # outs"]) auto
qed simp

lemma rewrite_syllables_succeeds:
  assumes "hash_order_ok hash_iter" "alloc_inv al" "\<forall>s \<in> set ss. card (set (src_vregs s)) < 29"
  shows "\<exists>out al'. rewrite_syllables hash_iter bi pos al ss = Inr (out, al')"
  using assms(2,3)
proof (induction ss arbitrary: al pos)
  case (Cons s ss)
  obtain out1 al1 where 1: "rewrite_syllable hash_iter bi pos al s = Inr (out1, al1)"
    using rewrite_syllable_succeeds[OF assms(1) Cons.prems(1)] Cons.prems(2) by fastforce
  then have "alloc_inv al1" using rewrite_syllable_struct[OF assms(1) Cons.prems(1)] by blast
  then show ?case using Cons.IH[of al1 "pos + 1"] Cons.prems(2) 1 by auto
qed simp

section \<open>Rewriting a function\<close>

definition renamed_terminator :: "terminator \<Rightarrow> terminator \<Rightarrow> bool" where
  "renamed_terminator t t' \<longleftrightarrow>
     (case t of
        BranchT (VReg _) l \<Rightarrow> (\<exists>r \<in> set allocatable. t' = BranchT (PReg r) l)
      | _ \<Rightarrow> t' = t)"

text \<open>A rewritten block: each syllable in its rewritten form, spill code before the terminator.\<close>

definition rewritten_block :: "block \<Rightarrow> block \<Rightarrow> bool" where
  "rewritten_block b b' \<longleftrightarrow>
     label b' = label b \<and> renamed_terminator (terminator b) (terminator b') \<and>
     (\<exists>outs pre. syllables b' = concat outs @ pre \<and> spill_only pre \<and> list_all2 rewritten (syllables b) outs)"

lemma rewrite_terminator_struct:
  assumes iter: "hash_order_ok hash_iter" and inv: "alloc_inv al"
  shows "\<exists>pre t' al'. rewrite_terminator hash_iter bi pos al t = Inr (pre, t', al') \<and>
    alloc_inv al' \<and> same_tables al al' \<and> spill_only pre \<and> renamed_terminator t t'"
proof (cases "\<exists>v l. t = BranchT (VReg v) l")
  case True
  then obtain v l where t: "t = BranchT (VReg v) l" by blast
  obtain r al1 pre1 where p: "preg_for_vreg hash_iter v {v} (al, []) = Inr (r, al1, pre1)"
    using preg_for_vreg_succeeds[OF iter inv, of "{v}"] by fastforce
  note fr = preg_for_vreg_frame[OF iter inv p]
  have "spill_only pre1" using preg_for_vreg_keeps[OF iter inv spill_memory_unit p] by auto
  moreover have "r \<in> set allocatable" using fr(1,3) assigned_allocatable(1) by (auto simp: alloc_inv_def)
  ultimately show ?thesis
    using t p fr(1,2) free_vreg_inv(1,2)[OF fr(1), of v] same_tables_trans[OF fr(2)]
    by (simp add: rewrite_terminator_def renamed_terminator_def Let_def)
next
  case False
  then show ?thesis
    using inv by (cases t) (auto simp: rewrite_terminator_def renamed_terminator_def split: reg.splits)
qed

lemma rewrite_block_struct:
  assumes iter: "hash_order_ok hash_iter" and inv: "alloc_inv al"
    and ok: "rewrite_block hash_iter bi pos al b = Inr (b', pos', al')"
  shows "alloc_inv al' \<and> same_tables al al' \<and> pos' = pos + length (syllables b) + 1 \<and> rewritten_block b b'"
proof -
  obtain out al1 pre t where 1: "rewrite_syllables hash_iter bi pos al (syllables b) = Inr (out, al1)"
    and 2: "rewrite_terminator hash_iter bi (pos + length (syllables b)) al1 (terminator b) = Inr (pre, t, al')"
    and b': "b' = \<lparr>label = label b, syllables = out @ pre, terminator = t\<rparr>" "pos' = pos + length (syllables b) + 1"
    using ok by (auto simp: rewrite_block_def result_simps Let_def)
  note s1 = rewrite_syllables_struct[OF iter inv 1]
  then have "alloc_inv al'" "same_tables al1 al'" "spill_only pre" "renamed_terminator (terminator b) t"
    using rewrite_terminator_struct[OF iter, of al1 bi "pos + length (syllables b)" "terminator b"] 2 by auto
  then show ?thesis using s1 b' same_tables_trans by (auto simp: rewritten_block_def)
qed

lemma rewrite_blocks_struct:
  assumes "hash_order_ok hash_iter" "alloc_inv al" "rewrite_blocks hash_iter bi pos al bs = Inr (bs', al')"
  shows "list_all2 rewritten_block bs bs'"
  using assms(2,3)
proof (induction bs arbitrary: al bi pos bs')
  case (Cons b bs)
  obtain b1 pos1 al1 bs1 where 1: "rewrite_block hash_iter bi pos al b = Inr (b1, pos1, al1)"
      "rewrite_blocks hash_iter (bi + 1) pos1 al1 bs = Inr (bs1, al')" "bs' = b1 # bs1"
    using Cons.prems(2) by (auto simp: result_simps)
  then show ?case
    using rewrite_block_struct[OF assms(1) Cons.prems(1) 1(1)] Cons.IH[OF _ 1(2)] by simp
qed simp

lemma rewrite_blocks_succeeds:
  assumes "hash_order_ok hash_iter" "alloc_inv al"
    and "\<forall>b \<in> set bs. \<forall>s \<in> set (syllables b). card (set (src_vregs s)) < 29"
  shows "\<exists>bs' al'. rewrite_blocks hash_iter bi pos al bs = Inr (bs', al')"
  using assms(2,3)
proof (induction bs arbitrary: al bi pos)
  case (Cons b bs)
  obtain out al1 where 1: "rewrite_syllables hash_iter bi pos al (syllables b) = Inr (out, al1)"
    using rewrite_syllables_succeeds[OF assms(1) Cons.prems(1)] Cons.prems(2) by fastforce
  then have "alloc_inv al1" using rewrite_syllables_struct[OF assms(1) Cons.prems(1)] by blast
  then obtain pre t al2 where 2:
    "rewrite_terminator hash_iter bi (pos + length (syllables b)) al1 (terminator b) = Inr (pre, t, al2)" "alloc_inv al2"
    using rewrite_terminator_struct[OF assms(1)] by blast
  then show ?case
    using Cons.IH[OF 2(2), of "bi + 1" "pos + length (syllables b) + 1"] Cons.prems(2) 1
    by (auto simp: rewrite_block_def Let_def)
qed simp

lemma spill_only_virtual_free: "spill_only ss \<Longrightarrow> s \<in> set ss \<Longrightarrow> src_vregs s = [] \<and> dst_vreg s = None"
  by (auto simp: spill_only_def src_vregs_def dst_vreg_def map_filter_simps)

lemma renamed_no_vregs: "list_all2 renamed vs vs' \<Longrightarrow> value_vregs vs' = []"
  by (induction rule: list_all2_induct) (auto simp: renamed_def split: val.splits reg.splits)

lemma renamed_dst_no_vreg: "renamed_dst (dst s) (dst s') \<Longrightarrow> dst_vreg s' = None"
  by (cases "dst s") (auto simp: renamed_dst_def dst_vreg_def split: reg.splits)

lemma rewritten_virtual_free:
  assumes "rewritten s out" "s' \<in> set out"
  shows "src_vregs s' = [] \<and> dst_vreg s' = None"
proof -
  obtain pre t where t: "out = pre @ [t]" "spill_only pre" "renamed_dst (dst s) (dst t)"
      "list_all2 renamed (srcs s) (srcs t)"
    using assms(1) by (auto simp: rewritten_def)
  then consider "s' \<in> set pre" | "s' = t" using assms(2) by auto
  then show ?thesis
    using t spill_only_virtual_free renamed_no_vregs renamed_dst_no_vreg
    by cases (auto simp: src_vregs_value)
qed

lemma rewritten_block_virtual_free:
  assumes "rewritten_block b b'"
  shows "term_vreg (terminator b') = None \<and> (\<forall>s \<in> set (syllables b'). src_vregs s = [] \<and> dst_vreg s = None)"
proof -
  obtain outs pre where o: "syllables b' = concat outs @ pre" "spill_only pre" "list_all2 rewritten (syllables b) outs"
    and t: "renamed_terminator (terminator b) (terminator b')"
    using assms by (auto simp: rewritten_block_def)
  have "term_vreg (terminator b') = None"
    using t by (auto simp: renamed_terminator_def term_vreg_def split: terminator.splits reg.splits)
  moreover have "src_vregs s = [] \<and> dst_vreg s = None" if "s \<in> set out" "out \<in> set outs" for s out
    using o(3) that rewritten_virtual_free by (metis in_set_conv_nth list_all2_conv_all_nth)
  ultimately show ?thesis using o(1,2) spill_only_virtual_free by auto
qed

section \<open>Straight-line code computes the same\<close>

text \<open>
  Memory accesses through registers do not reach the spill area, and their effect does not depend
  on it: the program's own objects live elsewhere.
\<close>

definition heap_machine :: "('v, 's, 'g) isa \<Rightarrow> (opcode \<Rightarrow> 'v list \<Rightarrow> 'g \<Rightarrow> 'v \<times> 'g) \<Rightarrow> bool" where
  "heap_machine M h \<longleftrightarrow> (\<forall>op vs m g. unknown_eff M op vs (m, g) = (fst (h op vs g), m, snd (h op vs g)))"

text \<open>
  Syllables over general-purpose registers, whose fixed registers are outside the allocatable range
  and that do not themselves address the stack.
\<close>

definition plain_syllable :: "mir_syllable \<Rightarrow> bool" where
  "plain_syllable s \<longleftrightarrow>
     source_class (opc s) = Gpr \<and> \<not> writes_pred (opc s) \<and>
     (\<forall>v. dst s = Some (VReg v) \<longrightarrow> writes_gpr (opc s)) \<and>
     (\<forall>r. RegV (PReg r) \<in> set (srcs s) \<longrightarrow> r \<notin> set allocatable) \<and>
     (\<forall>r. dst s = Some (PReg r) \<longrightarrow> r \<notin> set allocatable) \<and>
     (is_memory_opcode (opc s) \<longrightarrow> memory_bucket s \<noteq> StackB)"

definition agree :: "('s \<Rightarrow> i64 \<Rightarrow> 'v) \<Rightarrow> allocator \<Rightarrow> u32 set \<Rightarrow> ('v, 's, 'g) mstate \<Rightarrow> ('v, 's, 'g) mstate \<Rightarrow> bool" where
  "agree lk al N st st' \<longleftrightarrow>
     glob st' = glob st \<and> (\<forall>n. n \<notin> set allocatable \<longrightarrow> rf st' (gpr n) = rf st (gpr n)) \<and>
     (\<forall>v \<in> N. located lk al v (rf st (RegKey Gpr (VReg v))) st')"

lemma agree_keeps: "agree lk al N st st' \<Longrightarrow> keeps M lk al code al' \<Longrightarrow> agree lk al' N st (exec M code st')"
  by (auto simp: agree_def keeps_def)

lemma agree_same_place:
  assumes "agree lk al N st st'" "N' \<subseteq> N" "spill_slots al' = spill_slots al"
    and "\<And>w. w \<in> N' \<Longrightarrow> map_of (assigned al') w = map_of (assigned al) w"
  shows "agree lk al' N' st st'"
proof -
  have "located lk al' w x st' = located lk al w x st'" if "w \<in> N'" for w x
    using that assms(3,4) by (simp add: located_def split: option.split)
  then show ?thesis using assms(1,2) by (auto simp: agree_def)
qed

lemma operand_bucket:
  "list_all2 (operand_of al) (srcs s) vs' \<Longrightarrow> memory_bucket (syl (opc s) d vs') = memory_bucket s"
  by (cases "srcs s"; cases vs')
    (auto simp: memory_bucket_def memory_base_value_def operand_of_def split: val.splits reg.splits)

lemma operand_values:
  assumes "list_all2 (operand_of al) (srcs s) vs'" "agree lk al N st st'" "set (src_vregs s) \<subseteq> N" "plain_syllable s"
  shows "src_values M (rf st') (syl (opc s) d vs') = src_values M (rf st) s"
proof -
  have "src_value M (rf st') (opc s) v' = src_value M (rf st) (opc s) v"
    if v: "operand_of al v v'" "v \<in> set (srcs s)" for v v'
  proof (cases "\<exists>n. v = RegV (VReg n)")
    case True
    then obtain n r where n: "v = RegV (VReg n)" "v' = RegV (PReg r)" "map_of (assigned al) n = Some r"
      using v(1) by (auto simp: operand_of_def)
    then have "n \<in> N" using v(2) assms(3) by (auto simp: set_src_vregs)
    then show ?thesis
      using n assms(2,4) by (auto simp: agree_def located_def src_value_def plain_syllable_def)
  next
    case False
    then have "v' = v" using v(1) by (auto simp: operand_of_def split: val.splits reg.splits)
    moreover have "(\<exists>r. v = RegV (PReg r)) \<or> (\<exists>i. v = ImmV i) \<or> (\<exists>i. v = StackV i)"
      using False by (metis reg.exhaust val.exhaust)
    ultimately show ?thesis
      using v(2) assms(2,4) by (auto simp: src_value_def agree_def plain_syllable_def)
  qed
  then have "map (src_value M (rf st') (opc s)) vs' = map (src_value M (rf st) (opc s)) (srcs s)"
    using assms(1) by (auto simp: list_all2_conv_all_nth intro!: nth_equalityI)
  then show ?thesis by (simp add: src_values_def)
qed

lemma exec_syl_parallel:
  assumes "heap_machine M h" "plain_syllable s" "opc s' = opc s" "memory_bucket s' = memory_bucket s"
    "src_values M (rf st') s' = src_values M (rf st) s" "glob st' = glob st"
  shows "\<exists>x. rf (exec_syl M s st) = write_reg (dest_reg_key s) x (rf st) \<and>
    rf (exec_syl M s' st') = write_reg (dest_reg_key s') x (rf st') \<and>
    glob (exec_syl M s' st') = glob (exec_syl M s st) \<and> stk (exec_syl M s' st') = stk st'"
  using assms
  by (auto simp: exec_syl_def Let_def heap_machine_def plain_syllable_def split: mem_bucket.splits prod.splits)

text \<open>Which values survive the syllable: operands still needed, and the result if it is used.\<close>

definition survives :: "allocator \<Rightarrow> nat \<Rightarrow> nat \<Rightarrow> mir_syllable \<Rightarrow> u32 set \<Rightarrow> u32 \<Rightarrow> bool" where
  "survives al bi pos s N w \<longleftrightarrow>
     w \<in> N \<and> dst_vreg s \<noteq> Some w \<and> \<not> (w \<in> set (src_vregs s) \<and> can_free_after al w bi pos) \<or>
     dst_vreg s = Some w \<and> (has_later_block_use al w bi pos \<or> is_live_out al w bi)"

lemma located_write:
  assumes "located lk al w x st" "rf st' = write_reg k y (rf st)" "stk st' = stk st"
    and "\<And>q. map_of (assigned al) w = Some q \<Longrightarrow> k \<noteq> Some (gpr q)"
  shows "located lk al w x st'"
  using assms by (auto simp: located_def write_reg_def split: option.splits)

lemma agree_fixed_dst:
  assumes ag: "agree lk al2 N st st2" and inv: "alloc_inv al2" and plain: "plain_syllable s" and d: "dst_vreg s = None"
    and ex: "rf (exec_syl M s st) = write_reg (dest_reg_key s) x (rf st)"
      "rf st3 = write_reg (dest_reg_key s) x (rf st2)" "glob st3 = glob (exec_syl M s st)" "stk st3 = stk st2"
  shows "agree lk al2 N (exec_syl M s st) st3"
proof -
  have k: "dest_reg_key s = Some k \<Longrightarrow> \<exists>n. k = gpr n \<and> n \<notin> set allocatable" for k
    using plain d by (auto simp: dest_reg_key_def plain_syllable_def dst_vreg_def split: if_splits option.splits reg.splits)
  have "located lk al2 v (rf (exec_syl M s st) (RegKey Gpr (VReg v))) st3" if "v \<in> N" for v
  proof (rule located_write[OF _ ex(2,4)])
    have "rf (exec_syl M s st) (RegKey Gpr (VReg v)) = rf st (RegKey Gpr (VReg v))"
      using k by (auto simp: ex(1) write_reg_def split: option.splits)
    then show "located lk al2 v (rf (exec_syl M s st) (RegKey Gpr (VReg v))) st2"
      using ag that by (simp add: agree_def)
    show "dest_reg_key s \<noteq> Some (gpr q)" if "map_of (assigned al2) v = Some q" for q
      using k assigned_allocatable(1) inv that by (auto simp: alloc_inv_def)
  qed
  moreover have "rf st3 (gpr n) = rf (exec_syl M s st) (gpr n)" if "n \<notin> set allocatable" for n
    using ag that by (auto simp: ex(1,2) agree_def write_reg_def split: option.splits)
  ultimately show ?thesis using ex(3) by (simp add: agree_def)
qed

lemma agree_virtual_dst:
  assumes ag: "agree lk al3 N st st2" and inv: "alloc_inv al3" and v: "map_of (assigned al3) v = Some r" "v \<notin> N"
    and ex: "rf (exec_syl M s st) = write_reg (Some (RegKey Gpr (VReg v))) x (rf st)"
      "rf st3 = write_reg (Some (gpr r)) x (rf st2)" "glob st3 = glob (exec_syl M s st)" "stk st3 = stk st2"
  shows "agree lk al3 (insert v N) (exec_syl M s st) st3"
proof -
  have r: "r \<in> set allocatable" using inv v(1) assigned_allocatable(1) by (auto simp: alloc_inv_def)
  then have r0: "r \<noteq> ZERO_REG" using fixed_not_allocatable(1) by metis
  have "located lk al3 w (rf (exec_syl M s st) (RegKey Gpr (VReg w))) st3" if "w \<in> N" for w
  proof (rule located_write[OF _ ex(2,4)])
    show "located lk al3 w (rf (exec_syl M s st) (RegKey Gpr (VReg w))) st2"
      using ag that v(2) by (auto simp: agree_def ex(1) write_reg_def)
    show "Some (gpr r) \<noteq> Some (gpr q)" if q: "map_of (assigned al3) w = Some q" for q
      using assigned_allocatable(3) inv v q \<open>w \<in> N\<close> by (auto simp: alloc_inv_def)
  qed
  moreover have "located lk al3 v (rf (exec_syl M s st) (RegKey Gpr (VReg v))) st3"
    using v(1) r0 by (simp add: located_def ex(1,2) write_reg_def)
  moreover have "rf st3 (gpr n) = rf (exec_syl M s st) (gpr n)" if "n \<notin> set allocatable" for n
    using ag that r by (auto simp: ex(1,2) agree_def write_reg_def)
  ultimately show ?thesis using ex(3) by (simp add: agree_def)
qed

lemma agree_free: "agree lk al N st st' \<Longrightarrow> alloc_inv al \<Longrightarrow> v \<notin> N \<Longrightarrow> agree lk (free_vreg v al) N st st'"
  by (rule agree_same_place) (auto simp: free_vreg_inv)

text \<open>A syllable whose virtual destination gets a register, possibly by spilling another one.\<close>

lemma assigned_dst_agree:
  assumes "hash_order_ok hash_iter" "alloc_inv al" "spill_memory M lk" "heap_machine M h" "plain_syllable s"
    and "dst s = Some (VReg v)" "preg_for_vreg hash_iter v prot (al, pre) = Inr (r, al', pre')" "spill_slots al v = None"
    and "agree lk al S st (exec M pre st')" "v \<notin> S"
    and "src_values M (rf (exec M pre st')) (syl (opc s) (Some (PReg r)) srcs') = src_values M (rf st) s"
    and "memory_bucket (syl (opc s) (Some (PReg r)) srcs') = memory_bucket s"
  shows "agree lk al' (insert v S) (exec_syl M s st) (exec M (pre' @ [syl (opc s) (Some (PReg r)) srcs']) st')"
proof -
  let ?st1 = "exec M pre st'" and ?s = "syl (opc s) (Some (PReg r)) srcs'"
  note pf = preg_for_vreg_frame[OF assms(1,2,7)]
  obtain code where code: "pre' = pre @ code" "keeps M lk al code al'" "rf (exec M code ?st1) = rf ?st1"
    using preg_for_vreg_keeps[OF assms(1-3,7)] assms(8) by auto
  let ?st2 = "exec M code ?st1"
  have ag: "agree lk al' S st ?st2" using assms(9) code(2) by (rule agree_keeps)
  obtain x where x: "rf (exec_syl M s st) = write_reg (dest_reg_key s) x (rf st)"
      "rf (exec_syl M ?s ?st2) = write_reg (dest_reg_key ?s) x (rf ?st2)"
      "glob (exec_syl M ?s ?st2) = glob (exec_syl M s st)" "stk (exec_syl M ?s ?st2) = stk ?st2"
    using exec_syl_parallel[OF assms(4,5), of ?s ?st2 st] assms(11,12) code(3) ag by (auto simp: agree_def)
  have keys: "dest_reg_key s = Some (RegKey Gpr (VReg v))" "dest_reg_key ?s = Some (gpr r)"
    using assms(5,6) by (simp_all add: dest_reg_key_def plain_syllable_def)
  show ?thesis
    using agree_virtual_dst[OF ag pf(1,3) _ x(1)[unfolded keys] x(2)[unfolded keys] x(3,4)] assms(10) by (simp add: code(1))
qed

lemma rewrite_syllable_agree:
  assumes iter: "hash_order_ok hash_iter" and inv: "alloc_inv al"
    and mem: "spill_memory M lk" and heap: "heap_machine M h" and plain: "plain_syllable s"
    and ag: "agree lk al N st st'" and src: "set (src_vregs s) \<subseteq> N"
    and fresh: "\<And>v. dst_vreg s = Some v \<Longrightarrow> v \<notin> owners al \<and> v \<notin> N"
    and ok: "rewrite_syllable hash_iter bi pos al s = Inr (out, al')"
  shows "agree lk al' {w. survives al bi pos s N w} (exec_syl M s st) (exec M out st')"
proof -
  from ok obtain srcs' vregs al1 pre1 al2 prot where
    1: "rewrite_values hash_iter (set (src_vregs s)) (srcs s) ([], al, []) = Inr (srcs', vregs, al1, pre1)" and
    2: "fold (free_dead_source (dst_vreg s) bi pos) vregs (al1, set (src_vregs s)) = (al2, prot)" and
    3: "(\<exists>v r al3 pre3. dst s = Some (VReg v) \<and>
        preg_for_vreg hash_iter v prot (al2, pre1) = Inr (r, al3, pre3) \<and>
        al' = (if \<not> has_later_block_use al3 v bi pos \<and> \<not> is_live_out al3 v bi then free_vreg v al3 else al3) \<and>
        out = pre3 @ [syl (opc s) (Some (PReg r)) srcs']) \<or>
     dst_vreg s = None \<and> al' = al2 \<and> out = pre1 @ [syl (opc s) (dst s) srcs']"
    by (rule rewrite_syllable_cases)
  have vregs: "vregs = src_vregs s" and 1: "operands_rewritten M lk (set (src_vregs s)) (srcs s) al srcs' pre1 al1"
    using rewrite_values_effect[OF iter inv mem _ 1] by (auto simp: src_vregs_value)
  note op1 = 1[unfolded operands_rewritten_def]
  let ?st1 = "exec M pre1 st'"
  have ag1: "agree lk al1 N st ?st1" using ag op1 agree_keeps by blast
  have vals: "src_values M (rf ?st1) (syl (opc s) d srcs') = src_values M (rf st) s" for d
    using op1 operand_values[OF _ ag1 src plain] by blast
  have bucket: "memory_bucket (syl (opc s) d srcs') = memory_bucket s" for d
    using op1 operand_bucket by blast
  have inv1: "alloc_inv al1" "same_tables al al1" using op1 by auto
  note fr = free_dead_sources_effect[OF inv1(1) 2, unfolded vregs]
  let ?S = "{w. w \<in> N \<and> dst_vreg s \<noteq> Some w \<and> \<not> (w \<in> set (src_vregs s) \<and> can_free_after al w bi pos)}"
  have ag2: "agree lk al2 ?S st ?st1"
    using fr by (intro agree_same_place[OF ag1]) (auto simp: same_tables_uses(1)[OF inv1(2)])
  have inv2: "alloc_inv al2" "same_tables al al2" using fr inv1(2) same_tables_trans by auto
  from 3 show ?thesis
  proof (elim disjE exE conjE)
    fix v r al3 pre3
    assume p: "dst s = Some (VReg v)" "preg_for_vreg hash_iter v prot (al2, pre1) = Inr (r, al3, pre3)"
      and al': "al' = (if \<not> has_later_block_use al3 v bi pos \<and> \<not> is_live_out al3 v bi then free_vreg v al3 else al3)"
      and out: "out = pre3 @ [syl (opc s) (Some (PReg r)) srcs']"
    note pf = preg_for_vreg_frame[OF iter inv2(1) p(2)]
    have dv: "dst_vreg s = Some v" using p(1) by (simp add: dst_vreg_def)
    have "spill_slots al2 v = None"
      using fresh[OF dv] op1 fr src by (auto simp: owners_def src_vregs_value)
    then have ag4: "agree lk al3 (insert v ?S) (exec_syl M s st) (exec M out st')"
      using assigned_dst_agree[OF iter inv2(1) mem heap plain p _ ag2 _ vals bucket] dv by (simp add: out)
    have tab: "same_tables al al3" using inv2(2) pf(2) by (rule same_tables_trans)
    show ?thesis
      using al' dv ag4 agree_free[OF agree_same_place[OF ag4], of "{w. survives al bi pos s N w}" al3 v] pf(1)
        agree_same_place[OF ag4, of "{w. survives al bi pos s N w}" al3]
      by (auto simp: survives_def same_tables_uses[OF tab] split: if_splits)
  next
    assume d: "dst_vreg s = None" and al': "al' = al2" and out: "out = pre1 @ [syl (opc s) (dst s) srcs']"
    let ?s = "syl (opc s) (dst s) srcs'"
    obtain x where x: "rf (exec_syl M s st) = write_reg (dest_reg_key s) x (rf st)"
        "rf (exec_syl M ?s ?st1) = write_reg (dest_reg_key ?s) x (rf ?st1)"
        "glob (exec_syl M ?s ?st1) = glob (exec_syl M s st)" "stk (exec_syl M ?s ?st1) = stk ?st1"
      using exec_syl_parallel[OF heap plain _ bucket vals, of "dst s"] ag1 by (auto simp: agree_def)
    have "dest_reg_key ?s = dest_reg_key s" by (simp add: dest_reg_key_def)
    then have "agree lk al2 ?S (exec_syl M s st) (exec_syl M ?s ?st1)"
      using agree_fixed_dst[OF ag2 inv2(1) plain d x(1)] x(2-4) by simp
    then show ?thesis using d by (simp add: al' out survives_def)
  qed
qed

text \<open>Static single assignment with definitions before uses.\<close>

fun ssa_from :: "u32 set \<Rightarrow> mir_syllable list \<Rightarrow> bool" where
  "ssa_from D [] = True"
| "ssa_from D (s # ss) =
     (set (src_vregs s) \<subseteq> D \<and>
      (case dst_vreg s of None \<Rightarrow> ssa_from D ss | Some v \<Rightarrow> v \<notin> D \<and> ssa_from (insert v D) ss))"

definition needed :: "allocator \<Rightarrow> nat \<Rightarrow> nat \<Rightarrow> u32 \<Rightarrow> bool" where
  "needed al bi pos v \<longleftrightarrow> is_live_out al v bi \<or> (\<exists>q. last_use al bi v = Some q \<and> pos \<le> q)"

lemma needed_survives:
  assumes "needed al bi (Suc pos) w" "w \<in> D \<or> dst_vreg s = Some w" "dst_vreg s = Some v \<Longrightarrow> v \<notin> D"
  shows "survives al bi pos s {v \<in> D. needed al bi pos v} w"
  using assms by (auto simp: survives_def needed_def can_free_after_def has_later_block_use_def)

lemma owners_free: "alloc_inv al \<Longrightarrow> owners (free_vreg v al) \<subseteq> owners al"
  by (auto simp: owners_def free_vreg_inv split: if_splits)

lemma rewrite_syllable_owners:
  assumes iter: "hash_order_ok hash_iter" and inv: "alloc_inv al"
    and ok: "rewrite_syllable hash_iter bi pos al s = Inr (out, al')"
  shows "owners al' \<subseteq> owners al \<union> set (src_vregs s) \<union> set_option (dst_vreg s)"
proof -
  from ok obtain srcs' vregs al1 pre1 al2 prot where
    1: "rewrite_values hash_iter (set (src_vregs s)) (srcs s) ([], al, []) = Inr (srcs', vregs, al1, pre1)" and
    2: "fold (free_dead_source (dst_vreg s) bi pos) vregs (al1, set (src_vregs s)) = (al2, prot)" and
    3: "(\<exists>v r al3 pre3. dst s = Some (VReg v) \<and>
        preg_for_vreg hash_iter v prot (al2, pre1) = Inr (r, al3, pre3) \<and>
        al' = (if \<not> has_later_block_use al3 v bi pos \<and> \<not> is_live_out al3 v bi then free_vreg v al3 else al3) \<and>
        out = pre3 @ [syl (opc s) (Some (PReg r)) srcs']) \<or>
     dst_vreg s = None \<and> al' = al2 \<and> out = pre1 @ [syl (opc s) (dst s) srcs']"
    by (rule rewrite_syllable_cases)
  have o1: "owners al1 \<subseteq> owners al \<union> set (src_vregs s)" and inv1: "alloc_inv al1"
    using rewrite_values_effect[OF iter inv spill_memory_unit _ 1]
    by (auto simp: operands_rewritten_def src_vregs_value)
  have o2: "owners al2 \<subseteq> owners al1" and inv2: "alloc_inv al2"
  proof -
    note fr = free_dead_sources_effect[OF inv1 2]
    have "map_of (assigned al2) w = None \<or> map_of (assigned al2) w = map_of (assigned al1) w" for w
      using fr by (metis (no_types))
    then have "dom (map_of (assigned al2)) \<subseteq> dom (map_of (assigned al1))" by (metis domIff subsetI)
    then show "owners al2 \<subseteq> owners al1" "alloc_inv al2" using fr by (auto simp: owners_def)
  qed
  from 3 show ?thesis
  proof (elim disjE exE conjE)
    fix v r al3 pre3
    assume p: "dst s = Some (VReg v)" "preg_for_vreg hash_iter v prot (al2, pre1) = Inr (r, al3, pre3)"
      and al': "al' = (if \<not> has_later_block_use al3 v bi pos \<and> \<not> is_live_out al3 v bi then free_vreg v al3 else al3)"
    note pf = preg_for_vreg_frame[OF iter inv2 p(2)]
    have "owners al' \<subseteq> owners al3" using al' owners_free[OF pf(1)] by simp
    then show ?thesis using pf(4) o1 o2 p(1) by (auto simp: dst_vreg_def)
  qed (use o1 o2 in auto)
qed

lemma rewrite_syllables_agree:
  assumes iter: "hash_order_ok hash_iter" and mem: "spill_memory M lk" and heap: "heap_machine M h"
    and "alloc_inv al" "owners al \<subseteq> D" "ssa_from D ss" "\<forall>s \<in> set ss. plain_syllable s"
    and "\<forall>i < length ss. \<forall>v \<in> set (src_vregs (ss ! i)). \<exists>q. last_use al bi v = Some q \<and> pos + i \<le> q"
    and "agree lk al {v \<in> D. needed al bi pos v} st st'"
    and "rewrite_syllables hash_iter bi pos al ss = Inr (out, al')"
  shows "\<exists>N. agree lk al' N (exec M ss st) (exec M out st')"
  using assms(4-)
proof (induction ss arbitrary: al D pos st st' out)
  case Nil
  then show ?case by auto
next
  case (Cons s ss)
  obtain out1 al1 out2 where 1: "rewrite_syllable hash_iter bi pos al s = Inr (out1, al1)"
      "rewrite_syllables hash_iter bi (pos + 1) al1 ss = Inr (out2, al')" "out = out1 @ out2"
    using Cons.prems(7) by (auto simp: result_simps)
  let ?N = "{v \<in> D. needed al bi pos v}" and ?D = "D \<union> set_option (dst_vreg s)"
  have struct: "alloc_inv al1" "same_tables al al1"
    using rewrite_syllable_struct[OF iter Cons.prems(1) 1(1)] by auto
  note tab = same_tables_uses[OF struct(2)]
  have srcD: "set (src_vregs s) \<subseteq> D" and ssa: "ssa_from ?D ss"
    using Cons.prems(3) by (auto split: option.splits)
  have fresh: "dst_vreg s = Some v \<Longrightarrow> v \<notin> D" for v using Cons.prems(3) by auto
  have "set (src_vregs s) \<subseteq> ?N" using srcD Cons.prems(5) by (fastforce simp: needed_def)
  then have ag: "agree lk al1 {w. survives al bi pos s ?N w} (exec_syl M s st) (exec M out1 st')"
    using rewrite_syllable_agree[OF iter Cons.prems(1) mem heap _ Cons.prems(6) _ _ 1(1)]
      Cons.prems(2,4) fresh by auto
  have "{v \<in> ?D. needed al1 bi (pos + 1) v} \<subseteq> {w. survives al bi pos s ?N w}"
    using needed_survives[of al bi pos _ D s] fresh by (auto simp: needed_def tab)
  then have ag1: "agree lk al1 {v \<in> ?D. needed al1 bi (pos + 1) v} (exec_syl M s st) (exec M out1 st')"
    using agree_same_place[OF ag] by auto
  have own: "owners al1 \<subseteq> ?D"
    using rewrite_syllable_owners[OF iter Cons.prems(1) 1(1)] Cons.prems(2) srcD by auto
  have uses: "\<forall>i < length ss. \<forall>v \<in> set (src_vregs (ss ! i)). \<exists>q. last_use al1 bi v = Some q \<and> pos + 1 + i \<le> q"
    using Cons.prems(5) by (fastforce simp: tab)
  show ?case
    using Cons.IH[OF struct(1) own ssa _ uses ag1 1(2)] Cons.prems(4) 1(3) by simp
qed

lemma syllable_last_uses_simp:
  "syllable_last_uses s (uses, pos) = ((\<lambda>v. if v \<in> set (src_vregs s) then Some pos else uses v), pos + 1)"
proof -
  have "fold (\<lambda>v uses. uses(v \<mapsto> pos)) vs m = (\<lambda>v. if v \<in> set vs then Some pos else m v)" for vs m
    by (induction vs arbitrary: m) (auto simp: fun_eq_iff)
  then show ?thesis by (simp add: syllable_last_uses_def)
qed

lemma last_uses_end: "snd (fold syllable_last_uses ss (uses, pos)) = pos + length ss"
proof (induction ss rule: rev_induct)
  case (snoc s ss)
  then show ?case by (cases "fold syllable_last_uses ss (uses, pos)") (simp add: syllable_last_uses_simp)
qed simp

lemma syllable_last_uses_later:
  assumes "i < length ss" "v \<in> set (src_vregs (ss ! i))"
  shows "\<exists>q. fst (fold syllable_last_uses ss (uses, pos)) v = Some q \<and> pos + i \<le> q"
  using assms
proof (induction ss arbitrary: i rule: rev_induct)
  case (snoc s ss)
  obtain u e where f: "fold syllable_last_uses ss (uses, pos) = (u, e)" by fastforce
  then have e: "e = pos + length ss" using last_uses_end[of ss uses pos] by simp
  show ?case
  proof (cases "i = length ss")
    case True
    then show ?thesis using snoc.prems(2) f e by (simp add: syllable_last_uses_simp)
  next
    case False
    then have i: "i < length ss" using snoc.prems(1) by simp
    then obtain q where "u v = Some q" "pos + i \<le> q" using snoc.IH[of i] snoc.prems(2) f by (auto simp: nth_append)
    then show ?thesis using f e i by (simp add: syllable_last_uses_simp)
  qed
qed simp

lemma block_last_uses_later:
  assumes "i < length (syllables b)" "v \<in> set (src_vregs (syllables b ! i))"
  shows "\<exists>q. fst (block_last_uses b pos) v = Some q \<and> pos + i \<le> q"
proof -
  obtain q where "fst (fold syllable_last_uses (syllables b) (Map.empty, pos)) v = Some q" "pos + i \<le> q"
    using syllable_last_uses_later[OF assms] by blast
  then show ?thesis
    using assms(1) last_uses_end[of "syllables b" Map.empty pos]
    by (auto simp: block_last_uses_def case_prod_beta Let_def split: option.splits)
qed

section \<open>Properties\<close>

text \<open>Every syllable reads fewer distinct virtual registers than there are allocatable ones.\<close>

definition few_operands :: "mir_function \<Rightarrow> bool" where
  "few_operands f \<longleftrightarrow> (\<forall>b \<in> set (blocks f). \<forall>s \<in> set (syllables b). card (set (src_vregs s)) < 29)"

lemma allocate_registers_total:
  assumes "hash_order_ok hash_iter" "few_operands f"
  shows "\<exists>f'. allocate_registers hash_iter f m = Inr f' \<and> fname f' = fname f \<and>
    list_all2 rewritten_block (blocks f) (blocks f')"
proof -
  obtain infos where infos: "compute f = Some infos" using compute_total by blast
  let ?al = "allocator_new (compute_block_last_uses f) (map live_out infos) (spill_base m)"
  obtain bs al' where bs: "rewrite_blocks hash_iter 0 0 ?al (blocks f) = Inr (bs, al')"
    using rewrite_blocks_succeeds[OF assms(1) alloc_inv_new] assms(2) unfolding few_operands_def by blast
  then have "list_all2 rewritten_block (blocks f) bs"
    using rewrite_blocks_struct[OF assms(1) alloc_inv_new] by blast
  then show ?thesis using infos bs by (simp add: allocate_registers_def)
qed

text \<open>
  C15: register allocation always succeeds and produces what it promises.  For every order in which
  the hash map is iterated and every function whose syllables each read fewer than 29 distinct
  virtual registers, \<open>allocate_registers\<close> returns (never \<open>OutOfRegisters\<close>); no virtual register is
  left; and block by block the result is the input with each virtual register replaced by an
  allocatable one and nothing inserted but stores to and loads from spill slots: labels,
  terminators, opcodes, immediates, fixed registers and order are unchanged.
\<close>

theorem allocate_registers_complete:
  assumes "hash_order_ok hash_iter" "few_operands f"
  shows "\<exists>f'. allocate_registers hash_iter f m = Inr f' \<and> virtual_free f' \<and> fname f' = fname f \<and>
    list_all2 rewritten_block (blocks f) (blocks f')"
proof -
  obtain f' where f': "allocate_registers hash_iter f m = Inr f'" "fname f' = fname f"
      "list_all2 rewritten_block (blocks f) (blocks f')"
    using allocate_registers_total[OF assms] by blast
  then have "virtual_free f'"
    using rewritten_block_virtual_free unfolding virtual_free_def
    by (metis in_set_conv_nth list_all2_conv_all_nth)
  then show ?thesis using f' by blast
qed

theorem allocate_registers_complete_witness:
  "\<exists>f'. allocate_registers rev demo_mir DEFAULT_MEMORY_SIZE = Inr f' \<and> virtual_free f'"
proof -
  have "hash_order_ok rev" by (simp add: hash_order_ok_def)
  moreover have "few_operands demo_mir"
    by (simp add: few_operands_def demo_mir_def src_vregs_def map_filter_simps card_insert_if)
  ultimately show ?thesis using allocate_registers_complete by blast
qed

text \<open>
  C22: the allocator's bookkeeping is an invariant.  Starting from a fresh allocator, after every
  rewritten prefix of syllables each allocatable register is free or owned by exactly one virtual
  register, and the spill slots of different virtual registers are eight-byte words that do not
  overlap.
\<close>

theorem allocator_invariant:
  assumes "hash_order_ok hash_iter"
    and "rewrite_syllables hash_iter bi pos (allocator_new uses outs base) ss = Inr (out, al)"
  shows "mset (map snd (assigned al)) + mset (free al) = mset allocatable \<and>
    distinct (map fst (assigned al)) \<and>
    (\<forall>v w a b. v \<noteq> w \<longrightarrow> spill_slots al v = Some a \<longrightarrow> spill_slots al w = Some b \<longrightarrow> apart a b)"
proof -
  have "alloc_inv al" using rewrite_syllables_struct[OF assms(1) alloc_inv_new assms(2)] by blast
  then show ?thesis using slots_apart by (auto simp: alloc_inv_def regs_inv_def)
qed

theorem allocator_invariant_witness:
  "\<exists>out al. rewrite_syllables id 0 0 (allocator_new [] [] 0) (syllables (hd (blocks demo_mir))) = Inr (out, al) \<and>
     distinct (map fst (assigned al))"
proof -
  let ?r = "rewrite_syllables id 0 0 (allocator_new [] [] 0) (syllables (hd (blocks demo_mir)))"
  have id: "hash_order_ok id" by (simp add: hash_order_ok_def)
  have "\<forall>s \<in> set (syllables (hd (blocks demo_mir))). card (set (src_vregs s)) < 29"
    by (simp add: demo_mir_def src_vregs_def map_filter_simps card_insert_if)
  then obtain out al where r: "?r = Inr (out, al)"
    using rewrite_syllables_succeeds[OF id alloc_inv_new] by blast
  then show ?thesis using allocator_invariant[OF id r] by blast
qed

text \<open>A straight-line function: one block, not ended by a branch on a virtual register.\<close>

definition straight_line :: "mir_function \<Rightarrow> block \<Rightarrow> bool" where
  "straight_line f b \<longleftrightarrow>
     blocks f = [b] \<and> term_vreg (terminator b) = None \<and> ssa_from {} (syllables b) \<and>
     (\<forall>s \<in> set (syllables b). plain_syllable s)"

lemma straight_line_agree:
  assumes "hash_order_ok hash_iter" "straight_line f b" "spill_memory M lk" "heap_machine M h"
    and "allocate_registers hash_iter f m = Inr f'"
    and "glob st' = glob st" "\<forall>n. n \<notin> set allocatable \<longrightarrow> rf st' (gpr n) = rf st (gpr n)"
  shows "\<exists>b' al N. blocks f' = [b'] \<and> agree lk al N (exec M (syllables b) st) (exec M (syllables b') st')"
proof -
  have f: "blocks f = [b]" "term_vreg (terminator b) = None" "ssa_from {} (syllables b)"
      "\<forall>s \<in> set (syllables b). plain_syllable s"
    using assms(2) by (auto simp: straight_line_def)
  obtain infos where infos: "compute f = Some infos" using compute_total by blast
  let ?al = "allocator_new (compute_block_last_uses f) (map live_out infos) (spill_base m)"
  obtain out al t where r: "rewrite_syllables hash_iter 0 0 ?al (syllables b) = Inr (out, al)"
      "blocks f' = [\<lparr>label = label b, syllables = out, terminator = t\<rparr>]"
    using assms(5) infos f(1,2)
    by (auto simp: allocate_registers_def result_simps rewrite_block_def Let_def rewrite_terminator_def
        term_vreg_def split: terminator.splits reg.splits)
  have "last_use ?al 0 v = fst (block_last_uses b 0) v" for v
    by (simp add: last_use_def allocator_new_def compute_block_last_uses_def f(1) case_prod_beta)
  then have uses: "\<forall>i < length (syllables b). \<forall>v \<in> set (src_vregs (syllables b ! i)).
      \<exists>q. last_use ?al 0 v = Some q \<and> 0 + i \<le> q"
    using block_last_uses_later[of _ b _ 0] by auto
  have "owners ?al \<subseteq> {}" by (simp add: owners_def allocator_new_def)
  moreover have "agree lk ?al {v \<in> {}. needed ?al 0 0 v} st st'" using assms(6,7) by (simp add: agree_def)
  ultimately show ?thesis
    using rewrite_syllables_agree[OF assms(1,3,4) alloc_inv_new _ f(3,4) uses _ r(1)] r(2) by fastforce
qed

text \<open>
  C3: register allocation of straight-line code preserves what it computes, spills included.  Take
  a function of one block in single-assignment form over general-purpose registers, any order of
  hash-map iteration, and any machine whose doubleword loads and stores on the spill area behave
  as memory and whose other accesses stay away from it.  Run the block before and after allocation
  from states with the same global memory and the same fixed registers; whatever had to be spilled
  and reloaded, global memory and the fixed registers (among them the return value) end up equal.
\<close>

theorem allocate_registers_preserves_straight_line:
  assumes "hash_order_ok hash_iter" "straight_line f b" "spill_memory M lk" "heap_machine M h"
    and "allocate_registers hash_iter f m = Inr f'"
    and "glob st' = glob st" "\<forall>n. n \<notin> set allocatable \<longrightarrow> rf st' (gpr n) = rf st (gpr n)"
  shows "\<exists>b'. blocks f' = [b'] \<and>
    glob (exec M (syllables b') st') = glob (exec M (syllables b) st) \<and>
    (\<forall>n. n \<notin> set allocatable \<longrightarrow>
       rf (exec M (syllables b') st') (gpr n) = rf (exec M (syllables b) st) (gpr n))"
  using straight_line_agree[OF assms] unfolding agree_def by blast

text \<open>
  Witness: thirty constants, all live until they are summed up into the return register, do not fit
  in 29 registers.  The machine's words are integers and its memories are maps from addresses.
\<close>

definition word_isa :: "(int, i64 \<Rightarrow> int, int \<Rightarrow> int) isa" where
  "word_isa =
     \<lparr>imm_val = uint,
      alu_eff = (\<lambda>op vs. sum_list vs),
      stack_eff = (\<lambda>op vs m. case vs of [a] \<Rightarrow> (m (word_of_int a), m) | [a, v] \<Rightarrow> (0, m(word_of_int a := v)) | _ \<Rightarrow> (0, m)),
      global_eff = (\<lambda>op vs m. case vs of [a] \<Rightarrow> (m a, m) | [a, v] \<Rightarrow> (0, m(a := v)) | _ \<Rightarrow> (0, m)),
      unknown_eff = (\<lambda>op vs (s, m). case vs of [a] \<Rightarrow> (m a, s, m) | [a, v] \<Rightarrow> (0, s, m(a := v)) | _ \<Rightarrow> (0, s, m))\<rparr>"

definition pressure_block :: block where
  "pressure_block =
     \<lparr>label = ''entry'',
      syllables =
        map (\<lambda>i. syl MovImm (Some (VReg (of_nat i))) [ImmV (of_nat i)]) [0..<30] @
        map (\<lambda>i. syl Add (Some (PReg RETVAL_REG)) [RegV (PReg RETVAL_REG), RegV (VReg (of_nat i))]) [0..<30],
      terminator = ReturnT\<rparr>"

definition pressure :: mir_function where
  "pressure = \<lparr>fname = ''pressure'', blocks = [pressure_block]\<rparr>"

lemma word_isa_laws:
  "spill_memory word_isa (\<lambda>m a. m a)"
  "heap_machine word_isa (\<lambda>op vs m. case vs of [a] \<Rightarrow> (m a, m) | [a, v] \<Rightarrow> (0, m(a := v)) | _ \<Rightarrow> (0, m))"
  by (auto simp: spill_memory_def heap_machine_def word_isa_def apart_def split: list.split)

lemma pressure_straight_line: "straight_line pressure pressure_block"
proof -
  have "ssa_from {} (syllables pressure_block)" by code_simp
  moreover have "plain_syllable s" if "s \<in> set (syllables pressure_block)" for s
    using that fixed_not_allocatable
    by (auto simp: pressure_block_def plain_syllable_def source_class_def predicate_sources_def
        writes_pred_def writes_gpr_def is_memory_opcode_def units_def)
  ultimately show ?thesis
    by (simp add: straight_line_def pressure_def) (simp add: pressure_block_def term_vreg_def)
qed

theorem allocate_registers_preserves_straight_line_witness:
  "\<exists>f' b'. allocate_registers id pressure DEFAULT_MEMORY_SIZE = Inr f' \<and> blocks f' = [b'] \<and>
     (\<forall>st. rf (exec word_isa (syllables b') st) (gpr RETVAL_REG) =
           rf (exec word_isa (syllables pressure_block) st) (gpr RETVAL_REG))"
proof -
  have id: "hash_order_ok id" by (simp add: hash_order_ok_def)
  have few: "few_operands pressure"
    by (auto simp: few_operands_def pressure_def pressure_block_def src_vregs_def map_filter_simps)
  obtain f' where f': "allocate_registers id pressure DEFAULT_MEMORY_SIZE = Inr f'"
    using allocate_registers_total[OF id few] by blast
  note keep = allocate_registers_preserves_straight_line[OF id pressure_straight_line word_isa_laws f']
  obtain b' where b': "blocks f' = [b']" using keep[of "undefined" "undefined"] by auto
  have "rf (exec word_isa (syllables b') st) (gpr RETVAL_REG) =
      rf (exec word_isa (syllables pressure_block) st) (gpr RETVAL_REG)" for st
    using keep[of st st] b' fixed_not_allocatable(2) by auto
  then show ?thesis using f' b' by blast
qed

end
