(* ===== verification/Verify.thy ===== *)
theory Verify
  imports Asm
begin

text \<open>
  Component \<open>vliw-asm/src/verify.rs\<close>: the in-bundle hazard verifier, with a declarative
  specification \<open>bundle_ok\<close> of what it promises and proofs that it accepts exactly the bundles that
  meet the specification and that every error it reports names a real violation.
\<close>

datatype hazard_error =
    UnknownOpcode nat string
  | IllegalSlot nat string
  | Waw u8 nat nat
  | Raw u8 nat nat

text \<open>Collecting pairs into a \<open>HashMap\<close> keeps the last value of a repeated key.\<close>

definition unit_kind_map :: "processor \<Rightarrow> string \<rightharpoonup> unit_kind" where
  "unit_kind_map p =
     map_of (rev (List.map_filter
       (\<lambda>u. map_option (\<lambda>k. (unit_name u, k)) (from_kind_str (unit_kind_name u))) (proc_units p)))"

definition slot_unit_kinds :: "processor \<Rightarrow> nat \<Rightarrow> unit_kind list" where
  "slot_unit_kinds p slot =
     (case get (slot_units p) slot of
        None \<Rightarrow> []
      | Some names \<Rightarrow> List.map_filter (unit_kind_map p) names)"

definition gpr_dest :: "opcode \<Rightarrow> asm_syllable \<Rightarrow> u8 option" where
  "gpr_dest op syl =
     (if writes_gpr op
      then (case first (syl_operands syl) of Some (Reg n) \<Rightarrow> Some n | _ \<Rightarrow> None)
      else None)"

text \<open>
  \<open>skip\<close> is \<open>skip_dest && !dest_skipped\<close> of the source loop: the first register operand of an
  opcode that writes a GPR is its destination, not a read.
\<close>

fun gpr_sources :: "bool \<Rightarrow> operand list \<Rightarrow> u8 list" where
  "gpr_sources skip [] = []"
| "gpr_sources skip (Reg n # oprs) =
     (if skip then gpr_sources False oprs else n # gpr_sources skip oprs)"
| "gpr_sources skip (MemAddr base _ # oprs) = base # gpr_sources skip oprs"
| "gpr_sources skip (_ # oprs) = gpr_sources skip oprs"

type_synonym accesses = "(u8 \<times> nat) list \<times> (u8 \<times> nat) list"

definition verify_slot ::
  "asm_bundle \<Rightarrow> processor \<Rightarrow> accesses \<Rightarrow> nat \<Rightarrow> hazard_error + accesses" where
  "verify_slot b p acc slot =
     (case slot_syllable b slot of
        None \<Rightarrow> Inr acc
      | Some syl \<Rightarrow>
          (case from_mnemonic (syl_opcode syl) of
             None \<Rightarrow> Inl (UnknownOpcode slot (syl_opcode syl))
           | Some op \<Rightarrow>
               if op = Nop then Inr acc
               else if \<not> list_ex (\<lambda>req. req \<in> set (slot_unit_kinds p slot)) (units op)
               then Inl (IllegalSlot slot (syl_opcode syl))
               else
                 let (gpr_writes, gpr_reads) = acc in
                 Inr (gpr_writes @ (case gpr_dest op syl of Some n \<Rightarrow> [(n, slot)] | None \<Rightarrow> []),
                      gpr_reads @ map (\<lambda>r. (r, slot)) (gpr_sources (writes_gpr op) (syl_operands syl)))))"

fun find_waw :: "(u8 \<times> nat) list \<Rightarrow> hazard_error option" where
  "find_waw [] = None"
| "find_waw ((r, i) # ws) =
     (case find (\<lambda>w. fst w = r) ws of
        Some (_, j) \<Rightarrow> Some (Waw r i j)
      | None \<Rightarrow> find_waw ws)"

fun find_raw :: "(u8 \<times> nat) list \<Rightarrow> (u8 \<times> nat) list \<Rightarrow> hazard_error option" where
  "find_raw [] ws = None"
| "find_raw ((r, reader) # rs) ws =
     (case find (\<lambda>w. r = fst w \<and> reader \<noteq> snd w) ws of
        Some (_, writer) \<Rightarrow> Some (Raw r writer reader)
      | None \<Rightarrow> find_raw rs ws)"

definition verify_bundle :: "asm_bundle \<Rightarrow> processor \<Rightarrow> hazard_error + unit" where
  "verify_bundle b p =
     and_then (try_fold (verify_slot b p) ([], []) [0..<width_of p])
       (\<lambda>(gpr_writes, gpr_reads).
          case find_waw gpr_writes of
            Some e \<Rightarrow> Inl e
          | None \<Rightarrow> (case find_raw gpr_reads gpr_writes of Some e \<Rightarrow> Inl e | None \<Rightarrow> Inr ()))"

definition verify_item :: "processor \<Rightarrow> unit \<Rightarrow> item \<Rightarrow> hazard_error + unit" where
  "verify_item p u it =
     (case it of BundleItem b \<Rightarrow> verify_bundle b p | LabelItem _ \<Rightarrow> Inr ())"

definition verify_program :: "program \<Rightarrow> hazard_error + unit" where
  "verify_program prog = try_fold (verify_item (processor prog)) () (items prog)"


section \<open>Specification\<close>

text \<open>The slot holds a syllable with a known opcode other than \<open>nop\<close>.\<close>

definition issues :: "processor \<Rightarrow> asm_bundle \<Rightarrow> nat \<Rightarrow> opcode \<Rightarrow> asm_syllable \<Rightarrow> bool" where
  "issues p b slot op syl \<longleftrightarrow>
     slot < width_of p \<and> slot_syllable b slot = Some syl \<and>
     from_mnemonic (syl_opcode syl) = Some op \<and> op \<noteq> Nop"

definition slot_legal :: "processor \<Rightarrow> nat \<Rightarrow> opcode \<Rightarrow> bool" where
  "slot_legal p slot op \<longleftrightarrow>
     (\<exists>names name k. get (slot_units p) slot = Some names \<and> name \<in> set names \<and>
        unit_kind_map p name = Some k \<and> k \<in> set (units op))"

definition slot_writes :: "processor \<Rightarrow> asm_bundle \<Rightarrow> nat \<Rightarrow> u8 \<Rightarrow> bool" where
  "slot_writes p b slot r \<longleftrightarrow> (\<exists>op syl. issues p b slot op syl \<and> gpr_dest op syl = Some r)"

definition slot_reads :: "processor \<Rightarrow> asm_bundle \<Rightarrow> nat \<Rightarrow> u8 \<Rightarrow> bool" where
  "slot_reads p b slot r \<longleftrightarrow>
     (\<exists>op syl. issues p b slot op syl \<and> r \<in> set (gpr_sources (writes_gpr op) (syl_operands syl)))"

definition slots_legal :: "processor \<Rightarrow> asm_bundle \<Rightarrow> bool" where
  "slots_legal p b \<longleftrightarrow>
     (\<forall>slot syl. slot < width_of p \<longrightarrow> slot_syllable b slot = Some syl \<longrightarrow>
        (\<exists>op. from_mnemonic (syl_opcode syl) = Some op \<and> (op = Nop \<or> slot_legal p slot op)))"

definition bundle_ok :: "processor \<Rightarrow> asm_bundle \<Rightarrow> bool" where
  "bundle_ok p b \<longleftrightarrow>
     slots_legal p b \<and>
     (\<forall>i j r. slot_writes p b i r \<longrightarrow> slot_writes p b j r \<longrightarrow> i = j) \<and>
     (\<forall>i j r. slot_reads p b i r \<longrightarrow> slot_writes p b j r \<longrightarrow> i = j)"

text \<open>What an error value claims about the bundle.\<close>

definition hazard_real :: "processor \<Rightarrow> asm_bundle \<Rightarrow> hazard_error \<Rightarrow> bool" where
  "hazard_real p b e =
     (case e of
        UnknownOpcode slot m \<Rightarrow>
          slot < width_of p \<and> from_mnemonic m = None \<and>
          (\<exists>syl. slot_syllable b slot = Some syl \<and> syl_opcode syl = m)
      | IllegalSlot slot m \<Rightarrow>
          (\<exists>op syl. issues p b slot op syl \<and> syl_opcode syl = m \<and> \<not> slot_legal p slot op)
      | Waw r i j \<Rightarrow> i < j \<and> slot_writes p b i r \<and> slot_writes p b j r
      | Raw r writer reader \<Rightarrow> writer \<noteq> reader \<and> slot_reads p b reader r \<and> slot_writes p b writer r)"


section \<open>The verifier against the specification\<close>

definition slot_write_list :: "asm_bundle \<Rightarrow> nat \<Rightarrow> (u8 \<times> nat) list" where
  "slot_write_list b slot =
     (case slot_syllable b slot of
        None \<Rightarrow> []
      | Some syl \<Rightarrow>
          (case from_mnemonic (syl_opcode syl) of
             None \<Rightarrow> []
           | Some op \<Rightarrow> if op = Nop then []
               else (case gpr_dest op syl of Some n \<Rightarrow> [(n, slot)] | None \<Rightarrow> [])))"

definition slot_read_list :: "asm_bundle \<Rightarrow> nat \<Rightarrow> (u8 \<times> nat) list" where
  "slot_read_list b slot =
     (case slot_syllable b slot of
        None \<Rightarrow> []
      | Some syl \<Rightarrow>
          (case from_mnemonic (syl_opcode syl) of
             None \<Rightarrow> []
           | Some op \<Rightarrow> if op = Nop then []
               else map (\<lambda>r. (r, slot)) (gpr_sources (writes_gpr op) (syl_operands syl))))"

lemma slot_legal_iff: "slot_legal p slot op \<longleftrightarrow> list_ex (\<lambda>k. k \<in> set (slot_unit_kinds p slot)) (units op)"
  by (auto simp: slot_legal_def slot_unit_kinds_def list_ex_iff List.map_filter_def
      split: option.splits) force+

lemma verify_slot_Inr:
  "verify_slot b p (ws, rs) slot = Inr acc \<longleftrightarrow>
     (\<forall>syl. slot_syllable b slot = Some syl \<longrightarrow>
        (\<exists>op. from_mnemonic (syl_opcode syl) = Some op \<and> (op = Nop \<or> slot_legal p slot op))) \<and>
     acc = (ws @ slot_write_list b slot, rs @ slot_read_list b slot)"
  by (auto simp: verify_slot_def slot_legal_iff slot_write_list_def slot_read_list_def
      split: option.splits)

lemma verify_slot_Inl:
  "verify_slot b p acc slot = Inl e \<Longrightarrow> slot < width_of p \<Longrightarrow> hazard_real p b e"
  by (auto simp: verify_slot_def slot_legal_iff hazard_real_def issues_def
      split: option.splits if_splits prod.splits)

lemma verify_slots_Inr:
  "try_fold (verify_slot b p) (ws, rs) slots' = Inr acc \<longleftrightarrow>
     (\<forall>slot syl. slot \<in> set slots' \<longrightarrow> slot_syllable b slot = Some syl \<longrightarrow>
        (\<exists>op. from_mnemonic (syl_opcode syl) = Some op \<and> (op = Nop \<or> slot_legal p slot op))) \<and>
     acc = (ws @ concat (map (slot_write_list b) slots'), rs @ concat (map (slot_read_list b) slots'))"
  by (induction slots' arbitrary: ws rs) (auto simp: result_simps verify_slot_Inr)

lemma verify_slots_Inl:
  "try_fold (verify_slot b p) acc slots' = Inl e \<Longrightarrow> \<forall>slot \<in> set slots'. slot < width_of p \<Longrightarrow>
     hazard_real p b e"
  by (induction slots' arbitrary: acc) (auto simp: result_simps dest: verify_slot_Inl)

lemma mem_write_list:
  "(r, s) \<in> set (slot_write_list b slot) \<and> slot < width_of p \<longleftrightarrow> s = slot \<and> slot_writes p b slot r"
proof (cases "slot_syllable b slot")
  case (Some syl)
  then show ?thesis
    by (cases "from_mnemonic (syl_opcode syl)")
      (auto simp: slot_write_list_def slot_writes_def issues_def split: option.splits)
qed (auto simp: slot_write_list_def slot_writes_def issues_def)

lemma mem_read_list:
  "(r, s) \<in> set (slot_read_list b slot) \<and> slot < width_of p \<longleftrightarrow> s = slot \<and> slot_reads p b slot r"
proof (cases "slot_syllable b slot")
  case (Some syl)
  then show ?thesis
    by (cases "from_mnemonic (syl_opcode syl)")
      (auto simp: slot_read_list_def slot_reads_def issues_def)
qed (auto simp: slot_read_list_def slot_reads_def issues_def)

definition all_writes :: "processor \<Rightarrow> asm_bundle \<Rightarrow> (u8 \<times> nat) list" where
  "all_writes p b = concat (map (slot_write_list b) [0..<width_of p])"

definition all_reads :: "processor \<Rightarrow> asm_bundle \<Rightarrow> (u8 \<times> nat) list" where
  "all_reads p b = concat (map (slot_read_list b) [0..<width_of p])"

lemma set_all_writes: "(r, s) \<in> set (all_writes p b) \<longleftrightarrow> slot_writes p b s r"
proof -
  have "slot_writes p b s r \<Longrightarrow> s < width_of p" by (auto simp: slot_writes_def issues_def)
  then show ?thesis using mem_write_list[of r s b _ p] by (fastforce simp: all_writes_def)
qed

lemma set_all_reads: "(r, s) \<in> set (all_reads p b) \<longleftrightarrow> slot_reads p b s r"
proof -
  have "slot_reads p b s r \<Longrightarrow> s < width_of p" by (auto simp: slot_reads_def issues_def)
  then show ?thesis using mem_read_list[of r s b _ p] by (fastforce simp: all_reads_def)
qed

lemma slot_write_list_cases: "slot_write_list b slot = [] \<or> (\<exists>r. slot_write_list b slot = [(r, slot)])"
  by (auto simp: slot_write_list_def split: option.splits)

lemma all_writes_sorted: "sorted_wrt (<) (map snd (all_writes p b))"
proof -
  have "sorted_wrt (<) (map snd (concat (map (slot_write_list b) [0..<n])))
      \<and> (\<forall>w \<in> set (concat (map (slot_write_list b) [0..<n])). snd w < n)" for n
  proof (induction n)
    case (Suc n)
    then show ?case
      using slot_write_list_cases[of b n] by (fastforce simp: sorted_wrt_append less_Suc_eq)
  qed simp
  then show ?thesis by (simp add: all_writes_def)
qed

lemma find_waw_None: "find_waw ws = None \<longleftrightarrow> distinct (map fst ws)"
  by (induction ws rule: find_waw.induct) (auto simp: find_None_iff find_Some_iff split: option.splits)

lemma find_waw_Some:
  "find_waw ws = Some e \<Longrightarrow> sorted_wrt (<) (map snd ws) \<Longrightarrow>
     \<exists>r i j. e = Waw r i j \<and> i < j \<and> (r, i) \<in> set ws \<and> (r, j) \<in> set ws"
proof (induction ws rule: find_waw.induct)
  case (2 r i ws)
  show ?case
  proof (cases "find (\<lambda>w. fst w = r) ws")
    case None
    then show ?thesis using 2 by auto
  next
    case (Some w)
    then obtain j where w: "w = (r, j)" "(r, j) \<in> set ws"
      by (cases w) (auto dest: find_SomeD)
    then have "i < j" using 2(3) by (auto simp: Ball_def)
    then show ?thesis using Some 2(2) w by auto
  qed
qed simp

lemma find_raw_None:
  "find_raw rs ws = None \<longleftrightarrow> (\<forall>r i j. (r, i) \<in> set rs \<longrightarrow> (r, j) \<in> set ws \<longrightarrow> i = j)"
proof (induction rs ws rule: find_raw.induct)
  case (2 r i rs ws)
  show ?case
  proof (cases "find (\<lambda>w. r = fst w \<and> i \<noteq> snd w) ws")
    case None
    then have "(r, j) \<in> set ws \<Longrightarrow> i = j" for j by (auto simp: find_None_iff)
    then show ?thesis using None 2 by auto
  next
    case (Some w)
    then have "(r, snd w) \<in> set ws" "i \<noteq> snd w" by (auto dest: find_SomeD)
    then show ?thesis using Some by (cases w) auto
  qed
qed simp

lemma find_raw_Some:
  "find_raw rs ws = Some e \<Longrightarrow>
     \<exists>r i j. e = Raw r j i \<and> j \<noteq> i \<and> (r, i) \<in> set rs \<and> (r, j) \<in> set ws"
proof (induction rs ws rule: find_raw.induct)
  case (2 r i rs ws)
  show ?case
  proof (cases "find (\<lambda>w. r = fst w \<and> i \<noteq> snd w) ws")
    case None
    then show ?thesis using 2 by auto
  next
    case (Some w)
    then show ?thesis using 2 by (cases w) (auto dest: find_SomeD)
  qed
qed simp

lemma distinct_all_writes:
  "distinct (map fst (all_writes p b)) \<longleftrightarrow>
     (\<forall>i j r. slot_writes p b i r \<longrightarrow> slot_writes p b j r \<longrightarrow> i = j)"
proof -
  have snd: "distinct (map snd (all_writes p b))"
    using all_writes_sorted[of p b] strict_sorted_iff by blast
  then have "distinct (all_writes p b)" by (simp add: distinct_map)
  then have "distinct (map fst (all_writes p b)) \<longleftrightarrow> inj_on fst (set (all_writes p b))"
    by (simp add: distinct_map)
  also have "\<dots> \<longleftrightarrow> (\<forall>i j r. slot_writes p b i r \<longrightarrow> slot_writes p b j r \<longrightarrow> i = j)"
    by (force simp: inj_on_def set_all_writes simp flip: set_all_writes)
  finally show ?thesis .
qed

lemma verify_bundle_unfold:
  "verify_bundle b p =
     (case try_fold (verify_slot b p) ([], []) [0..<width_of p] of
        Inl e \<Rightarrow> Inl e
      | Inr _ \<Rightarrow>
          (case find_waw (all_writes p b) of
             Some e \<Rightarrow> Inl e
           | None \<Rightarrow> (case find_raw (all_reads p b) (all_writes p b) of Some e \<Rightarrow> Inl e | None \<Rightarrow> Inr ())))"
proof (cases "try_fold (verify_slot b p) ([], []) [0..<width_of p]")
  case (Inr acc)
  then have "acc = (all_writes p b, all_reads p b)"
    by (simp add: verify_slots_Inr all_writes_def all_reads_def)
  then show ?thesis using Inr by (simp add: verify_bundle_def)
qed (simp add: verify_bundle_def)

lemma slots_pass_iff:
  "(\<exists>acc. try_fold (verify_slot b p) ([], []) [0..<width_of p] = Inr acc) \<longleftrightarrow> slots_legal p b"
  by (simp add: verify_slots_Inr slots_legal_def)

lemma verify_bundle_iff: "verify_bundle b p = Inr () \<longleftrightarrow> bundle_ok p b"
proof (cases "slots_legal p b")
  case True
  then obtain acc where "try_fold (verify_slot b p) ([], []) [0..<width_of p] = Inr acc"
    using slots_pass_iff by blast
  then have "verify_bundle b p = Inr () \<longleftrightarrow>
      find_waw (all_writes p b) = None \<and> find_raw (all_reads p b) (all_writes p b) = None"
    by (simp add: verify_bundle_unfold split: option.split)
  moreover have "find_raw (all_reads p b) (all_writes p b) = None \<longleftrightarrow>
      (\<forall>i j r. slot_reads p b i r \<longrightarrow> slot_writes p b j r \<longrightarrow> i = j)"
    by (auto simp: find_raw_None set_all_reads set_all_writes)
  moreover have "find_waw (all_writes p b) = None \<longleftrightarrow>
      (\<forall>i j r. slot_writes p b i r \<longrightarrow> slot_writes p b j r \<longrightarrow> i = j)"
    by (simp only: find_waw_None distinct_all_writes)
  ultimately show ?thesis using True by (simp only: bundle_ok_def) simp
next
  case False
  then have "\<nexists>acc. try_fold (verify_slot b p) ([], []) [0..<width_of p] = Inr acc"
    using slots_pass_iff by blast
  then show ?thesis
    using False by (auto simp: verify_bundle_unfold bundle_ok_def split: sum.splits)
qed

lemma verify_bundle_error: "verify_bundle b p = Inl e \<Longrightarrow> hazard_real p b e"
  using verify_slots_Inl[of b p "([], [])" "[0..<width_of p]" e]
    find_waw_Some[of "all_writes p b" e, OF _ all_writes_sorted]
    find_raw_Some[of "all_reads p b" "all_writes p b" e]
  by (auto simp: verify_bundle_unfold set_all_reads set_all_writes hazard_real_def
      split: sum.splits option.splits)

text \<open>
  C16: \<open>verify_bundle\<close> decides its contract.  It accepts a bundle exactly when every occupied slot
  holds a known opcode that is \<open>nop\<close> or that one of the slot's declared units can execute, no two
  slots write the same general-purpose register, and no slot reads a register that another slot of
  the bundle writes.
\<close>

theorem verify_bundle_decides: "verify_bundle b p = Inr () \<longleftrightarrow> bundle_ok p b"
  by (rule verify_bundle_iff)

text \<open>
  C23: the verifier's diagnostics are true.  Whenever \<open>verify_bundle\<close> rejects a bundle, the error it
  returns describes a violation that is really there: the unknown mnemonic is in the named slot,
  the opcode in the named slot has no unit for it, the two named slots (in increasing order) write
  the named register, or the named reader reads what the named other slot writes.
\<close>

theorem verify_bundle_error_real: "verify_bundle b p = Inl e \<Longrightarrow> hazard_real p b e"
  by (rule verify_bundle_error)

text \<open>Witness: two ALU slots that write the same register are reported as a WAW hazard.\<close>

definition waw_bundle :: asm_bundle where
  "waw_bundle =
     \<lparr>slots = [Some (new_syllable ''movi'' [Reg 1, Imm 6]), Some (new_syllable ''movi'' [Reg 1, Imm 7]),
               None, None]\<rparr>"

theorem verify_bundle_error_real_witness:
  "verify_bundle waw_bundle default_processor = Inl (Waw 1 0 1) \<and>
   hazard_real default_processor waw_bundle (Waw 1 0 1)"
proof -
  have "verify_bundle waw_bundle default_processor = Inl (Waw 1 0 1)" by code_simp
  then show ?thesis using verify_bundle_error_real by blast
qed

lemma verify_program_iff:
  "verify_program prog = Inr () \<longleftrightarrow> (\<forall>b. BundleItem b \<in> set (items prog) \<longrightarrow> bundle_ok (processor prog) b)"
proof -
  have "try_fold (verify_item p) () its = Inr () \<longleftrightarrow> (\<forall>b. BundleItem b \<in> set its \<longrightarrow> bundle_ok p b)" for p its
    by (induction its) (auto simp: result_simps verify_item_def verify_bundle_iff split: item.splits)
  then show ?thesis by (simp add: verify_program_def)
qed

text \<open>
  C29: \<open>verify_program\<close> accepts a program exactly when every bundle in it meets the contract of the
  program's processor; labels are never an error.
\<close>

theorem verify_program_decides:
  "verify_program prog = Inr () \<longleftrightarrow> (\<forall>b. BundleItem b \<in> set (items prog) \<longrightarrow> bundle_ok (processor prog) b)"
  by (rule verify_program_iff)

text \<open>Witness: an accepted program with two independent moves in one bundle.\<close>

definition two_moves :: asm_bundle where
  "two_moves =
     \<lparr>slots = [Some (new_syllable ''movi'' [Reg 1, Imm 6]), Some (new_syllable ''movi'' [Reg 2, Imm 7]),
               None, None]\<rparr>"

theorem verify_program_decides_witness: "bundle_ok default_processor two_moves"
proof -
  have "verify_program \<lparr>processor = default_processor, items = [LabelItem ''entry'', BundleItem two_moves]\<rparr>
        = Inr ()"
    by code_simp
  then show ?thesis by (simp add: verify_program_decides)
qed

end
