(* ===== verification/Slots.thy ===== *)
theory Slots
  imports Verify Deps Errors
begin

text \<open>
  Slot selection of \<open>vliw-backend/src/lib.rs\<close>: which slots of the processor layout may issue an opcode
  and which one the scalar emitter takes.  The lemmas relate it to the slot rule that the verifier
  of \<open>vliw-asm\<close> enforces.
\<close>

definition slot_supports_opcode_with_units ::
  "nat \<Rightarrow> opcode \<Rightarrow> processor \<Rightarrow> (string \<rightharpoonup> unit_kind) \<Rightarrow> bool" where
  "slot_supports_opcode_with_units slot op p unit_kind_by_name =
     (case get (slot_units p) slot of
        None \<Rightarrow> False
      | Some names \<Rightarrow>
          list_ex (\<lambda>kind. kind \<in> set (units op)) (List.map_filter unit_kind_by_name names))"

definition slot_supports_opcode :: "nat \<Rightarrow> opcode \<Rightarrow> processor \<Rightarrow> bool" where
  "slot_supports_opcode slot op p =
     (if op = Nop then slot < width_of p
      else slot_supports_opcode_with_units slot op p (unit_kind_map p))"

definition first_compatible_slot :: "opcode \<Rightarrow> processor \<Rightarrow> compile_error + nat" where
  "first_compatible_slot op p =
     (if op = Nop then Inr 0
      else ok_or (find (\<lambda>slot. slot_supports_opcode_with_units slot op p (unit_kind_map p)) [0..<width_of p])
             (NotImplemented ''no compatible slot for opcode in processor layout''))"

definition slot_by_alias :: "processor \<Rightarrow> string \<Rightarrow> nat option" where
  "slot_by_alias p name = map_option alias_slot (find (\<lambda>a. alias_name a = name) (slot_aliases p))"

definition canonical_alias :: "opcode \<Rightarrow> string option" where
  "canonical_alias op =
     (if is_memory_opcode op then Some ''M''
      else if is_control_or_multiplier_opcode op then Some ''X''
      else if is_integer_alu_opcode op then Some ''I0''
      else None)"

definition scalar_slot :: "opcode \<Rightarrow> processor \<Rightarrow> compile_error + nat" where
  "scalar_slot op p =
     (case Option.bind (canonical_alias op) (slot_by_alias p) of
        Some slot \<Rightarrow> if slot_supports_opcode slot op p then Inr slot else first_compatible_slot op p
      | None \<Rightarrow> first_compatible_slot op p)"

definition x_slot :: "processor \<Rightarrow> compile_error + nat" where
  "x_slot p =
     ok_or (map_option alias_slot (find (\<lambda>a. alias_name a = ''X'') (slot_aliases p)))
       (NotImplemented ''processor layout has no X slot'')"

text \<open>\<open>slots[slot] = ...\<close> panics when the slot is outside the bundle.\<close>

definition bundle_with :: "nat \<Rightarrow> nat \<Rightarrow> asm_syllable \<Rightarrow> compile_error + asm_bundle" where
  "bundle_with w slot s =
     (if slot < w then Inr \<lparr>slots = (replicate w None)[slot := Some s]\<rparr>
      else Inl (Panic ''index out of bounds''))"

lemma supports_iff_legal: "slot_supports_opcode_with_units slot op p (unit_kind_map p) \<longleftrightarrow> slot_legal p slot op"
  by (cases "get (slot_units p) slot")
    (auto simp: slot_supports_opcode_with_units_def slot_legal_def list_ex_iff, (metis set_map_filter)+)

lemma slot_supports_iff:
  "slot_supports_opcode slot op p \<longleftrightarrow> (if op = Nop then slot < width_of p else slot_legal p slot op)"
  by (simp add: slot_supports_opcode_def supports_iff_legal)

lemma first_compatible_slot_supports:
  "first_compatible_slot op p = Inr slot \<Longrightarrow> op \<noteq> Nop \<Longrightarrow> slot < width_of p \<and> slot_supports_opcode slot op p"
  by (auto simp: first_compatible_slot_def slot_supports_opcode_def result_simps find_Some_iff)

text \<open>The syllables a bundle issues.\<close>

definition bundle_syllables :: "asm_bundle \<Rightarrow> asm_syllable list" where
  "bundle_syllables b = somes (slots b)"

lemma bundle_syllables_empty [simp]: "bundle_syllables empty_bundle = []"
  by (simp add: bundle_syllables_def empty_bundle_def)

lemma somes_singleton: "slot < w \<Longrightarrow> somes ((replicate w None)[slot := Some s]) = [s]"
proof (induction w arbitrary: slot)
  case (Suc w)
  then show ?case by (cases slot) simp_all
qed simp

lemma bundle_with_syllables: "bundle_with w slot s = Inr b \<Longrightarrow> bundle_syllables b = [s]"
  by (auto simp: bundle_with_def bundle_syllables_def somes_singleton split: if_splits)

lemma bundle_with_slot:
  "bundle_with w slot s = Inr b \<Longrightarrow> slot_syllable b i = (if i = slot then Some s else None)"
  by (auto simp: bundle_with_def slot_syllable_def get_def nth_list_update split: if_splits)

lemma bundle_with_ok:
  assumes "bundle_with w slot s = Inr b" "from_mnemonic (syl_opcode s) = Some op" "slot_supports_opcode slot op p"
  shows "bundle_ok p b"
  using assms(2,3)
  by (auto simp: bundle_ok_def slots_legal_def slot_writes_def slot_reads_def issues_def
      bundle_with_slot[OF assms(1)] slot_supports_iff split: if_splits)

lemma empty_bundle_ok: "bundle_ok p empty_bundle"
  by (simp add: bundle_ok_def slots_legal_def slot_writes_def slot_reads_def issues_def)

end
