(* ===== verification/Sched.thy ===== *)
theory Sched
  imports Machine Errors "HOL-Library.Product_Lexorder"
begin

text \<open>
  The list scheduler of \<open>vliw-backend/src/lib.rs\<close>: the dependence graph over the syllables of one
  block (\<open>build_sched_dag\<close>), the critical-path heights (\<open>compute_heights\<close>) and the greedy issue loop
  (\<open>list_schedule_syllables\<close>).  A Rust panic (the \<open>expect\<close> on the ready list, an underflow of a
  predecessor count) is the error \<open>Panic\<close> of the model.

  The lemmas show that the graph has a path between any two conflicting syllables, that the loop
  always returns a permutation in which every edge is respected, and so, through the locale
  \<open>reordering\<close> of theory \<open>Machine\<close>, that scheduling does not change what a block computes.
\<close>


section \<open>Keys of \<open>max_by_key\<close> and \<open>min_by_key\<close>\<close>

text \<open>\<open>std::cmp::Reverse\<close>.\<close>

datatype 'a reverse = Reverse 'a

instantiation reverse :: (linorder) linorder
begin

definition less_eq_reverse :: "'a reverse \<Rightarrow> 'a reverse \<Rightarrow> bool" where
  "less_eq_reverse x y = (case x of Reverse a \<Rightarrow> case y of Reverse b \<Rightarrow> b \<le> a)"

definition less_reverse :: "'a reverse \<Rightarrow> 'a reverse \<Rightarrow> bool" where
  "less_reverse x y = (case x of Reverse a \<Rightarrow> case y of Reverse b \<Rightarrow> b < a)"

instance
  by standard (auto simp: less_eq_reverse_def less_reverse_def split: reverse.splits)

end

text \<open>\<open>Iterator::max_by_key\<close> returns the last of several maxima, \<open>min_by_key\<close> the first of several minima.\<close>

fun max_by_key :: "('a \<Rightarrow> 'k :: linorder) \<Rightarrow> 'a list \<Rightarrow> 'a option" where
  "max_by_key key [] = None"
| "max_by_key key (x # xs) =
     (case max_by_key key xs of None \<Rightarrow> Some x | Some y \<Rightarrow> if key x \<le> key y then Some y else Some x)"

fun min_by_key :: "('a \<Rightarrow> 'k :: linorder) \<Rightarrow> 'a list \<Rightarrow> 'a option" where
  "min_by_key key [] = None"
| "min_by_key key (x # xs) =
     (case min_by_key key xs of None \<Rightarrow> Some x | Some y \<Rightarrow> if key x \<le> key y then Some x else Some y)"

lemma max_by_key_None [simp]: "max_by_key key xs = None \<longleftrightarrow> xs = []"
  by (cases xs) (auto split: option.splits)

lemma min_by_key_None [simp]: "min_by_key key xs = None \<longleftrightarrow> xs = []"
  by (cases xs) (auto split: option.splits)

lemma max_by_key_Some: "max_by_key key xs = Some x \<Longrightarrow> x \<in> set xs \<and> (\<forall>y \<in> set xs. key y \<le> key x)"
  by (induction xs arbitrary: x) (auto split: option.splits if_splits)

lemma min_by_key_Some: "min_by_key key xs = Some x \<Longrightarrow> x \<in> set xs \<and> (\<forall>y \<in> set xs. key x \<le> key y)"
  by (induction xs arbitrary: x) (auto split: option.splits if_splits)

text \<open>\<open>Vec::swap_remove\<close>.\<close>

definition swap_remove :: "'a list \<Rightarrow> nat \<Rightarrow> 'a \<times> 'a list" where
  "swap_remove xs i = (xs ! i, butlast (xs[i := last xs]))"

lemma mset_swap_remove:
  assumes "i < length xs"
  shows "add_mset (xs ! i) (mset (butlast (xs[i := last xs]))) = mset xs"
proof -
  let ?ys = "xs[i := last xs]"
  have ne: "?ys \<noteq> []" "xs \<noteq> []" using assms by auto
  have "last ?ys = last xs" using ne by (simp add: last_list_update)
  then have "add_mset (last xs) (mset (butlast ?ys)) = mset ?ys"
    using append_butlast_last_id[OF ne(1)] by (metis mset_append union_mset_add_mset_right
        mset.simps add.right_neutral)
  also have "\<dots> = add_mset (last xs) (mset xs - {#xs ! i#})"
    using assms by (rule mset_update)
  finally show ?thesis using assms by (simp add: nth_mem)
qed

lemma swap_remove_props:
  assumes "i < length xs" "distinct xs" "swap_remove xs i = (x, ys)"
  shows "x = xs ! i" "distinct ys" "set ys = set xs - {x}"
proof -
  have "mset (x # ys) = mset xs" using mset_swap_remove[OF assms(1)] assms(3) by (simp add: swap_remove_def)
  then have "distinct (x # ys)" "set (x # ys) = set xs"
    using assms(2) by (metis mset_eq_imp_distinct_iff, metis mset_eq_setD)
  then show "distinct ys" "set ys = set xs - {x}" by auto
  show "x = xs ! i" using assms(3) by (simp add: swap_remove_def)
qed


section \<open>The dependence graph\<close>

record sched_node =
  succs :: "nat list"
  unscheduled_preds :: nat
  node_height :: nat

record dag_state =
  succ_sets :: "nat list list"
  last_writer :: "reg_key \<rightharpoonup> nat"
  last_readers :: "reg_key \<rightharpoonup> nat list"
  last_unknown_memory_barrier :: "nat option"
  prior_memory :: "(nat \<times> mem_bucket) list"

text \<open>A \<open>BTreeSet\<close> is kept as its sorted list of elements.\<close>

definition add_edge :: "nat \<Rightarrow> nat \<Rightarrow> nat list list \<Rightarrow> nat list list" where
  "add_edge i idx sets = sets[i := insort_insert idx (sets ! i)]"

definition dag_barrier :: "nat \<Rightarrow> dag_state \<Rightarrow> dag_state" where
  "dag_barrier idx st =
     (case last_unknown_memory_barrier st of
        Some barrier \<Rightarrow> st\<lparr>succ_sets := add_edge barrier idx (succ_sets st)\<rparr>
      | None \<Rightarrow> st)"

definition dag_source :: "nat \<Rightarrow> reg_key \<Rightarrow> dag_state \<Rightarrow> dag_state" where
  "dag_source idx src st =
     (let sets = (case last_writer st src of
                    Some writer \<Rightarrow> add_edge writer idx (succ_sets st)
                  | None \<Rightarrow> succ_sets st);
          readers = (case last_readers st src of Some rs \<Rightarrow> rs | None \<Rightarrow> [])
      in st\<lparr>succ_sets := sets, last_readers := (last_readers st)(src \<mapsto> readers @ [idx])\<rparr>)"

definition dag_dest :: "nat \<Rightarrow> mir_syllable \<Rightarrow> dag_state \<Rightarrow> dag_state" where
  "dag_dest idx s st =
     (case dest_reg_key s of
        None \<Rightarrow> st
      | Some d \<Rightarrow>
          let sets = (case last_writer st d of
                        Some writer \<Rightarrow> add_edge writer idx (succ_sets st)
                      | None \<Rightarrow> succ_sets st);
              readers = (case last_readers st d of Some rs \<Rightarrow> rs | None \<Rightarrow> []);
              sets' = fold (\<lambda>reader sets. if reader \<noteq> idx then add_edge reader idx sets else sets) readers sets
          in st\<lparr>succ_sets := sets', last_writer := (last_writer st)(d \<mapsto> idx),
                last_readers := (last_readers st)(d := None)\<rparr>)"

definition dag_memory :: "nat \<Rightarrow> mir_syllable \<Rightarrow> dag_state \<Rightarrow> dag_state" where
  "dag_memory idx s st =
     (if is_memory_opcode (opc s) then
        let bucket = memory_bucket s;
            st' = (if bucket = UnknownB
                   then st\<lparr>succ_sets := fold (\<lambda>prior. add_edge prior idx) [0..<idx] (succ_sets st),
                           last_unknown_memory_barrier := Some idx\<rparr>
                   else st\<lparr>succ_sets :=
                          fold (\<lambda>(prior, prior_bucket) sets.
                                  if memory_buckets_may_alias prior_bucket bucket
                                  then add_edge prior idx sets else sets)
                            (prior_memory st) (succ_sets st)\<rparr>)
        in st'\<lparr>prior_memory := prior_memory st @ [(idx, bucket)]\<rparr>
      else st)"

definition dag_step :: "nat \<Rightarrow> mir_syllable \<Rightarrow> dag_state \<Rightarrow> dag_state" where
  "dag_step idx s st =
     dag_memory idx s (dag_dest idx s (fold (dag_source idx) (source_reg_keys s) (dag_barrier idx st)))"

definition dag_init :: "nat \<Rightarrow> dag_state" where
  "dag_init n =
     \<lparr>succ_sets = replicate n [], last_writer = Map.empty, last_readers = Map.empty,
      last_unknown_memory_barrier = None, prior_memory = []\<rparr>"

definition build_succ_sets :: "mir_syllable list \<Rightarrow> nat list list" where
  "build_succ_sets ss =
     succ_sets (fold (\<lambda>(idx, s). dag_step idx s) (enumerate 0 ss) (dag_init (length ss)))"

definition count_preds :: "nat \<Rightarrow> nat list list \<Rightarrow> nat list" where
  "count_preds n sets =
     fold (\<lambda>ss counts. fold (\<lambda>j cs. cs[j := Suc (cs ! j)]) ss counts) sets (replicate n 0)"

definition build_sched_dag :: "mir_syllable list \<Rightarrow> sched_node list" where
  "build_sched_dag ss =
     (let sets = build_succ_sets ss; pred_counts = count_preds (length ss) sets
      in map (\<lambda>(idx, js). \<lparr>succs = js, unscheduled_preds = pred_counts ! idx, node_height = 0\<rparr>)
           (enumerate 0 sets))"

definition height_of :: "sched_node list \<Rightarrow> mir_syllable list \<Rightarrow> nat \<Rightarrow> nat" where
  "height_of nodes ss idx =
     latency (opc (ss ! idx)) + foldr max (map (\<lambda>j. node_height (nodes ! j)) (succs (nodes ! idx))) 0"

definition compute_heights :: "sched_node list \<Rightarrow> mir_syllable list \<Rightarrow> sched_node list" where
  "compute_heights nodes ss =
     fold (\<lambda>idx nodes. nodes[idx := (nodes ! idx)\<lparr>node_height := height_of nodes ss idx\<rparr>])
       (rev [0..<length nodes]) nodes"


section \<open>The issue loop\<close>

record ready_state =
  gpr_ready :: "u8 \<rightharpoonup> nat"
  pred_ready :: "u8 \<rightharpoonup> nat"

definition ready_default :: ready_state where
  "ready_default = \<lparr>gpr_ready = Map.empty, pred_ready = Map.empty\<rparr>"

definition unwrap_or :: "'a option \<Rightarrow> 'a \<Rightarrow> 'a" where
  "unwrap_or opt d = (case opt of Some x \<Rightarrow> x | None \<Rightarrow> d)"

definition key_ready_cycle :: "ready_state \<Rightarrow> reg_key \<Rightarrow> nat" where
  "key_ready_cycle rdy key =
     (case key of
        RegKey Gpr r \<Rightarrow> unwrap_or (Option.bind (physical_reg r) (gpr_ready rdy)) 0
      | RegKey PredC r \<Rightarrow> unwrap_or (Option.bind (physical_reg r) (pred_ready rdy)) 0)"

definition syllable_required_cycle :: "mir_syllable \<Rightarrow> ready_state \<Rightarrow> nat" where
  "syllable_required_cycle s rdy = foldr max (map (key_ready_cycle rdy) (source_reg_keys s)) 0"

definition update_ready_after_mir_syllable :: "mir_syllable \<Rightarrow> nat \<Rightarrow> ready_state \<Rightarrow> ready_state" where
  "update_ready_after_mir_syllable s cyc rdy =
     (case dest_reg_key s of
        None \<Rightarrow> rdy
      | Some (RegKey cls r) \<Rightarrow>
          (case physical_reg r of
             None \<Rightarrow> rdy
           | Some n \<Rightarrow>
               let result_ready = cyc + latency (opc s)
               in case cls of
                    Gpr \<Rightarrow> if n \<noteq> ZERO_REG then rdy\<lparr>gpr_ready := (gpr_ready rdy)(n \<mapsto> result_ready)\<rparr> else rdy
                  | PredC \<Rightarrow> rdy\<lparr>pred_ready := (pred_ready rdy)(n \<mapsto> result_ready)\<rparr>))"

definition pick_ready_node ::
  "mir_syllable list \<Rightarrow> sched_node list \<Rightarrow> nat list \<Rightarrow> ready_state \<Rightarrow> nat \<Rightarrow> nat option" where
  "pick_ready_node ss nodes ready issue_ready cyc =
     map_option fst
       (max_by_key (\<lambda>(_, idx). (node_height (nodes ! idx), Reverse idx))
         (filter (\<lambda>(_, idx). syllable_required_cycle (ss ! idx) issue_ready \<le> cyc) (enumerate 0 ready)))"

definition pick_earliest_node ::
  "mir_syllable list \<Rightarrow> sched_node list \<Rightarrow> nat list \<Rightarrow> ready_state \<Rightarrow> nat option" where
  "pick_earliest_node ss nodes ready issue_ready =
     map_option fst
       (min_by_key (\<lambda>(_, idx). (syllable_required_cycle (ss ! idx) issue_ready,
                                Reverse (node_height (nodes ! idx)), idx))
         (enumerate 0 ready))"

record sched_state =
  nodes :: "sched_node list"
  ready :: "nat list"
  scheduled :: "bool list"
  issue_ready :: ready_state
  cycle :: nat
  out :: "mir_syllable list"

definition sched_select :: "mir_syllable list \<Rightarrow> sched_state \<Rightarrow> nat option" where
  "sched_select ss st =
     (case pick_ready_node ss (nodes st) (ready st) (issue_ready st) (cycle st) of
        Some pos \<Rightarrow> Some pos
      | None \<Rightarrow> pick_earliest_node ss (nodes st) (ready st) (issue_ready st))"

definition release_succ :: "sched_state \<Rightarrow> nat \<Rightarrow> compile_error + sched_state" where
  "release_succ st succ =
     (let n = nodes st ! succ
      in if unscheduled_preds n = 0 then Inl (Panic ''attempt to subtract with overflow'')
         else
           let n' = n\<lparr>unscheduled_preds := unscheduled_preds n - 1\<rparr>
           in Inr (st\<lparr>nodes := (nodes st)[succ := n'],
                      ready := (if unscheduled_preds n' = 0 \<and> \<not> scheduled st ! succ
                                then ready st @ [succ] else ready st)\<rparr>))"

definition sched_issue :: "mir_syllable list \<Rightarrow> nat \<Rightarrow> sched_state \<Rightarrow> compile_error + sched_state" where
  "sched_issue ss pos st =
     (let (idx, ready') = swap_remove (ready st) pos;
          s = ss ! idx;
          cyc = max (cycle st) (syllable_required_cycle s (issue_ready st));
          st' = st\<lparr>ready := ready',
                   cycle := cyc + 1,
                   issue_ready := update_ready_after_mir_syllable s cyc (issue_ready st),
                   scheduled := (scheduled st)[idx := True],
                   out := out st @ [s]\<rparr>
      in try_fold release_succ st' (succs (nodes st ! idx)))"

lemma release_succ_out: "release_succ st j = Inr st' \<Longrightarrow> out st' = out st"
  by (auto simp: release_succ_def Let_def split: if_splits)

lemma sched_issue_out: "sched_issue ss pos st = Inr st' \<Longrightarrow> length (out st') = Suc (length (out st))"
  unfolding sched_issue_def Let_def case_prod_beta
  by (drule try_fold_invariant[where P = "\<lambda>s. length (out s) = Suc (length (out st))"])
    (auto dest: release_succ_out)

function sched_loop :: "mir_syllable list \<Rightarrow> sched_state \<Rightarrow> compile_error + mir_syllable list" where
  "sched_loop ss st =
     (if length (out st) < length ss then
        case sched_select ss st of
          None \<Rightarrow> Inl (Panic ''DAG scheduler must have a ready node'')
        | Some pos \<Rightarrow> and_then (sched_issue ss pos st) (sched_loop ss)
      else Inr (out st))"
  by pat_completeness auto
termination
  by (relation "measure (\<lambda>(ss, st). length ss - length (out st))") (auto dest: sched_issue_out)

declare sched_loop.simps [simp del]

definition sched_init :: "mir_syllable list \<Rightarrow> sched_state" where
  "sched_init ss =
     (let ns = compute_heights (build_sched_dag ss) ss
      in \<lparr>nodes = ns,
          ready = filter (\<lambda>idx. unscheduled_preds (ns ! idx) = 0) [0..<length ns],
          scheduled = replicate (length ss) False,
          issue_ready = ready_default, cycle = 0, out = []\<rparr>)"

definition list_schedule_syllables :: "mir_syllable list \<Rightarrow> compile_error + mir_syllable list" where
  "list_schedule_syllables ss =
     (if length ss \<le> 1 then Inr ss else sched_loop ss (sched_init ss))"

definition list_schedule_block :: "block \<Rightarrow> compile_error + block" where
  "list_schedule_block b =
     and_then (list_schedule_syllables (syllables b))
       (\<lambda>out. Inr \<lparr>label = label b, syllables = out, terminator = terminator b\<rparr>)"

definition list_schedule_function :: "mir_function \<Rightarrow> compile_error + mir_function" where
  "list_schedule_function f =
     and_then (try_map list_schedule_block (blocks f))
       (\<lambda>bs. Inr \<lparr>fname = fname f, blocks = bs\<rparr>)"


section \<open>The graph orders conflicting syllables\<close>

definition edges :: "nat list list \<Rightarrow> (nat \<times> nat) set" where
  "edges sets = {(i, j). i < length sets \<and> j \<in> set (sets ! i)}"

lemma length_add_edge [simp]: "length (add_edge i j sets) = length sets"
  by (simp add: add_edge_def)

lemma edges_add_edge: "i < length sets \<Longrightarrow> edges (add_edge i j sets) = insert (i, j) (edges sets)"
  by (auto simp: edges_def add_edge_def nth_list_update set_insort_insert split: if_splits)

lemma edges_fold_add_edge:
  assumes "\<forall>x \<in> set xs. P x \<longrightarrow> f x < length sets"
  shows "edges (fold (\<lambda>x sets. if P x then add_edge (f x) j sets else sets) xs sets) =
           edges sets \<union> {(f x, j) | x. x \<in> set xs \<and> P x} \<and>
         length (fold (\<lambda>x sets. if P x then add_edge (f x) j sets else sets) xs sets) = length sets"
  using assms
  by (induction xs arbitrary: sets) (auto simp: edges_add_edge)

definition readers :: "dag_state \<Rightarrow> reg_key \<Rightarrow> nat set" where
  "readers st k = (case last_readers st k of Some rs \<Rightarrow> set rs | None \<Rightarrow> {})"

text \<open>The predecessors that one step gives to the syllable it processes.\<close>

definition dag_preds :: "nat \<Rightarrow> mir_syllable \<Rightarrow> dag_state \<Rightarrow> nat set" where
  "dag_preds idx s st =
     {b. last_unknown_memory_barrier st = Some b} \<union>
     {w. \<exists>k. (k \<in> set (source_reg_keys s) \<or> dest_reg_key s = Some k) \<and> last_writer st k = Some w} \<union>
     {r. r \<noteq> idx \<and> (\<exists>k. dest_reg_key s = Some k \<and> r \<in> readers st k)} \<union>
     {i. i < idx \<and> is_memory_opcode (opc s) \<and> memory_bucket s = UnknownB} \<union>
     {i. \<exists>b. (i, b) \<in> set (prior_memory st) \<and> is_memory_opcode (opc s) \<and>
           memory_bucket s \<noteq> UnknownB \<and> memory_buckets_may_alias b (memory_bucket s)}"

text \<open>The indices the state holds are those of processed syllables.\<close>

definition dag_bounded :: "nat \<Rightarrow> dag_state \<Rightarrow> bool" where
  "dag_bounded n st \<longleftrightarrow>
     (\<forall>b. last_unknown_memory_barrier st = Some b \<longrightarrow> b < n) \<and>
     (\<forall>k w. last_writer st k = Some w \<longrightarrow> w < n) \<and>
     (\<forall>k. \<forall>r \<in> readers st k. r < n) \<and>
     (\<forall>(i, b) \<in> set (prior_memory st). i < n)"

lemma dag_sources_effect:
  assumes "\<forall>k w. last_writer st k = Some w \<longrightarrow> w < length (succ_sets st)"
  shows "let st' = fold (dag_source idx) ks st in
    edges (succ_sets st') = edges (succ_sets st) \<union> {(w, idx) | w k. k \<in> set ks \<and> last_writer st k = Some w} \<and>
    length (succ_sets st') = length (succ_sets st) \<and>
    last_writer st' = last_writer st \<and>
    last_unknown_memory_barrier st' = last_unknown_memory_barrier st \<and>
    prior_memory st' = prior_memory st \<and>
    (\<forall>k. readers st' k = readers st k \<union> (if k \<in> set ks then {idx} else {}))"
  using assms
proof (induction ks arbitrary: st)
  case (Cons k ks)
  let ?st = "dag_source idx k st"
  have st: "edges (succ_sets ?st) = edges (succ_sets st) \<union> {(w, idx) | w. last_writer st k = Some w}"
      "length (succ_sets ?st) = length (succ_sets st)" "last_writer ?st = last_writer st"
      "last_unknown_memory_barrier ?st = last_unknown_memory_barrier st"
      "prior_memory ?st = prior_memory st"
      "readers ?st k' = readers st k' \<union> (if k' = k then {idx} else {})" for k'
    using Cons.prems
    by (auto simp: dag_source_def Let_def edges_add_edge readers_def split: option.splits)
  show ?case using Cons.IH[of ?st] Cons.prems st by (auto simp: Let_def)
qed (simp add: Let_def)

lemma dag_barrier_effect:
  assumes "\<forall>b. last_unknown_memory_barrier st = Some b \<longrightarrow> b < length (succ_sets st)"
  shows "edges (succ_sets (dag_barrier idx st)) =
      edges (succ_sets st) \<union> {(b, idx) | b. last_unknown_memory_barrier st = Some b}"
    "length (succ_sets (dag_barrier idx st)) = length (succ_sets st)"
    "last_writer (dag_barrier idx st) = last_writer st"
    "last_unknown_memory_barrier (dag_barrier idx st) = last_unknown_memory_barrier st"
    "prior_memory (dag_barrier idx st) = prior_memory st"
    "readers (dag_barrier idx st) k = readers st k"
  using assms by (auto simp: dag_barrier_def edges_add_edge readers_def split: option.splits)

lemma dag_dest_effect:
  assumes "\<forall>k w. last_writer st k = Some w \<longrightarrow> w < length (succ_sets st)"
    and "\<forall>k. \<forall>r \<in> readers st k. r < length (succ_sets st)"
  shows "edges (succ_sets (dag_dest idx s st)) = edges (succ_sets st) \<union>
      {(w, idx) | w k. dest_reg_key s = Some k \<and> last_writer st k = Some w} \<union>
      {(r, idx) | r k. dest_reg_key s = Some k \<and> r \<in> readers st k \<and> r \<noteq> idx}"
    "length (succ_sets (dag_dest idx s st)) = length (succ_sets st)"
    "last_writer (dag_dest idx s st) =
      (case dest_reg_key s of None \<Rightarrow> last_writer st | Some d \<Rightarrow> (last_writer st)(d \<mapsto> idx))"
    "last_unknown_memory_barrier (dag_dest idx s st) = last_unknown_memory_barrier st"
    "prior_memory (dag_dest idx s st) = prior_memory st"
    "readers (dag_dest idx s st) k = (if dest_reg_key s = Some k then {} else readers st k)"
proof -
  show "edges (succ_sets (dag_dest idx s st)) = edges (succ_sets st) \<union>
      {(w, idx) | w k. dest_reg_key s = Some k \<and> last_writer st k = Some w} \<union>
      {(r, idx) | r k. dest_reg_key s = Some k \<and> r \<in> readers st k \<and> r \<noteq> idx}"
    "length (succ_sets (dag_dest idx s st)) = length (succ_sets st)"
    using assms edges_fold_add_edge[where f = "\<lambda>r. r" and P = "\<lambda>r. r \<noteq> idx" and j = idx]
    by (cases "dest_reg_key s"; auto simp: dag_dest_def Let_def readers_def edges_add_edge
        split: option.splits)+
qed (auto simp: dag_dest_def Let_def readers_def split: option.splits)

lemma dag_memory_effect:
  assumes "idx \<le> length (succ_sets st)" "\<forall>(i, b) \<in> set (prior_memory st). i < length (succ_sets st)"
  shows "edges (succ_sets (dag_memory idx s st)) = edges (succ_sets st) \<union>
      {(i, idx) | i. i < idx \<and> is_memory_opcode (opc s) \<and> memory_bucket s = UnknownB} \<union>
      {(i, idx) | i b. (i, b) \<in> set (prior_memory st) \<and> is_memory_opcode (opc s) \<and>
           memory_bucket s \<noteq> UnknownB \<and> memory_buckets_may_alias b (memory_bucket s)}"
    "length (succ_sets (dag_memory idx s st)) = length (succ_sets st)"
    "last_writer (dag_memory idx s st) = last_writer st"
    "last_unknown_memory_barrier (dag_memory idx s st) =
      (if is_memory_opcode (opc s) \<and> memory_bucket s = UnknownB then Some idx
       else last_unknown_memory_barrier st)"
    "set (prior_memory (dag_memory idx s st)) = set (prior_memory st) \<union>
      (if is_memory_opcode (opc s) then {(idx, memory_bucket s)} else {})"
    "readers (dag_memory idx s st) k = readers st k"
proof -
  have 1: "edges (fold (\<lambda>prior. add_edge prior idx) [0..<idx] sets) = edges sets \<union> {(i, idx) | i. i < idx} \<and>
      length (fold (\<lambda>prior. add_edge prior idx) [0..<idx] sets) = length sets"
    if "idx \<le> length sets" for sets
    using edges_fold_add_edge[of "[0..<idx]" "\<lambda>_. True" "\<lambda>i. i" sets idx] that by auto
  have 2: "edges (fold (\<lambda>(prior, pb) sets. if memory_buckets_may_alias pb b then add_edge prior idx sets else sets)
        (prior_memory st) (succ_sets st)) =
      edges (succ_sets st) \<union> {(i, idx) | i pb. (i, pb) \<in> set (prior_memory st) \<and> memory_buckets_may_alias pb b} \<and>
      length (fold (\<lambda>(prior, pb) sets. if memory_buckets_may_alias pb b then add_edge prior idx sets else sets)
        (prior_memory st) (succ_sets st)) = length (succ_sets st)" for b
  proof -
    let ?P = "\<lambda>(i, pb). memory_buckets_may_alias pb b"
    have f: "(\<lambda>(prior, pb) sets. if memory_buckets_may_alias pb b then add_edge prior idx sets else sets) =
        (\<lambda>x sets. if ?P x then add_edge (fst x) idx sets else sets)" by (auto simp: fun_eq_iff)
    have g: "{(fst x, idx) | x. x \<in> set (prior_memory st) \<and> ?P x} =
        {(i, idx) | i pb. (i, pb) \<in> set (prior_memory st) \<and> memory_buckets_may_alias pb b}" by force
    have "\<forall>x \<in> set (prior_memory st). ?P x \<longrightarrow> fst x < length (succ_sets st)" using assms(2) by auto
    from edges_fold_add_edge[OF this, of idx] show ?thesis unfolding f g .
  qed
  show "edges (succ_sets (dag_memory idx s st)) = edges (succ_sets st) \<union>
      {(i, idx) | i. i < idx \<and> is_memory_opcode (opc s) \<and> memory_bucket s = UnknownB} \<union>
      {(i, idx) | i b. (i, b) \<in> set (prior_memory st) \<and> is_memory_opcode (opc s) \<and>
           memory_bucket s \<noteq> UnknownB \<and> memory_buckets_may_alias b (memory_bucket s)}"
    "length (succ_sets (dag_memory idx s st)) = length (succ_sets st)"
    using 1[OF assms(1)] 2 by (auto simp: dag_memory_def Let_def)
qed (auto simp: dag_memory_def Let_def readers_def)

text \<open>One step in terms of the graph and the state before it.\<close>

lemma dag_step_effect:
  fixes idx :: nat and s :: mir_syllable and st :: dag_state
  assumes "dag_bounded idx st" "idx < length (succ_sets st)"
  defines "st' \<equiv> dag_step idx s st"
  shows "edges (succ_sets st') = edges (succ_sets st) \<union> (\<lambda>i. (i, idx)) ` dag_preds idx s st"
    "length (succ_sets st') = length (succ_sets st)"
    "last_writer st' = (case dest_reg_key s of None \<Rightarrow> last_writer st | Some d \<Rightarrow> (last_writer st)(d \<mapsto> idx))"
    "last_unknown_memory_barrier st' =
      (if is_memory_opcode (opc s) \<and> memory_bucket s = UnknownB then Some idx
       else last_unknown_memory_barrier st)"
    "set (prior_memory st') = set (prior_memory st) \<union>
      (if is_memory_opcode (opc s) then {(idx, memory_bucket s)} else {})"
    "readers st' k =
      (if dest_reg_key s = Some k then {}
       else readers st k \<union> (if k \<in> set (source_reg_keys s) then {idx} else {}))"
proof -
  let ?a = "dag_barrier idx st" let ?b = "fold (dag_source idx) (source_reg_keys s) ?a"
  let ?c = "dag_dest idx s ?b"
  note bd = assms(1)[unfolded dag_bounded_def]
  have lt: "i < length (succ_sets st)" if "i < idx" for i using assms(2) that by simp
  have ba: "\<forall>b. last_unknown_memory_barrier st = Some b \<longrightarrow> b < length (succ_sets st)"
    using bd assms(2) by (meson less_trans)
  note a = dag_barrier_effect[OF ba]
  have bb: "\<forall>k w. last_writer ?a k = Some w \<longrightarrow> w < length (succ_sets ?a)"
    using bd assms(2) a by (metis less_trans)
  note b = dag_sources_effect[OF bb, of idx "source_reg_keys s", unfolded Let_def a]
  have bc: "\<forall>k w. last_writer ?b k = Some w \<longrightarrow> w < length (succ_sets ?b)"
    "\<forall>k. \<forall>r \<in> readers ?b k. r < length (succ_sets ?b)"
    using bb a b bd lt by (simp_all, metis insertE lt assms(2))
  note c = dag_dest_effect[OF bc, of idx s]
  have bd': "idx \<le> length (succ_sets ?c)" "\<forall>(i, b) \<in> set (prior_memory ?c). i < length (succ_sets ?c)"
    using bd assms(2) b c by (auto dest: less_trans)
  note d = dag_memory_effect[OF bd', of s]
  show "edges (succ_sets st') = edges (succ_sets st) \<union> (\<lambda>i. (i, idx)) ` dag_preds idx s st"
    unfolding st'_def dag_step_def d(1) c a b dag_preds_def by (auto simp: b split: if_splits)
  show "length (succ_sets st') = length (succ_sets st)"
    "last_writer st' = (case dest_reg_key s of None \<Rightarrow> last_writer st | Some d \<Rightarrow> (last_writer st)(d \<mapsto> idx))"
    "last_unknown_memory_barrier st' =
      (if is_memory_opcode (opc s) \<and> memory_bucket s = UnknownB then Some idx
       else last_unknown_memory_barrier st)"
    "set (prior_memory st') = set (prior_memory st) \<union>
      (if is_memory_opcode (opc s) then {(idx, memory_bucket s)} else {})"
    "readers st' k =
      (if dest_reg_key s = Some k then {}
       else readers st k \<union> (if k \<in> set (source_reg_keys s) then {idx} else {}))"
    unfolding st'_def dag_step_def by (simp_all add: c d b split: option.splits)
qed

text \<open>
  The loop invariant: conflicting syllables among the processed ones are joined by a path; every
  earlier writer of a register reaches its last writer; every reader is recorded or reaches the
  last writer; every earlier unknown memory access reaches the barrier.
\<close>

definition dag_inv :: "mir_syllable list \<Rightarrow> nat \<Rightarrow> dag_state \<Rightarrow> bool" where
  "dag_inv ss n st \<longleftrightarrow> (let E = edges (succ_sets st) in
     dag_bounded n st \<and> length (succ_sets st) = length ss \<and>
     (\<forall>(i, j) \<in> E. i < j \<and> j < n) \<and>
     (\<forall>i < n. \<forall>k. dest_reg_key (ss ! i) = Some k \<longrightarrow> (\<exists>w. last_writer st k = Some w \<and> (i, w) \<in> E\<^sup>*)) \<and>
     (\<forall>i < n. \<forall>k \<in> set (source_reg_keys (ss ! i)).
        i \<in> readers st k \<or> (\<exists>w. last_writer st k = Some w \<and> (i, w) \<in> E\<^sup>*)) \<and>
     (\<forall>i < n. is_memory_opcode (opc (ss ! i)) \<longrightarrow> (i, memory_bucket (ss ! i)) \<in> set (prior_memory st) \<and>
        (memory_bucket (ss ! i) = UnknownB \<longrightarrow>
           (\<exists>b. last_unknown_memory_barrier st = Some b \<and> (i, b) \<in> E\<^sup>*))) \<and>
     (\<forall>j < n. \<forall>i < j. conflict (ss ! i) (ss ! j) \<longrightarrow> (i, j) \<in> E\<^sup>+))"

lemma conflict_reaches:
  assumes "dag_inv ss n st" "i < n" "conflict (ss ! i) s"
  shows "\<exists>p \<in> dag_preds n s st. (i, p) \<in> (edges (succ_sets st))\<^sup>*"
proof -
  note inv = assms(1)[unfolded dag_inv_def Let_def]
  consider (raw) k where "dest_reg_key (ss ! i) = Some k" "k \<in> set (source_reg_keys s) \<or> dest_reg_key s = Some k"
    | (war) k where "dest_reg_key s = Some k" "k \<in> set (source_reg_keys (ss ! i))"
    | (mem) "mem_conflict (ss ! i) s"
    using assms(3) by (auto simp: conflict_def reg_conflict_def)
  then show ?thesis
  proof cases
    case raw
    obtain w where "last_writer st k = Some w" "(i, w) \<in> (edges (succ_sets st))\<^sup>*"
      using inv assms(2) raw(1) by blast
    then show ?thesis using raw(2) unfolding dag_preds_def by blast
  next
    case war
    then consider "i \<in> readers st k" | w where "last_writer st k = Some w" "(i, w) \<in> (edges (succ_sets st))\<^sup>*"
      using inv assms(2) by blast
    then show ?thesis
    proof cases
      case 1
      then have "i \<in> dag_preds n s st" using war(1) assms(2) by (auto simp: dag_preds_def)
      then show ?thesis by blast
    next
      case 2
      then show ?thesis using war(1) unfolding dag_preds_def by blast
    qed
  next
    case mem
    then have m: "is_memory_opcode (opc (ss ! i))" "is_memory_opcode (opc s)"
        "memory_buckets_may_alias (memory_bucket (ss ! i)) (memory_bucket s)"
      by (auto simp: mem_conflict_def)
    show ?thesis
    proof (cases "memory_bucket s = UnknownB")
      case True
      then have "i \<in> dag_preds n s st" using m assms(2) by (simp add: dag_preds_def)
      then show ?thesis by blast
    next
      case False
      have "(i, memory_bucket (ss ! i)) \<in> set (prior_memory st)" using inv m(1) assms(2) by blast
      then have "i \<in> dag_preds n s st" using m False unfolding dag_preds_def by blast
      then show ?thesis by blast
    qed
  qed
qed

lemma dag_preds_bounded: "dag_bounded n st \<Longrightarrow> p \<in> dag_preds n s st \<Longrightarrow> p < n"
  by (fastforce simp: dag_bounded_def dag_preds_def)

lemma dag_bounded_step:
  assumes "dag_bounded n st" "n < length (succ_sets st)"
  shows "dag_bounded (Suc n) (dag_step n s st)"
  using assms(1) unfolding dag_bounded_def dag_step_effect[OF assms]
  by (auto split: option.splits if_splits intro: less_SucI)

text \<open>One step of the construction, part by part of the invariant.\<close>

lemma dag_inv_bounded:
  assumes "dag_inv ss n st" "n < length ss"
  shows "dag_bounded n st" "n < length (succ_sets st)"
  using assms by (simp_all add: dag_inv_def Let_def)

lemma dag_step_mono:
  assumes "dag_inv ss n st" "n < length ss"
  shows "(i, j) \<in> (edges (succ_sets st))\<^sup>* \<Longrightarrow> (i, j) \<in> (edges (succ_sets (dag_step n s st)))\<^sup>*"
    "(i, j) \<in> (edges (succ_sets st))\<^sup>+ \<Longrightarrow> (i, j) \<in> (edges (succ_sets (dag_step n s st)))\<^sup>+"
proof -
  have "edges (succ_sets st) \<subseteq> edges (succ_sets (dag_step n s st))"
    using dag_step_effect(1)[OF dag_inv_bounded[OF assms]] by blast
  then show "(i, j) \<in> (edges (succ_sets st))\<^sup>* \<Longrightarrow> (i, j) \<in> (edges (succ_sets (dag_step n s st)))\<^sup>*"
      "(i, j) \<in> (edges (succ_sets st))\<^sup>+ \<Longrightarrow> (i, j) \<in> (edges (succ_sets (dag_step n s st)))\<^sup>+"
    using rtrancl_mono trancl_mono by blast+
qed

lemma dag_step_conflict:
  assumes "dag_inv ss n st" "n < length ss" "i < n" "conflict (ss ! i) (ss ! n)"
  shows "(i, n) \<in> (edges (succ_sets (dag_step n (ss ! n) st)))\<^sup>+"
proof -
  obtain p where "p \<in> dag_preds n (ss ! n) st" "(i, p) \<in> (edges (succ_sets st))\<^sup>*"
    using conflict_reaches[OF assms(1,3,4)] by blast
  moreover from this have "(p, n) \<in> edges (succ_sets (dag_step n (ss ! n) st))"
    using dag_step_effect(1)[OF dag_inv_bounded[OF assms(1,2)], of "ss ! n"] by blast
  ultimately show ?thesis using dag_step_mono(1)[OF assms(1,2)] by (meson rtrancl_into_trancl1)
qed

lemma dag_step_writers:
  assumes "dag_inv ss n st" "n < length ss" "i < Suc n" "dest_reg_key (ss ! i) = Some k"
  shows "\<exists>w. last_writer (dag_step n (ss ! n) st) k = Some w \<and> (i, w) \<in> (edges (succ_sets (dag_step n (ss ! n) st)))\<^sup>*"
proof (cases "dest_reg_key (ss ! n) = Some k")
  case True
  have "(i, n) \<in> (edges (succ_sets (dag_step n (ss ! n) st)))\<^sup>*" if "i < n"
    using dag_step_conflict[OF assms(1,2) that] True assms(4)
    by (auto simp: conflict_def reg_conflict_def intro: trancl_into_rtrancl)
  then show ?thesis using True assms(3) by (auto simp: dag_step_effect(3)[OF dag_inv_bounded[OF assms(1,2)]] less_Suc_eq)
next
  case False
  then have "i < n" using assms(3,4) by (auto simp: less_Suc_eq)
  then obtain w where "last_writer st k = Some w" "(i, w) \<in> (edges (succ_sets st))\<^sup>*"
    using assms(1,4) unfolding dag_inv_def Let_def by blast
  then show ?thesis
    using False dag_step_mono(1)[OF assms(1,2)]
    by (auto simp: dag_step_effect(3)[OF dag_inv_bounded[OF assms(1,2)]] split: option.splits)
qed

lemma dag_step_readers:
  assumes "dag_inv ss n st" "n < length ss" "i < Suc n" "k \<in> set (source_reg_keys (ss ! i))"
  shows "i \<in> readers (dag_step n (ss ! n) st) k \<or>
    (\<exists>w. last_writer (dag_step n (ss ! n) st) k = Some w \<and> (i, w) \<in> (edges (succ_sets (dag_step n (ss ! n) st)))\<^sup>*)"
proof (cases "dest_reg_key (ss ! n) = Some k")
  case True
  have "(i, n) \<in> (edges (succ_sets (dag_step n (ss ! n) st)))\<^sup>*" if "i < n"
    using dag_step_conflict[OF assms(1,2) that] True assms(4)
    by (auto simp: conflict_def reg_conflict_def intro: trancl_into_rtrancl)
  then show ?thesis using True assms(3) by (auto simp: dag_step_effect(3)[OF dag_inv_bounded[OF assms(1,2)]] less_Suc_eq)
next
  case False
  note eff = dag_step_effect[OF dag_inv_bounded[OF assms(1,2)], of "ss ! n"]
  have "i = n \<or> i < n" using assms(3) by auto
  then consider "i = n" | "i \<in> readers st k" | w where "last_writer st k = Some w" "(i, w) \<in> (edges (succ_sets st))\<^sup>*"
    using assms(1,4) unfolding dag_inv_def Let_def by blast
  then show ?thesis
    using False assms(4) dag_step_mono(1)[OF assms(1,2)] by cases (auto simp: eff(3,6) split: option.splits)
qed

lemma dag_step_memory:
  assumes "dag_inv ss n st" "n < length ss" "i < Suc n" "is_memory_opcode (opc (ss ! i))"
  shows "(i, memory_bucket (ss ! i)) \<in> set (prior_memory (dag_step n (ss ! n) st)) \<and>
    (memory_bucket (ss ! i) = UnknownB \<longrightarrow>
       (\<exists>b. last_unknown_memory_barrier (dag_step n (ss ! n) st) = Some b \<and>
          (i, b) \<in> (edges (succ_sets (dag_step n (ss ! n) st)))\<^sup>*))"
proof (cases "i = n")
  case True
  then show ?thesis using assms(4) by (auto simp: dag_step_effect(4,5)[OF dag_inv_bounded[OF assms(1,2)]])
next
  case False
  then have i: "i < n" using assms(3) by simp
  have "(i, n) \<in> (edges (succ_sets (dag_step n (ss ! n) st)))\<^sup>*"
    if "is_memory_opcode (opc (ss ! n))" "memory_bucket (ss ! n) = UnknownB"
    using dag_step_conflict[OF assms(1,2) i] that assms(4)
    by (auto simp: conflict_def mem_conflict_def memory_buckets_may_alias_def intro: trancl_into_rtrancl)
  then show ?thesis
    using assms(1)[unfolded dag_inv_def Let_def] i assms(4) dag_step_mono(1)[OF assms(1,2)]
    by (auto simp: dag_step_effect(4,5)[OF dag_inv_bounded[OF assms(1,2)]])
qed

lemma dag_inv_step:
  assumes "dag_inv ss n st" "n < length ss"
  shows "dag_inv ss (Suc n) (dag_step n (ss ! n) st)"
proof -
  let ?E' = "edges (succ_sets (dag_step n (ss ! n) st))"
  note inv = assms(1)[unfolded dag_inv_def Let_def] and bounded = dag_inv_bounded[OF assms]
  have order: "\<forall>(i, j) \<in> ?E'. i < j \<and> j < Suc n"
    using inv dag_preds_bounded[OF bounded(1)] by (auto simp: dag_step_effect(1)[OF bounded])
  have "(i, j) \<in> ?E'\<^sup>+" if "j < Suc n" "i < j" "conflict (ss ! i) (ss ! j)" for i j
  proof (cases "j = n")
    case True
    then show ?thesis using that dag_step_conflict[OF assms] by simp
  next
    case False
    then have "j < n" using that(1) by simp
    then show ?thesis using inv that(2,3) dag_step_mono(2)[OF assms] by blast
  qed
  then show ?thesis
    unfolding dag_inv_def Let_def
    using dag_bounded_step[OF bounded, of "ss ! n"] order dag_step_writers[OF assms] dag_step_readers[OF assms]
      dag_step_memory[OF assms] inv
    by (simp add: dag_step_effect(2)[OF bounded])
qed

lemma dag_inv_final:
  "dag_inv ss (length ss) (fold (\<lambda>(idx, s). dag_step idx s) (enumerate 0 ss) (dag_init (length ss)))"
proof -
  have "dag_inv ss n (fold (\<lambda>(idx, s). dag_step idx s) (enumerate 0 (take n ss)) (dag_init (length ss)))"
    if "n \<le> length ss" for n
    using that
  proof (induction n)
    case 0
    show ?case
      by (simp add: dag_inv_def dag_bounded_def dag_init_def Let_def edges_def readers_def)
  next
    case (Suc n)
    then show ?case
      using dag_inv_step[of ss n] by (simp add: take_Suc_conv_app_nth enumerate_append_eq)
  qed
  from this[of "length ss"] show ?thesis by simp
qed

lemma edges_bounds: "(i, j) \<in> edges (build_succ_sets ss) \<Longrightarrow> i < j \<and> j < length ss"
  using dag_inv_final[of ss] by (auto simp: dag_inv_def Let_def build_succ_sets_def)

lemma length_build_succ_sets [simp]: "length (build_succ_sets ss) = length ss"
  using dag_inv_final[of ss] by (auto simp: dag_inv_def Let_def build_succ_sets_def)

lemma conflict_path:
  "i < j \<Longrightarrow> j < length ss \<Longrightarrow> conflict (ss ! i) (ss ! j) \<Longrightarrow> (i, j) \<in> (edges (build_succ_sets ss))\<^sup>+"
  using dag_inv_final[of ss] by (auto simp: dag_inv_def Let_def build_succ_sets_def)


section \<open>Successor lists have no repetitions; predecessor counts\<close>

definition distinct_sets :: "nat list list \<Rightarrow> bool" where
  "distinct_sets sets \<longleftrightarrow> (\<forall>js \<in> set sets. distinct js)"

lemma distinct_add_edge: "distinct_sets sets \<Longrightarrow> distinct_sets (add_edge i j sets)"
proof (cases "i < length sets")
  case True
  assume d: "distinct_sets sets"
  then have "distinct (insort_insert j (sets ! i))"
    using True by (auto simp: distinct_sets_def insort_insert_key_def distinct_insort)
  then show ?thesis
    using d by (auto simp: distinct_sets_def add_edge_def dest!: set_update_subset_insert[THEN subsetD])
qed (simp add: add_edge_def list_update_beyond)

lemma distinct_fold_add_edge:
  "(\<And>x s. distinct_sets s \<Longrightarrow> distinct_sets (f x s)) \<Longrightarrow> distinct_sets sets \<Longrightarrow> distinct_sets (fold f xs sets)"
  by (rule fold_invariant[where Q = "\<lambda>_. True"]) auto

lemma distinct_dag_source: "distinct_sets (succ_sets st) \<Longrightarrow> distinct_sets (succ_sets (dag_source idx k st))"
  by (simp add: dag_source_def Let_def distinct_add_edge split: option.splits)

lemma distinct_dag_step:
  assumes "distinct_sets (succ_sets st)"
  shows "distinct_sets (succ_sets (dag_step idx s st))"
proof -
  have "distinct_sets (succ_sets (dag_barrier idx st))"
    using assms by (simp add: dag_barrier_def distinct_add_edge split: option.splits)
  then have "distinct_sets (succ_sets (fold (dag_source idx) (source_reg_keys s) (dag_barrier idx st)))"
    by (rule fold_invariant[where Q = "\<lambda>_. True", rotated]) (auto intro: distinct_dag_source)
  then have "distinct_sets (succ_sets (dag_dest idx s (fold (dag_source idx) (source_reg_keys s) (dag_barrier idx st))))"
    by (auto simp: dag_dest_def Let_def distinct_add_edge intro!: distinct_fold_add_edge split: option.splits)
  then show ?thesis
    by (auto simp: dag_step_def dag_memory_def Let_def distinct_add_edge intro!: distinct_fold_add_edge)
qed

lemma distinct_build_succ_sets: "distinct_sets (build_succ_sets ss)"
  unfolding build_succ_sets_def
  by (rule fold_invariant[where Q = "\<lambda>_. True" and P = "\<lambda>st. distinct_sets (succ_sets st)"])
    (auto simp: dag_init_def distinct_sets_def distinct_dag_step[unfolded distinct_sets_def])

lemma count_inner:
  "j < length cs \<Longrightarrow> fold (\<lambda>j cs. cs[j := Suc (cs ! j)]) js cs ! j = cs ! j + count_list js j"
  "length (fold (\<lambda>j cs. cs[j := Suc (cs ! j)]) js cs) = length (cs :: nat list)"
  by (induction js arbitrary: cs) (auto simp: nth_list_update)

lemma count_list_distinct: "distinct js \<Longrightarrow> count_list js j = (if j \<in> set js then 1 else 0)"
  by (induction js) auto

lemma count_outer:
  assumes "distinct_sets sets" "j < length cs"
  shows "fold (\<lambda>ss counts. fold (\<lambda>j cs. cs[j := Suc (cs ! j)]) ss counts) sets cs ! j =
    cs ! j + length (filter (\<lambda>js. j \<in> set js) sets)"
  using assms
proof (induction sets arbitrary: cs)
  case (Cons js sets)
  then show ?case by (simp add: distinct_sets_def count_inner count_list_distinct)
qed simp

definition preds_of :: "(nat \<times> nat) set \<Rightarrow> nat \<Rightarrow> nat set" where
  "preds_of E j = {i. (i, j) \<in> E}"

lemma finite_edges: "finite (edges sets)"
proof -
  have "edges sets \<subseteq> {..<length sets} \<times> \<Union>(set ` set sets)" by (auto simp: edges_def intro: nth_mem)
  then show ?thesis by (rule finite_subset) auto
qed

lemma finite_preds_of: "finite (preds_of (edges sets) j)"
  by (rule finite_subset[of _ "fst ` edges sets"]) (force simp: preds_of_def, simp add: finite_edges)

lemma count_preds_card:
  assumes "distinct_sets sets" "j < n"
  shows "count_preds n sets ! j = card (preds_of (edges sets) j)"
  unfolding count_preds_def using assms count_outer[of sets j "replicate n 0"]
  by (simp add: length_filter_conv_card preds_of_def edges_def)

lemma length_build_sched_dag [simp]: "length (build_sched_dag ss) = length ss"
  by (simp add: build_sched_dag_def Let_def)

lemma build_sched_dag_nth:
  "i < length ss \<Longrightarrow> build_sched_dag ss ! i =
     \<lparr>succs = build_succ_sets ss ! i,
      unscheduled_preds = card (preds_of (edges (build_succ_sets ss)) i), node_height = 0\<rparr>"
  by (simp add: build_sched_dag_def Let_def nth_enumerate_eq count_preds_card distinct_build_succ_sets)


section \<open>Heights are critical paths\<close>

definition heights_from :: "sched_node list \<Rightarrow> mir_syllable list \<Rightarrow> nat \<Rightarrow> sched_node list" where
  "heights_from ns ss m =
     fold (\<lambda>idx ns. ns[idx := (ns ! idx)\<lparr>node_height := height_of ns ss idx\<rparr>])
       (rev [m..<length ns]) ns"

lemma heights_from_step:
  "m < length ns \<Longrightarrow> heights_from ns ss m =
     (let r = heights_from ns ss (Suc m) in r[m := (r ! m)\<lparr>node_height := height_of r ss m\<rparr>])"
  by (simp add: heights_from_def Let_def upt_conv_Cons)

lemma heights_from_frame:
  assumes "m \<le> length ns"
  shows "length (heights_from ns ss m) = length ns \<and>
    (\<forall>i. succs (heights_from ns ss m ! i) = succs (ns ! i) \<and>
      unscheduled_preds (heights_from ns ss m ! i) = unscheduled_preds (ns ! i))"
  using assms
proof (induction m rule: inc_induct)
  case base
  show ?case by (simp add: heights_from_def)
next
  case (step m)
  then show ?case by (auto simp: heights_from_step[of m] Let_def nth_list_update)
qed

lemma heights_from_eq:
  assumes "m \<le> length ns" "\<And>i j. i < length ns \<Longrightarrow> j \<in> set (succs (ns ! i)) \<Longrightarrow> i < j"
  shows "\<forall>i. m \<le> i \<and> i < length ns \<longrightarrow>
    node_height (heights_from ns ss m ! i) = height_of (heights_from ns ss m) ss i"
  using assms(1)
proof (induction m rule: inc_induct)
  case (step m)
  let ?r = "heights_from ns ss (Suc m)"
  let ?r' = "?r[m := (?r ! m)\<lparr>node_height := height_of ?r ss m\<rparr>]"
  have fr: "length ?r = length ns" "succs (?r ! i) = succs (ns ! i)" for i
    using heights_from_frame[of "Suc m" ns ss] step.hyps by auto
  have same: "height_of ?r' ss i = height_of ?r ss i" if "m \<le> i" "i < length ns" for i
  proof -
    have "succs (?r' ! i) = succs (?r ! i)" using that by (cases "i = m") (simp_all add: fr)
    moreover have "?r' ! j = ?r ! j" if "j \<in> set (succs (?r ! i))" for j
      using assms(2)[of i j] that \<open>m \<le> i\<close> \<open>i < length ns\<close> by (simp add: fr)
    ultimately show ?thesis by (simp add: height_of_def cong: map_cong)
  qed
  show ?case
    using step.IH step.hyps same by (auto simp: heights_from_step[of m] Let_def nth_list_update fr)
qed simp

lemma compute_heights_frame:
  "length (compute_heights ns ss) = length ns"
  "succs (compute_heights ns ss ! i) = succs (ns ! i)"
  "unscheduled_preds (compute_heights ns ss ! i) = unscheduled_preds (ns ! i)"
  using heights_from_frame[of 0 ns ss] by (simp_all add: compute_heights_def heights_from_def)

section \<open>The issue loop returns a linearisation of the graph\<close>

lemma release_all:
  assumes "distinct js" "\<forall>j \<in> set js. j < length (nodes st) \<and> 0 < unscheduled_preds (nodes st ! j)"
  shows "\<exists>st'. try_fold release_succ st js = Inr st' \<and>
    length (nodes st') = length (nodes st) \<and> scheduled st' = scheduled st \<and> out st' = out st \<and>
    (\<forall>i. succs (nodes st' ! i) = succs (nodes st ! i) \<and>
       unscheduled_preds (nodes st' ! i) = unscheduled_preds (nodes st ! i) - (if i \<in> set js then 1 else 0)) \<and>
    ready st' = ready st @ filter (\<lambda>j. unscheduled_preds (nodes st ! j) = 1 \<and> \<not> scheduled st ! j) js"
  using assms
proof (induction js arbitrary: st)
  case (Cons j js)
  let ?n = "(nodes st ! j)\<lparr>unscheduled_preds := unscheduled_preds (nodes st ! j) - 1\<rparr>"
  let ?st = "st\<lparr>nodes := (nodes st)[j := ?n],
                ready := (if unscheduled_preds ?n = 0 \<and> \<not> scheduled st ! j then ready st @ [j] else ready st)\<rparr>"
  have step: "release_succ st j = Inr ?st" using Cons.prems(2) by (simp add: release_succ_def Let_def)
  have other: "nodes ?st ! i = nodes st ! i" if "i \<in> set js" for i using that Cons.prems(1) by (cases "i = j") simp_all
  have "filter (\<lambda>i. unscheduled_preds (nodes ?st ! i) = 1 \<and> \<not> scheduled ?st ! i) js =
      filter (\<lambda>i. unscheduled_preds (nodes st ! i) = 1 \<and> \<not> scheduled st ! i) js"
    using other by (intro filter_cong) auto
  moreover have "unscheduled_preds (nodes st ! j) = 1 \<longleftrightarrow> unscheduled_preds ?n = 0"
    using Cons.prems(2) by auto
  moreover have "succs (nodes ?st ! i) = succs (nodes st ! i)" for i
    using Cons.prems(2) by (cases "i = j") simp_all
  moreover have "unscheduled_preds (nodes ?st ! i) = unscheduled_preds (nodes st ! i) - (if i = j then 1 else 0)" for i
    using Cons.prems(2) by (cases "i = j") simp_all
  moreover obtain st' where "try_fold release_succ ?st js = Inr st'"
      "length (nodes st') = length (nodes ?st)" "scheduled st' = scheduled ?st" "out st' = out ?st"
      "\<forall>i. succs (nodes st' ! i) = succs (nodes ?st ! i) \<and>
         unscheduled_preds (nodes st' ! i) = unscheduled_preds (nodes ?st ! i) - (if i \<in> set js then 1 else 0)"
      "ready st' = ready ?st @ filter (\<lambda>i. unscheduled_preds (nodes ?st ! i) = 1 \<and> \<not> scheduled ?st ! i) js"
    using Cons.IH[of ?st] Cons.prems other by fastforce
  ultimately show ?case using step Cons.prems(1) by (intro exI[of _ st']) auto
qed simp

text \<open>
  The loop invariant, with the order of the indices issued so far: counts are the numbers of
  unissued predecessors, the ready list holds exactly the unissued syllables all of whose
  predecessors have issued, and issued syllables come after their predecessors.
\<close>

definition sched_inv :: "mir_syllable list \<Rightarrow> nat list \<Rightarrow> sched_state \<Rightarrow> bool" where
  "sched_inv ss order st \<longleftrightarrow> (let E = edges (build_succ_sets ss) in
     length (nodes st) = length ss \<and> length (scheduled st) = length ss \<and>
     (\<forall>i < length ss. succs (nodes st ! i) = build_succ_sets ss ! i \<and>
        unscheduled_preds (nodes st ! i) = card (preds_of E i - set order) \<and>
        (scheduled st ! i \<longleftrightarrow> i \<in> set order)) \<and>
     out st = map ((!) ss) order \<and> distinct order \<and> set order \<subseteq> {..<length ss} \<and>
     distinct (ready st) \<and>
     set (ready st) = {i. i < length ss \<and> i \<notin> set order \<and> preds_of E i \<subseteq> set order} \<and>
     (\<forall>(i, j) \<in> E. j \<in> set order \<longrightarrow> before order i j))"

lemma sched_inv_init: "sched_inv ss [] (sched_init ss)"
proof -
  have "preds_of (edges (build_succ_sets ss)) i = {} \<longleftrightarrow>
      card (preds_of (edges (build_succ_sets ss)) i) = 0" for i
    using finite_preds_of by (auto simp: card_eq_0_iff)
  then show ?thesis
    by (auto simp: sched_inv_def sched_init_def Let_def compute_heights_frame build_sched_dag_nth)
qed

lemma ready_nonempty:
  assumes "sched_inv ss order st" "length (out st) < length ss"
  shows "ready st \<noteq> []"
proof -
  let ?E = "edges (build_succ_sets ss)"
  note inv = assms(1)[unfolded sched_inv_def Let_def]
  have "card (set order) < card {..<length ss}"
    using inv assms(2) by (simp add: distinct_card)
  then obtain k where k: "k < length ss" "k \<notin> set order"
    by (metis card_mono finite_set leD lessThan_iff subsetI)
  define i where "i = (LEAST k. k < length ss \<and> k \<notin> set order)"
  have i: "i < length ss" "i \<notin> set order"
    using LeastI[of "\<lambda>k. k < length ss \<and> k \<notin> set order" k] k by (auto simp: i_def)
  have "preds_of ?E i \<subseteq> set order"
  proof
    fix p assume "p \<in> preds_of ?E i"
    then have "p < i" "p < length ss" using edges_bounds[of p i ss] by (auto simp: preds_of_def)
    then show "p \<in> set order" using not_less_Least[of p] by (auto simp: i_def)
  qed
  then have "i \<in> set (ready st)" using inv i by blast
  then show ?thesis by auto
qed

lemma select_in_range:
  assumes "ready st \<noteq> []"
  shows "\<exists>pos. sched_select ss st = Some pos \<and> pos < length (ready st)"
proof -
  have rng: "x \<in> set (enumerate 0 (ready st)) \<Longrightarrow> fst x < length (ready st)" for x
    by (auto simp: in_set_enumerate_eq)
  have ne: "enumerate 0 (ready st) \<noteq> []" using assms by (metis length_0_conv length_enumerate)
  show ?thesis
  proof (cases "pick_ready_node ss (nodes st) (ready st) (issue_ready st) (cycle st)")
    case None
    let ?key = "\<lambda>(_, idx). (syllable_required_cycle (ss ! idx) (issue_ready st),
        Reverse (node_height (nodes st ! idx)), idx)"
    obtain x where m: "min_by_key ?key (enumerate 0 (ready st)) = Some x"
      using ne by (cases "min_by_key ?key (enumerate 0 (ready st))") simp_all
    then have "fst x < length (ready st)" using min_by_key_Some[OF m] rng by blast
    then show ?thesis using None m by (simp add: sched_select_def pick_earliest_node_def)
  next
    case (Some pos)
    then obtain p i where m: "max_by_key (\<lambda>(_, idx). (node_height (nodes st ! idx), Reverse idx))
        (filter (\<lambda>(_, idx). syllable_required_cycle (ss ! idx) (issue_ready st) \<le> cycle st)
           (enumerate 0 (ready st))) = Some (p, i)" "pos = p"
      by (auto simp: pick_ready_node_def)
    then have "p < length (ready st)" using max_by_key_Some[OF m(1)] rng by force
    then show ?thesis using Some m(2) by (simp add: sched_select_def)
  qed
qed

text \<open>Issuing node \<open>idx\<close> takes it off the predecessors that its successors still wait for.\<close>

lemma succs_of_node:
  assumes "idx < length ss"
  shows "j \<in> set (build_succ_sets ss ! idx) \<longleftrightarrow> idx \<in> preds_of (edges (build_succ_sets ss)) j"
    "j \<in> set (build_succ_sets ss ! idx) \<Longrightarrow> j < length ss \<and> idx < j" "distinct (build_succ_sets ss ! idx)"
proof -
  show js: "j \<in> set (build_succ_sets ss ! idx) \<longleftrightarrow> idx \<in> preds_of (edges (build_succ_sets ss)) j" for j
    using assms by (auto simp: edges_def preds_of_def)
  then show "j \<in> set (build_succ_sets ss ! idx) \<Longrightarrow> j < length ss \<and> idx < j"
    using edges_bounds[of idx j ss] by (auto simp: preds_of_def)
  show "distinct (build_succ_sets ss ! idx)"
    using distinct_build_succ_sets[of ss] assms by (simp add: distinct_sets_def)
qed

lemma waiting_preds_issue:
  assumes "idx \<notin> set order"
  shows "card (preds_of E j - set (order @ [idx])) = card (preds_of E j - set order) - (if idx \<in> preds_of E j then 1 else 0)"
proof -
  have "preds_of E j - set (order @ [idx]) = preds_of E j - set order - {idx}" by auto
  then show ?thesis using assms by (simp only: card_Diff_singleton_if) simp
qed

lemma waiting_preds_one:
  assumes "idx \<in> preds_of E j" "idx \<notin> set order"
  shows "card (preds_of E j - set order) = 1 \<longleftrightarrow> preds_of E j \<subseteq> insert idx (set order)"
proof -
  have idx: "idx \<in> preds_of E j - set order" using assms by blast
  then have "card (preds_of E j - set order) = 1 \<longleftrightarrow> preds_of E j - set order = {idx}"
    by (metis One_nat_def card_1_singleton_iff singletonD)
  then show ?thesis using idx by blast
qed

lemma sched_issue_inv:
  assumes inv: "sched_inv ss order st" and pos: "pos < length (ready st)"
  shows "\<exists>st'. sched_issue ss pos st = Inr st' \<and> sched_inv ss (order @ [ready st ! pos]) st'"
proof -
  let ?E = "edges (build_succ_sets ss)"
  note inv = inv[unfolded sched_inv_def Let_def]
  obtain idx rest where sw: "swap_remove (ready st) pos = (idx, rest)" by fastforce
  have dr: "distinct (ready st)" using inv by blast
  note rest = swap_remove_props[OF pos dr sw]
  have idx: "idx < length ss" "idx \<notin> set order" "preds_of ?E idx \<subseteq> set order"
    using inv pos rest(1) nth_mem[OF pos] by auto
  define cyc where "cyc = max (cycle st) (syllable_required_cycle (ss ! idx) (issue_ready st))"
  define st1 where "st1 = st\<lparr>ready := rest, cycle := cyc + 1,
      issue_ready := update_ready_after_mir_syllable (ss ! idx) cyc (issue_ready st),
      scheduled := (scheduled st)[idx := True], out := out st @ [ss ! idx]\<rparr>"
  let ?js = "build_succ_sets ss ! idx"
  note js = succs_of_node(1)[OF idx(1)] and jlt = succs_of_node(2)[OF idx(1)] and djs = succs_of_node(3)[OF idx(1)]
  have fin: "finite (preds_of ?E j)" for j by (rule finite_preds_of)
  have "\<forall>j \<in> set ?js. j < length (nodes st1) \<and> 0 < unscheduled_preds (nodes st1 ! j)"
    using inv jlt js idx(2) fin by (auto simp: st1_def card_gt_0_iff)
  from release_all[OF djs this] obtain st' where st': "try_fold release_succ st1 ?js = Inr st'"
      "length (nodes st') = length (nodes st1)" "scheduled st' = scheduled st1" "out st' = out st1"
      "\<forall>i. succs (nodes st' ! i) = succs (nodes st1 ! i) \<and>
         unscheduled_preds (nodes st' ! i) = unscheduled_preds (nodes st1 ! i) - (if i \<in> set ?js then 1 else 0)"
      "ready st' = ready st1 @ filter (\<lambda>j. unscheduled_preds (nodes st1 ! j) = 1 \<and> \<not> scheduled st1 ! j) ?js"
    by blast
  have cnt: "card (preds_of ?E j - set (order @ [idx])) =
      card (preds_of ?E j - set order) - (if j \<in> set ?js then 1 else 0)" for j
    using waiting_preds_issue[OF idx(2)] js by simp
  have one: "card (preds_of ?E j - set order) = 1 \<longleftrightarrow> preds_of ?E j \<subseteq> insert idx (set order)"
    if "j \<in> set ?js" for j using waiting_preds_one[OF _ idx(2)] that js by blast
  have n1: "unscheduled_preds (nodes st1 ! j) = card (preds_of ?E j - set order)"
      "scheduled st1 ! j \<longleftrightarrow> j \<in> set (order @ [idx])" "succs (nodes st1 ! j) = build_succ_sets ss ! j"
    if "j < length ss" for j
    using inv that idx(1) by (auto simp: st1_def nth_list_update)
  have ready': "set (ready st') =
      {i. i < length ss \<and> i \<notin> set (order @ [idx]) \<and> preds_of ?E i \<subseteq> set (order @ [idx])}" (is "_ = ?R")
  proof (intro set_eqI)
    fix i
    have "i \<in> set (ready st') \<longleftrightarrow> i \<in> set rest \<or> i \<in> set ?js \<and> i \<notin> set (order @ [idx]) \<and>
        preds_of ?E i \<subseteq> insert idx (set order)"
      using one[of i] n1[of i] jlt[of i] by (auto simp: st'(6) st1_def)
    moreover have "i \<in> set rest \<longleftrightarrow> i < length ss \<and> i \<notin> set (order @ [idx]) \<and> preds_of ?E i \<subseteq> set order"
      using inv rest(3) by auto
    ultimately show "i \<in> set (ready st') \<longleftrightarrow> i \<in> ?R" using js[of i] jlt[of i] by auto
  qed
  have "distinct (ready st')"
    using rest(2,3) djs js inv idx(2) by (auto simp: st'(6) st1_def)
  moreover have "before (order @ [idx]) i j" if "(i, j) \<in> ?E" "j \<in> set (order @ [idx])" for i j
    using inv that idx by (auto simp: before_append before_Cons preds_of_def)
  moreover have "length (nodes st') = length ss" "length (scheduled st') = length ss"
      "out st' = map ((!) ss) (order @ [idx])"
    using inv by (simp_all add: st' st1_def)
  ultimately have "sched_inv ss (order @ [idx]) st'"
    unfolding sched_inv_def Let_def using inv idx(1,2) ready' n1 cnt st'(3,5) by auto
  moreover have "sched_issue ss pos st = Inr st'"
    using st'(1) sw inv idx(1) by (simp add: sched_issue_def Let_def st1_def cyc_def)
  ultimately show ?thesis using rest(1) by blast
qed

lemma sched_loop_inv:
  assumes "sched_inv ss order st"
  shows "\<exists>order' st'. sched_loop ss st = Inr (map ((!) ss) order') \<and> sched_inv ss order' st' \<and>
    length order' = length ss"
  using assms
proof (induction "length ss - length order" arbitrary: order st)
  case 0
  have "length order = card (set order)" "card (set order) \<le> length ss"
    using 0(2) card_mono[of "{..<length ss}" "set order"]
    by (auto simp: sched_inv_def Let_def distinct_card)
  then show ?case
    using 0 by (intro exI[of _ order] exI[of _ st])
      (auto simp: sched_loop.simps[of ss st] sched_inv_def Let_def)
next
  case (Suc n)
  have len: "length (out st) < length ss" using Suc.hyps(2) Suc.prems by (simp add: sched_inv_def Let_def)
  obtain pos where pos: "sched_select ss st = Some pos" "pos < length (ready st)"
    using select_in_range[OF ready_nonempty[OF Suc.prems len]] by blast
  obtain st' where st': "sched_issue ss pos st = Inr st'" "sched_inv ss (order @ [ready st ! pos]) st'"
    using sched_issue_inv[OF Suc.prems pos(2)] by blast
  then show ?case
    using Suc.hyps(1)[OF _ st'(2)] Suc.hyps(2) len pos(1) by (simp add: sched_loop.simps[of ss st])
qed

text \<open>A linearisation: a permutation of the indices in which conflicting syllables keep their order.\<close>

definition linearisation :: "mir_syllable list \<Rightarrow> nat list \<Rightarrow> bool" where
  "linearisation ss order \<longleftrightarrow>
     distinct order \<and> set order = {..<length ss} \<and>
     (\<forall>j < length ss. \<forall>i < j. conflict (ss ! i) (ss ! j) \<longrightarrow> before order i j)"

lemma before_trans: "distinct xs \<Longrightarrow> before xs a b \<Longrightarrow> before xs b c \<Longrightarrow> before xs a c"
  by (induction xs) (auto simp: before_Cons dest: before_set)

lemma before_trancl:
  assumes "(i, j) \<in> E\<^sup>+" "distinct order" "\<And>i j. (i, j) \<in> E \<Longrightarrow> before order i j"
  shows "before order i j"
  using assms(1)
proof (induction rule: trancl_induct)
  case (step j k)
  then show ?case using before_trans[OF assms(2)] assms(3) by blast
qed (rule assms(3))

lemma list_schedule_linearisation:
  "\<exists>order. list_schedule_syllables ss = Inr (map ((!) ss) order) \<and> linearisation ss order"
proof (cases "length ss \<le> 1")
  case True
  then have "linearisation ss [0..<length ss]"
    by (auto simp: linearisation_def lessThan_atLeast0 before_upt)
  then show ?thesis using True by (intro exI[of _ "[0..<length ss]"])
      (simp add: list_schedule_syllables_def map_nth)
next
  case False
  obtain order st' where o: "sched_loop ss (sched_init ss) = Inr (map ((!) ss) order)"
      "sched_inv ss order st'" "length order = length ss"
    using sched_loop_inv[OF sched_inv_init] by blast
  note inv = o(2)[unfolded sched_inv_def Let_def]
  have all: "set order = {..<length ss}"
    using inv o(3) by (intro card_subset_eq) (auto simp: distinct_card)
  have dist: "distinct order" using inv by blast
  have edge: "before order i j" if "(i, j) \<in> edges (build_succ_sets ss)" for i j
    using inv all that edges_bounds[OF that] by auto
  have "before order i j" if "j < length ss" "i < j" "conflict (ss ! i) (ss ! j)" for i j
    using before_trancl[OF conflict_path[OF that(2,1,3)] dist edge] .
  then have "linearisation ss order" using all dist unfolding linearisation_def by blast
  then show ?thesis using False o(1) by (auto simp: list_schedule_syllables_def)
qed

lemma linearisation_exec:
  assumes "linearisation ss order"
  shows "exec M (map ((!) ss) order) st = exec M ss st"
proof -
  have "fold (exec_syl M) (map ((!) ss) order) st = fold (exec_syl M) (map ((!) ss) [0..<length ss]) st"
    using assms by (intro mir.fold_reorder)
      (auto simp: linearisation_def lessThan_atLeast0 before_upt)
  then show ?thesis by (simp add: exec_def map_nth)
qed

lemma linearisation_mset: "linearisation ss order \<Longrightarrow> mset (map ((!) ss) order) = mset ss"
  by (metis linearisation_def lessThan_atLeast0 distinct_upt map_nth mset_map set_eq_iff_mset_eq_distinct set_upt)

text \<open>
  C1: list scheduling is semantics-preserving and total.  For every list of syllables the scheduler
  returns (its \<open>expect\<close> never fails, no predecessor count underflows, the loop ends), its result is a
  permutation of the input, and on every machine and from every state the scheduled list leaves
  exactly the same registers and memories as the list in program order.
\<close>

theorem list_schedule_preserves_execution:
  "\<exists>out. list_schedule_syllables ss = Inr out \<and> mset out = mset ss \<and>
     (\<forall>(M :: ('v, 's, 'g) isa) st. exec M out st = exec M ss st)"
  using list_schedule_linearisation[of ss] linearisation_exec linearisation_mset by metis

text \<open>
  C21: the dependence graph is sound and acyclic: every edge points forward in program order, and
  whenever two syllables conflict (one writes a register the other reads or writes, or both access
  memory that may alias) there is a path between them, so no legal order can swap them.
\<close>

theorem sched_dag_sound:
  "(\<forall>(i, j) \<in> edges (map succs (build_sched_dag ss)). i < j \<and> j < length ss) \<and>
   (\<forall>j < length ss. \<forall>i < j. conflict (ss ! i) (ss ! j) \<longrightarrow>
      (i, j) \<in> (edges (map succs (build_sched_dag ss)))\<^sup>+)"
proof -
  have "map succs (build_sched_dag ss) = build_succ_sets ss"
    by (rule nth_equalityI) (simp_all add: build_sched_dag_nth)
  then show ?thesis using edges_bounds conflict_path by auto
qed

text \<open>Witness: in the demo block the two moves reach the multiplication and that reaches the store.\<close>

theorem sched_dag_sound_witness:
  "(0, 2) \<in> (edges (map succs (build_sched_dag (syllables (hd (blocks demo_mir))))))\<^sup>+ \<and>
   (2, 3) \<in> (edges (map succs (build_sched_dag (syllables (hd (blocks demo_mir))))))\<^sup>+"
proof -
  let ?ss = "syllables (hd (blocks demo_mir))"
  have "conflict (?ss ! 0) (?ss ! 2)" "conflict (?ss ! 2) (?ss ! 3)" "length ?ss = 4"
    by (simp_all add: demo_mir_def conflict_def reg_conflict_def dest_reg_key_def source_reg_keys_def
        map_filter_simps source_class_def predicate_sources_def writes_gpr_def)
  then show ?thesis using sched_dag_sound[of ?ss] by auto
qed

lemma list_schedule_block_refines:
  "\<exists>b'. list_schedule_block b = Inr b' \<and> label b' = label b \<and> terminator b' = terminator b \<and>
     mset (syllables b') = mset (syllables b) \<and>
     (\<forall>(M :: ('v, 's, 'g) isa) st. exec M (syllables b') st = exec M (syllables b) st)"
proof -
  obtain order where "list_schedule_syllables (syllables b) = Inr (map ((!) (syllables b)) order)"
      "linearisation (syllables b) order"
    using list_schedule_linearisation by blast
  then show ?thesis
    by (auto simp: list_schedule_block_def linearisation_exec simp flip: linearisation_mset)
qed

lemma list_schedule_function_lift:
  assumes "\<And>b. \<exists>b'. list_schedule_block b = Inr b' \<and> R b b'"
  shows "\<exists>f'. list_schedule_function f = Inr f' \<and> fname f' = fname f \<and> list_all2 R (blocks f) (blocks f')"
proof -
  obtain g where g: "list_schedule_block b = Inr (g b)" "R b (g b)" for b using assms by metis
  have "try_map list_schedule_block bs = Inr (map g bs)" for bs
    by (induction bs) (simp_all add: g(1))
  moreover have "list_all2 R bs (map g bs)" for bs
    using g(2) by (simp add: list_all2_conv_all_nth)
  ultimately show ?thesis by (simp add: list_schedule_function_def)
qed

text \<open>Scheduling keeps labels, terminators and the syllables of each block.\<close>

lemma list_schedule_function_keeps:
  "\<exists>f'. list_schedule_function f = Inr f' \<and> fname f' = fname f \<and>
     list_all2 (\<lambda>b b'. label b' = label b \<and> terminator b' = terminator b \<and> set (syllables b') = set (syllables b))
       (blocks f) (blocks f')"
  by (rule list_schedule_function_lift) (metis list_schedule_block_refines mset_eq_setD)

text \<open>
  C27: scheduling a function keeps its name, its blocks in order, their labels and terminators, and
  in every block the syllables are permuted without changing what the block computes.
\<close>

theorem list_schedule_function_blocks:
  "\<exists>f'. list_schedule_function f = Inr f' \<and> fname f' = fname f \<and>
     list_all2 (\<lambda>b b'. label b' = label b \<and> terminator b' = terminator b \<and>
        mset (syllables b') = mset (syllables b) \<and>
        (\<forall>(M :: ('v, 's, 'g) isa) st. exec M (syllables b') st = exec M (syllables b) st))
       (blocks f) (blocks f')"
  by (rule list_schedule_function_lift) (rule list_schedule_block_refines)

text \<open>A dependence path and its latency.\<close>

fun dep_path :: "(nat \<times> nat) set \<Rightarrow> nat list \<Rightarrow> bool" where
  "dep_path E [] = False"
| "dep_path E [i] = True"
| "dep_path E (i # j # ks) = ((i, j) \<in> E \<and> dep_path E (j # ks))"

definition path_latency :: "mir_syllable list \<Rightarrow> nat list \<Rightarrow> nat" where
  "path_latency ss is = sum_list (map (\<lambda>i. latency (opc (ss ! i))) is)"

lemma foldr_max_ge: "x \<in> set xs \<Longrightarrow> x \<le> foldr max xs (0 :: nat)"
  by (induction xs) (auto simp: le_max_iff_disj)

lemma foldr_max_attained: "foldr max xs (0 :: nat) = 0 \<or> foldr max xs 0 \<in> set xs"
  by (induction xs) (auto simp: max_def)

lemma height_equation:
  assumes "i < length ss"
  defines "ns \<equiv> compute_heights (build_sched_dag ss) ss"
  shows "node_height (ns ! i) =
    latency (opc (ss ! i)) + foldr max (map (\<lambda>j. node_height (ns ! j)) (build_succ_sets ss ! i)) 0"
proof -
  have "i < j" if "i < length (build_sched_dag ss)" "j \<in> set (succs (build_sched_dag ss ! i))" for i j
    using that edges_bounds[of i j ss] by (simp add: build_sched_dag_nth edges_def)
  from heights_from_eq[OF le0 this, of "build_sched_dag ss" ss] assms(1)
  have "node_height (ns ! i) = height_of ns ss i"
    by (simp add: ns_def compute_heights_def heights_from_def)
  then show ?thesis using assms(1) by (simp add: height_of_def ns_def compute_heights_frame build_sched_dag_nth)
qed

lemma height_bounds_path:
  assumes "dep_path (edges (build_succ_sets ss)) is" "hd is < length ss"
  shows "path_latency ss is \<le> node_height (compute_heights (build_sched_dag ss) ss ! hd is)"
  using assms
proof (induction "edges (build_succ_sets ss)" "is" rule: dep_path.induct)
  case (2 i)
  then show ?case by (simp add: path_latency_def height_equation)
next
  case (3 i j ks)
  then have j: "j < length ss" "j \<in> set (build_succ_sets ss ! i)"
    using edges_bounds[of i j ss] by (auto simp: edges_def)
  then have "node_height (compute_heights (build_sched_dag ss) ss ! j) \<le>
      foldr max (map (\<lambda>j. node_height (compute_heights (build_sched_dag ss) ss ! j)) (build_succ_sets ss ! i)) 0"
    by (intro foldr_max_ge) auto
  then show ?case using 3 j(1) by (simp add: path_latency_def height_equation[of i])
qed simp

lemma height_attained:
  assumes "i < length ss"
  shows "\<exists>is. dep_path (edges (build_succ_sets ss)) (i # is) \<and>
    path_latency ss (i # is) = node_height (compute_heights (build_sched_dag ss) ss ! i)"
  using assms
proof (induction "length ss - i" arbitrary: i rule: less_induct)
  case less
  let ?h = "\<lambda>j. node_height (compute_heights (build_sched_dag ss) ss ! j)"
  let ?m = "foldr max (map ?h (build_succ_sets ss ! i)) 0"
  consider "?m = 0" | j where "j \<in> set (build_succ_sets ss ! i)" "?m = ?h j"
    using foldr_max_attained[of "map ?h (build_succ_sets ss ! i)"] by auto
  then show ?case
  proof cases
    case 1
    then show ?thesis
      using less.prems by (intro exI[of _ "[]"]) (simp add: path_latency_def height_equation)
  next
    case 2
    then have e: "(i, j) \<in> edges (build_succ_sets ss)" using less.prems by (simp add: edges_def)
    then obtain ks where "dep_path (edges (build_succ_sets ss)) (j # ks)" "path_latency ss (j # ks) = ?h j"
      using less.hyps[of j] edges_bounds[OF e] diff_less_mono2[of i j "length ss"] by auto
    then show ?thesis
      using e 2(2) less.prems by (intro exI[of _ "j # ks"]) (simp add: path_latency_def height_equation[of i])
  qed
qed

text \<open>
  C26: the priority the scheduler uses is the critical path.  The height of a syllable is at least
  the latency of every dependence path that starts there, and some path attains it.
\<close>

theorem compute_heights_critical_path:
  assumes "i < length ss"
  defines "E \<equiv> edges (map succs (build_sched_dag ss))"
  defines "h \<equiv> node_height (compute_heights (build_sched_dag ss) ss ! i)"
  shows "(\<forall>is. dep_path E (i # is) \<longrightarrow> path_latency ss (i # is) \<le> h) \<and>
    (\<exists>is. dep_path E (i # is) \<and> path_latency ss (i # is) = h)"
proof -
  have "map succs (build_sched_dag ss) = build_succ_sets ss"
    by (rule nth_equalityI) (simp_all add: build_sched_dag_nth)
  then show ?thesis
    using height_bounds_path[of ss "i # _"] height_attained[of i ss] assms by simp
qed

theorem compute_heights_critical_path_witness:
  "path_latency (syllables (hd (blocks demo_mir))) [0, 2, 3] \<le>
     node_height (compute_heights (build_sched_dag (syllables (hd (blocks demo_mir))))
       (syllables (hd (blocks demo_mir))) ! 0)"
proof -
  let ?ss = "syllables (hd (blocks demo_mir))"
  have "map succs (build_sched_dag ?ss) = [[2], [2], [3], []]" by code_simp
  then have "dep_path (edges (map succs (build_sched_dag ?ss))) (0 # [2, 3])" by (simp add: edges_def)
  moreover have "0 < length ?ss" by (simp add: demo_mir_def)
  ultimately show ?thesis using compute_heights_critical_path[of 0 ?ss] by blast
qed

end
