(* ===== verification/Scoreboard.thy ===== *)
theory Scoreboard
  imports Slots Sched
begin

text \<open>
  The result scoreboard of \<open>vliw-backend/src/lib.rs\<close>: \<open>ReadyState\<close> records for each register the cycle
  from which its last result can be read, and is advanced bundle by bundle.  The lemmas tie the
  scoreboard to positions in the bundle sequence: a bundle whose sources are ready reads no result
  before the latency of its producer has passed.
\<close>

fun operands_ready :: "ready_state \<Rightarrow> nat \<Rightarrow> bool \<Rightarrow> bool \<Rightarrow> operand list \<Rightarrow> bool" where
  "operands_ready rdy cyc skip_gpr_dest skip_pred_dest [] = True"
| "operands_ready rdy cyc skip_gpr_dest skip_pred_dest (opr # oprs) =
     (case opr of
        Reg r \<Rightarrow> if skip_gpr_dest then operands_ready rdy cyc False skip_pred_dest oprs
                 else unwrap_or (gpr_ready rdy r) 0 \<le> cyc \<and>
                      operands_ready rdy cyc skip_gpr_dest skip_pred_dest oprs
      | Pred r \<Rightarrow> if skip_pred_dest then operands_ready rdy cyc skip_gpr_dest False oprs
                 else unwrap_or (pred_ready rdy r) 0 \<le> cyc \<and>
                      operands_ready rdy cyc skip_gpr_dest skip_pred_dest oprs
      | MemAddr base _ \<Rightarrow> unwrap_or (gpr_ready rdy base) 0 \<le> cyc \<and>
                      operands_ready rdy cyc skip_gpr_dest skip_pred_dest oprs
      | _ \<Rightarrow> operands_ready rdy cyc skip_gpr_dest skip_pred_dest oprs)"

definition sources_ready_at :: "opcode \<Rightarrow> asm_syllable \<Rightarrow> nat \<Rightarrow> ready_state \<Rightarrow> bool" where
  "sources_ready_at op s cyc rdy = operands_ready rdy cyc (writes_gpr op) (writes_pred op) (syl_operands s)"

definition bundle_sources_ready_at :: "asm_bundle \<Rightarrow> nat \<Rightarrow> ready_state \<Rightarrow> bool" where
  "bundle_sources_ready_at b cyc rdy =
     list_all (\<lambda>s. case from_mnemonic (syl_opcode s) of
                     Some op \<Rightarrow> sources_ready_at op s cyc rdy
                   | None \<Rightarrow> False)
       (somes (slots b))"

text \<open>The body of the loop in \<open>update_ready_after_bundle\<close>.\<close>

definition update_ready_after_syllable :: "nat \<Rightarrow> asm_syllable \<Rightarrow> ready_state \<Rightarrow> ready_state" where
  "update_ready_after_syllable cyc s rdy =
     (case from_mnemonic (syl_opcode s) of
        None \<Rightarrow> rdy
      | Some op \<Rightarrow>
          let result_ready = cyc + latency op;
              rdy = (if writes_gpr op then
                       case first (syl_operands s) of
                         Some (Reg r) \<Rightarrow>
                           if r \<noteq> ZERO_REG then rdy\<lparr>gpr_ready := (gpr_ready rdy)(r \<mapsto> result_ready)\<rparr> else rdy
                       | _ \<Rightarrow> rdy
                     else rdy)
          in if writes_pred op then
               case first (syl_operands s) of
                 Some (Pred r) \<Rightarrow> rdy\<lparr>pred_ready := (pred_ready rdy)(r \<mapsto> result_ready)\<rparr>
               | _ \<Rightarrow> rdy
             else rdy)"

definition update_ready_after_bundle :: "asm_bundle \<Rightarrow> nat \<Rightarrow> ready_state \<Rightarrow> ready_state" where
  "update_ready_after_bundle b cyc rdy = fold (update_ready_after_syllable cyc) (somes (slots b)) rdy"

definition update_ready_after_packed_bundles :: "asm_bundle list \<Rightarrow> nat \<Rightarrow> ready_state \<Rightarrow> ready_state" where
  "update_ready_after_packed_bundles bs start_cycle rdy =
     fold (\<lambda>(cyc, b). update_ready_after_bundle b (start_cycle + cyc)) (enumerate 0 bs) rdy"

definition ready_after_bundles :: "ready_state \<Rightarrow> nat \<Rightarrow> asm_bundle list \<Rightarrow> ready_state" where
  "ready_after_bundles initial start_cycle bs = update_ready_after_packed_bundles bs start_cycle initial"

text \<open>A \<open>HashMap<u8, u64>\<close> has at most 256 keys: iterating its values tests each of them.\<close>

definition all_u8 :: "u8 list" where
  "all_u8 = map of_nat [0..<256]"

definition has_pending_result_at :: "ready_state \<Rightarrow> nat \<Rightarrow> bool" where
  "has_pending_result_at rdy cyc =
     list_ex (\<lambda>r. (case gpr_ready rdy r of Some c \<Rightarrow> cyc < c | None \<Rightarrow> False) \<or>
                  (case pred_ready rdy r of Some c \<Rightarrow> cyc < c | None \<Rightarrow> False)) all_u8"


section \<open>Basic facts\<close>

lemma set_all_u8 [simp]: "set all_u8 = UNIV"
proof -
  have "r \<in> of_nat ` {0..<256}" for r :: u8
    using unat_less_pow[of r] by (intro image_eqI[of _ _ "unat r"]) simp_all
  then show ?thesis by (auto simp: all_u8_def)
qed

lemma has_pending_iff:
  "has_pending_result_at rdy cyc \<longleftrightarrow>
     (\<exists>r c. (gpr_ready rdy r = Some c \<or> pred_ready rdy r = Some c) \<and> cyc < c)"
proof -
  have "(case m r of Some c \<Rightarrow> cyc < c | None \<Rightarrow> False) \<longleftrightarrow> (\<exists>c. m r = Some c \<and> cyc < c)"
    for m :: "u8 \<rightharpoonup> nat" and r by (cases "m r") simp_all
  then show ?thesis by (auto simp: has_pending_result_at_def list_ex_iff)
qed

lemma ready_after_Nil [simp]: "ready_after_bundles rdy start [] = rdy"
  by (simp add: ready_after_bundles_def update_ready_after_packed_bundles_def)

lemma ready_after_snoc [simp]:
  "ready_after_bundles rdy start (bs @ [b]) =
     update_ready_after_bundle b (start + length bs) (ready_after_bundles rdy start bs)"
  by (simp add: ready_after_bundles_def update_ready_after_packed_bundles_def enumerate_append_eq)

lemma ready_after_append:
  "ready_after_bundles rdy start (bs @ cs) =
     ready_after_bundles (ready_after_bundles rdy start bs) (start + length bs) cs"
proof (induction cs rule: rev_induct)
  case (snoc c cs)
  then show ?case by (simp flip: append_assoc add: add.assoc)
qed simp

lemma update_ready_empty [simp]: "update_ready_after_bundle empty_bundle cyc rdy = rdy"
  by (simp add: update_ready_after_bundle_def empty_bundle_def)

lemma bundle_sources_ready_iff:
  "bundle_sources_ready_at b cyc rdy \<longleftrightarrow>
     (\<forall>s \<in> set (bundle_syllables b). \<exists>op. from_mnemonic (syl_opcode s) = Some op \<and> sources_ready_at op s cyc rdy)"
  by (auto simp: bundle_sources_ready_at_def list_all_iff bundle_syllables_def split: option.splits)

lemma bundle_sources_ready_empty [simp]: "bundle_sources_ready_at empty_bundle cyc rdy"
  by (simp add: bundle_sources_ready_iff)

text \<open>Sources stay ready.\<close>

lemma operands_ready_mono: "operands_ready rdy c g p oprs \<Longrightarrow> c \<le> c' \<Longrightarrow> operands_ready rdy c' g p oprs"
  by (induction rdy c g p oprs rule: operands_ready.induct) (auto split: operand.splits if_splits)

lemma bundle_sources_ready_mono:
  "bundle_sources_ready_at b c rdy \<Longrightarrow> c \<le> c' \<Longrightarrow> bundle_sources_ready_at b c' rdy"
  by (fastforce simp: bundle_sources_ready_iff sources_ready_at_def intro: operands_ready_mono)

text \<open>A bundle sequence that never waits on the hardware: each bundle finds its sources ready.\<close>

definition stall_free :: "ready_state \<Rightarrow> nat \<Rightarrow> asm_bundle list \<Rightarrow> bool" where
  "stall_free rdy start bs \<longleftrightarrow>
     (\<forall>n < length bs. bundle_sources_ready_at (bs ! n) (start + n) (ready_after_bundles rdy start (take n bs)))"

lemma stall_free_Nil [simp]: "stall_free rdy start []"
  by (simp add: stall_free_def)

lemma stall_free_snoc:
  "stall_free rdy start (bs @ [b]) \<longleftrightarrow>
     stall_free rdy start bs \<and> bundle_sources_ready_at b (start + length bs) (ready_after_bundles rdy start bs)"
  by (auto simp: stall_free_def less_Suc_eq nth_append)

lemma stall_free_append:
  "stall_free rdy start (bs @ cs) \<longleftrightarrow>
     stall_free rdy start bs \<and> stall_free (ready_after_bundles rdy start bs) (start + length bs) cs"
proof (induction cs rule: rev_induct)
  case (snoc c cs)
  then show ?case
    by (auto simp: stall_free_snoc ready_after_append add.assoc simp flip: append_assoc)
qed simp

section \<open>Positions\<close>

text \<open>Bundle \<open>d\<close> holds a syllable with opcode \<open>op\<close> that writes register \<open>r\<close>.\<close>

definition bundle_writes :: "asm_bundle \<Rightarrow> u8 \<Rightarrow> opcode \<Rightarrow> bool" where
  "bundle_writes b r op \<longleftrightarrow>
     (\<exists>s \<in> set (bundle_syllables b). from_mnemonic (syl_opcode s) = Some op \<and> gpr_dest op s = Some r)"

text \<open>The last write of \<open>r\<close> before bundle \<open>n\<close> is the one of opcode \<open>op\<close> in bundle \<open>d\<close>.\<close>

definition last_write :: "asm_bundle list \<Rightarrow> nat \<Rightarrow> u8 \<Rightarrow> nat \<Rightarrow> opcode \<Rightarrow> bool" where
  "last_write bs n r d op \<longleftrightarrow>
     d < n \<and> bundle_writes (bs ! d) r op \<and> (\<forall>op'. bundle_writes (bs ! d) r op' \<longrightarrow> op' = op) \<and>
     (\<forall>e op'. d < e \<longrightarrow> e < n \<longrightarrow> \<not> bundle_writes (bs ! e) r op')"

definition no_early_reads :: "asm_bundle list \<Rightarrow> bool" where
  "no_early_reads bs \<longleftrightarrow>
     (\<forall>n < length bs. \<forall>s \<in> set (bundle_syllables (bs ! n)). \<forall>op r d op'.
        from_mnemonic (syl_opcode s) = Some op \<longrightarrow> r \<noteq> ZERO_REG \<longrightarrow>
        r \<in> set (gpr_sources (writes_gpr op) (syl_operands s)) \<longrightarrow> last_write bs n r d op' \<longrightarrow>
        d + latency op' \<le> n)"

lemma gpr_ready_after_syllable:
  "gpr_ready (update_ready_after_syllable cyc s rdy) r =
     (case from_mnemonic (syl_opcode s) of
        None \<Rightarrow> gpr_ready rdy r
      | Some op \<Rightarrow> if gpr_dest op s = Some r \<and> r \<noteq> ZERO_REG then Some (cyc + latency op) else gpr_ready rdy r)"
  by (auto simp: update_ready_after_syllable_def gpr_dest_def Let_def split: option.splits operand.splits)

lemma gpr_ready_after_syllables:
  assumes "\<forall>s \<in> set ss. \<forall>op'. from_mnemonic (syl_opcode s) = Some op' \<longrightarrow> gpr_dest op' s = Some r \<longrightarrow> op' = op"
    and "r \<noteq> ZERO_REG"
  shows "gpr_ready (fold (update_ready_after_syllable cyc) ss rdy) r =
    (if \<exists>s \<in> set ss. from_mnemonic (syl_opcode s) = Some op \<and> gpr_dest op s = Some r
     then Some (cyc + latency op) else gpr_ready rdy r)"
  using assms(1)
proof (induction ss arbitrary: rdy)
  case (Cons s ss)
  have step: "gpr_ready (update_ready_after_syllable cyc s rdy) r =
      (if from_mnemonic (syl_opcode s) = Some op \<and> gpr_dest op s = Some r then Some (cyc + latency op)
       else gpr_ready rdy r)"
  proof (cases "from_mnemonic (syl_opcode s)")
    case (Some a)
    have "(a = op \<and> gpr_dest op s = Some r) = (gpr_dest a s = Some r)"
      using bspec[OF Cons.prems, of s] Some by auto
    moreover have "gpr_dest a s = Some r \<Longrightarrow> latency a = latency op"
      using bspec[OF Cons.prems, of s] Some by auto
    ultimately show ?thesis using assms(2) by (simp add: gpr_ready_after_syllable Some)
  qed (simp add: gpr_ready_after_syllable)
  have "\<forall>s \<in> set ss. \<forall>op'. from_mnemonic (syl_opcode s) = Some op' \<longrightarrow>
      gpr_dest op' s = Some r \<longrightarrow> op' = op"
    using Cons.prems by (meson list.set_intros(2))
  note rest = Cons.IH[OF this, of "update_ready_after_syllable cyc s rdy"]
  show ?case by (auto simp: rest step)
qed simp

lemma gpr_ready_after_bundle:
  assumes "\<forall>op'. bundle_writes b r op' \<longrightarrow> op' = op" "r \<noteq> ZERO_REG"
  shows "gpr_ready (update_ready_after_bundle b cyc rdy) r =
    (if bundle_writes b r op then Some (cyc + latency op) else gpr_ready rdy r)"
proof -
  have "\<forall>s \<in> set (somes (slots b)). \<forall>op'. from_mnemonic (syl_opcode s) = Some op' \<longrightarrow>
      gpr_dest op' s = Some r \<longrightarrow> op' = op"
    using assms(1) unfolding bundle_writes_def bundle_syllables_def by blast
  from gpr_ready_after_syllables[OF this assms(2)] show ?thesis
    unfolding update_ready_after_bundle_def bundle_writes_def bundle_syllables_def by simp
qed

lemma gpr_ready_last_write:
  assumes "last_write bs (length bs) r d op" "r \<noteq> ZERO_REG"
  shows "gpr_ready (ready_after_bundles rdy start bs) r = Some (start + d + latency op)"
  using assms(1)
proof (induction bs rule: rev_induct)
  case Nil
  then show ?case by (simp add: last_write_def)
next
  case (snoc b bs)
  show ?case
  proof (cases "d = length bs")
    case True
    then show ?thesis
      using snoc.prems gpr_ready_after_bundle[of b r op] assms(2) by (simp add: last_write_def)
  next
    case False
    then have d: "d < length bs" using snoc.prems by (simp add: last_write_def)
    then have "\<not> bundle_writes b r op'" for op'
      using snoc.prems unfolding last_write_def by (metis length_append_singleton lessI nth_append_length)
    moreover have "last_write bs (length bs) r d op"
      using snoc.prems d unfolding last_write_def by (simp add: nth_append) (metis less_SucI)
    ultimately show ?thesis
      using snoc.IH gpr_ready_after_bundle[of b r op] assms(2) by simp
  qed
qed

lemma operands_ready_gpr:
  "operands_ready rdy cyc g p oprs \<Longrightarrow> r \<in> set (gpr_sources g oprs) \<Longrightarrow> unwrap_or (gpr_ready rdy r) 0 \<le> cyc"
  by (induction rdy cyc g p oprs rule: operands_ready.induct) (auto split: operand.splits if_splits)

lemma stall_free_no_early_reads:
  assumes "stall_free rdy start bs"
  shows "no_early_reads bs"
  unfolding no_early_reads_def
proof (intro allI impI ballI)
  fix n s op r d op'
  assume n: "n < length bs" and s: "s \<in> set (bundle_syllables (bs ! n))"
    and op: "from_mnemonic (syl_opcode s) = Some op" and r: "r \<noteq> ZERO_REG"
    and rd: "r \<in> set (gpr_sources (writes_gpr op) (syl_operands s))" and lw: "last_write bs n r d op'"
  have "last_write (take n bs) (length (take n bs)) r d op'"
    using lw n by (simp add: last_write_def)
  then have "gpr_ready (ready_after_bundles rdy start (take n bs)) r = Some (start + d + latency op')"
    using r by (rule gpr_ready_last_write)
  moreover have "sources_ready_at op s (start + n) (ready_after_bundles rdy start (take n bs))"
    using assms n s op unfolding stall_free_def bundle_sources_ready_iff by fastforce
  ultimately show "d + latency op' \<le> n"
    using operands_ready_gpr[OF _ rd] by (force simp: sources_ready_at_def unwrap_or_def)
qed

end
