(* ===== verification/Codegen.thy ===== *)
theory Codegen
  imports Scoreboard
begin

text \<open>
  Scalar code emission of \<open>vliw-backend/src/lib.rs\<close>: \<open>CodegenCtx\<close> lowers each MIR syllable to one
  assembly syllable, waits with empty bundles until its sources are ready, and emits it alone in a
  bundle; \<open>emit_scalar_vliw_module\<close> does so for every function and verifies the result.

  A panic of the source (an unallocated virtual register, a missing destination, an index out of
  range) is the error \<open>Panic\<close>.
\<close>

record codegen_ctx =
  ready_gpr :: "u8 \<rightharpoonup> nat"
  ready_pred :: "u8 \<rightharpoonup> nat"
  ctx_cycle :: nat

definition codegen_ctx_default :: codegen_ctx where
  "codegen_ctx_default = \<lparr>ready_gpr = Map.empty, ready_pred = Map.empty, ctx_cycle = 0\<rparr>"

text \<open>\<open>LatencyTable::result_ready_after\<close>.\<close>

definition result_ready_after :: "opcode \<Rightarrow> nat" where
  "result_ready_after op = latency op"


section \<open>Lowering one syllable\<close>

definition gpr_for_reg :: "reg \<Rightarrow> compile_error + u8" where
  "gpr_for_reg r =
     (case r of PReg n \<Rightarrow> Inr n | VReg _ \<Rightarrow> Inl (Panic ''codegen received unallocated virtual GPR''))"

definition pred_for_reg :: "reg \<Rightarrow> compile_error + u8" where
  "pred_for_reg r =
     (case r of PReg n \<Rightarrow> Inr n | VReg _ \<Rightarrow> Inl (Panic ''codegen received unallocated virtual predicate''))"

definition gpr_or_imm_operand :: "val \<Rightarrow> compile_error + operand" where
  "gpr_or_imm_operand v =
     (case v of
        ImmV n \<Rightarrow> Inr (Imm n)
      | RegV r \<Rightarrow> and_then (gpr_for_reg r) (\<lambda>n. Inr (Reg n))
      | StackV _ \<Rightarrow> Inl (NotImplemented ''stack address used where scalar operand expected''))"

definition pred_or_gpr_operand :: "bool \<Rightarrow> val \<Rightarrow> compile_error + operand" where
  "pred_or_gpr_operand pred_src v =
     (case v of
        ImmV n \<Rightarrow> Inr (Imm n)
      | RegV r \<Rightarrow> if pred_src then and_then (pred_for_reg r) (\<lambda>n. Inr (Pred n))
                  else and_then (gpr_for_reg r) (\<lambda>n. Inr (Reg n))
      | StackV _ \<Rightarrow> Inl (NotImplemented ''stack address used where scalar operand expected''))"

text \<open>\<open>addr + offset\<close> is \<open>i64\<close> addition.\<close>

definition address_operand :: "val \<Rightarrow> i64 \<Rightarrow> compile_error + operand" where
  "address_operand base offset =
     (case base of
        ImmV addr \<Rightarrow> Inr (MemAddr ZERO_REG (addr + offset))
      | StackV addr \<Rightarrow> Inr (MemAddr ZERO_REG (addr + offset))
      | RegV r \<Rightarrow> and_then (gpr_for_reg r) (\<lambda>n. Inr (MemAddr n offset)))"

definition store_operands :: "val list \<Rightarrow> compile_error + (operand \<times> operand)" where
  "store_operands vs =
     and_then
       (case vs of
          [base, data] \<Rightarrow> Inr (base, 0, data)
        | [base, ImmV offset, data] \<Rightarrow> Inr (base, offset, data)
        | _ \<Rightarrow> Inl (NotImplemented ''unsupported store operand shape''))
       (\<lambda>(base, offset, data).
          and_then (address_operand base offset) (\<lambda>addr.
          and_then (gpr_or_imm_operand data) (\<lambda>d. Inr (addr, d))))"

definition load_address :: "val list \<Rightarrow> compile_error + operand" where
  "load_address vs =
     (case vs of
        [base] \<Rightarrow> address_operand base 0
      | [base, ImmV offset] \<Rightarrow> address_operand base offset
      | _ \<Rightarrow> Inl (NotImplemented ''unsupported load operand shape''))"

definition lower_syllable :: "mir_syllable \<Rightarrow> compile_error + asm_syllable" where
  "lower_syllable s =
     (let op = opc s; m = mnemonic op in
      if op \<in> set [StoreB, StoreH, StoreW, StoreD] then
        and_then (store_operands (srcs s)) (\<lambda>(addr, data). Inr (new_syllable m [addr, data]))
      else if op \<in> set [LoadB, LoadH, LoadW, LoadD] then
        and_then (ok_or (dst s) (Panic ''load dst'')) (\<lambda>d.
        and_then (gpr_for_reg d) (\<lambda>n.
        and_then (load_address (srcs s)) (\<lambda>addr. Inr (new_syllable m [Reg n, addr]))))
      else if writes_pred op then
        and_then (ok_or (dst s) (Panic ''predicate dst'')) (\<lambda>d.
        and_then (pred_for_reg d) (\<lambda>n.
        and_then (try_map (pred_or_gpr_operand (op \<in> set [PNot, PAnd, POr, PXor])) (srcs s)) (\<lambda>oprs.
          Inr (new_syllable m (Pred n # oprs)))))
      else
        and_then (case dst s of None \<Rightarrow> Inr [] | Some d \<Rightarrow> and_then (gpr_for_reg d) (\<lambda>n. Inr [Reg n])) (\<lambda>ds.
        and_then (try_map gpr_or_imm_operand (srcs s)) (\<lambda>oprs. Inr (new_syllable m (ds @ oprs)))))"


section \<open>Emitting one bundle\<close>

type_synonym emit_state = "codegen_ctx \<times> program"

text \<open>The cycle from which each operand can be read; \<open>0\<close> for the destination and for constants.\<close>

fun source_cycles :: "(u8 \<rightharpoonup> nat) \<Rightarrow> (u8 \<rightharpoonup> nat) \<Rightarrow> bool \<Rightarrow> bool \<Rightarrow> operand list \<Rightarrow> nat list" where
  "source_cycles g p skip_gpr_dest skip_pred_dest [] = []"
| "source_cycles g p skip_gpr_dest skip_pred_dest (opr # oprs) =
     (case opr of
        Reg r \<Rightarrow> if skip_gpr_dest then 0 # source_cycles g p False skip_pred_dest oprs
                 else unwrap_or (g r) 0 # source_cycles g p skip_gpr_dest skip_pred_dest oprs
      | Pred r \<Rightarrow> if skip_pred_dest then 0 # source_cycles g p skip_gpr_dest False oprs
                 else unwrap_or (p r) 0 # source_cycles g p skip_gpr_dest skip_pred_dest oprs
      | MemAddr base _ \<Rightarrow> unwrap_or (g base) 0 # source_cycles g p skip_gpr_dest skip_pred_dest oprs
      | _ \<Rightarrow> 0 # source_cycles g p skip_gpr_dest skip_pred_dest oprs)"

definition required_cycle_for_sources :: "codegen_ctx \<Rightarrow> opcode \<Rightarrow> asm_syllable \<Rightarrow> nat" where
  "required_cycle_for_sources ctx op s =
     foldr max
       (source_cycles (ready_gpr ctx) (ready_pred ctx) (writes_gpr op) (writes_pred op) (syl_operands s)) 0"

definition push_item :: "item \<Rightarrow> program \<Rightarrow> program" where
  "push_item it prog = prog\<lparr>items := items prog @ [it]\<rparr>"

text \<open>The \<open>while\<close> loop of \<open>wait_until\<close> pushes one empty bundle per missing cycle.\<close>

function wait_until :: "nat \<Rightarrow> emit_state \<Rightarrow> emit_state" where
  "wait_until cyc (ctx, prog) =
     (if ctx_cycle ctx < cyc
      then wait_until cyc (ctx\<lparr>ctx_cycle := ctx_cycle ctx + 1\<rparr>, push_item (BundleItem empty_bundle) prog)
      else (ctx, prog))"
  by pat_completeness auto
termination
  by (relation "measure (\<lambda>(cyc, ctx, prog). cyc - ctx_cycle ctx)") auto

declare wait_until.simps [simp del]

definition record_result :: "opcode \<Rightarrow> operand option \<Rightarrow> codegen_ctx \<Rightarrow> codegen_ctx" where
  "record_result op d ctx =
     (let rdy = ctx_cycle ctx + result_ready_after op;
          ctx1 = (if writes_gpr op then
                    case d of Some (Reg r) \<Rightarrow>
                      if r \<noteq> ZERO_REG then ctx\<lparr>ready_gpr := (ready_gpr ctx)(r \<mapsto> rdy)\<rparr> else ctx
                    | _ \<Rightarrow> ctx
                  else ctx)
      in if writes_pred op then
           case d of Some (Pred r) \<Rightarrow> ctx1\<lparr>ready_pred := (ready_pred ctx1)(r \<mapsto> rdy)\<rparr> | _ \<Rightarrow> ctx1
         else ctx1)"

definition emit_asm_syllable_in_slot ::
  "emit_state \<Rightarrow> opcode \<Rightarrow> asm_syllable \<Rightarrow> nat \<Rightarrow> compile_error + emit_state" where
  "emit_asm_syllable_in_slot st op s slot =
     (let (ctx, prog) = st in
      if \<not> slot_supports_opcode slot op (processor prog)
      then Inl (NotImplemented ''requested slot is not compatible with opcode'')
      else
        let required_cycle = required_cycle_for_sources ctx op s;
            (ctx, prog) = wait_until required_cycle (ctx, prog)
        in and_then (bundle_with (width_of (processor prog)) slot s) (\<lambda>b.
             let prog = push_item (BundleItem b) prog;
                 ctx = record_result op (first (syl_operands s)) ctx
             in Inr (ctx\<lparr>ctx_cycle := ctx_cycle ctx + 1\<rparr>, prog)))"

definition emit_asm_syllable ::
  "emit_state \<Rightarrow> opcode \<Rightarrow> asm_syllable \<Rightarrow> compile_error + emit_state" where
  "emit_asm_syllable st op s =
     and_then (scalar_slot op (processor (snd st))) (emit_asm_syllable_in_slot st op s)"

definition emit_control_syllable ::
  "emit_state \<Rightarrow> opcode \<Rightarrow> asm_syllable \<Rightarrow> compile_error + emit_state" where
  "emit_control_syllable st op s =
     and_then (x_slot (processor (snd st))) (emit_asm_syllable_in_slot st op s)"

definition emit_syllable :: "emit_state \<Rightarrow> mir_syllable \<Rightarrow> compile_error + emit_state" where
  "emit_syllable st s =
     and_then (lower_syllable s) (\<lambda>asm. emit_asm_syllable st (opc s) asm)"

definition emit_terminator :: "emit_state \<Rightarrow> terminator \<Rightarrow> compile_error + emit_state" where
  "emit_terminator st t =
     (case t of
        ReturnT \<Rightarrow> emit_control_syllable st Ret (new_syllable ''ret'' [])
      | JumpT l \<Rightarrow> emit_control_syllable st Jump (new_syllable ''jmp'' [Label l])
      | BranchT cond l \<Rightarrow>
          and_then (pred_for_reg cond) (\<lambda>pr.
            emit_control_syllable st Branch (new_syllable ''br'' [Pred pr, Label l]))
      | DirectCallT target _ \<Rightarrow> emit_control_syllable st Call (new_syllable ''call'' [Label target]))"


section \<open>Emitting a module\<close>

definition emit_block :: "string \<Rightarrow> emit_state \<Rightarrow> nat \<times> block \<Rightarrow> compile_error + emit_state" where
  "emit_block name st ib =
     (let (idx, b) = ib;
          (ctx, prog) = st;
          prog = (if idx = 0 then push_item (LabelItem name) prog else prog);
          prog = push_item (LabelItem (label b)) prog
      in and_then (try_fold emit_syllable (ctx, prog) (syllables b)) (\<lambda>st.
           emit_terminator st (terminator b)))"

definition emit_function :: "program \<Rightarrow> mir_function \<Rightarrow> compile_error + program" where
  "emit_function prog f =
     and_then (try_fold (emit_block (fname f)) (codegen_ctx_default, prog) (enumerate 0 (blocks f)))
       (\<lambda>(ctx, prog). Inr prog)"

definition scalar_program :: "mir_function list \<Rightarrow> processor \<Rightarrow> compile_error + program" where
  "scalar_program fns p = try_fold emit_function \<lparr>processor = p, items = []\<rparr> fns"

definition verified :: "string \<Rightarrow> program \<Rightarrow> compile_error + string" where
  "verified msg prog =
     (case verify_program prog of Inl _ \<Rightarrow> Inl (NotImplemented msg) | Inr _ \<Rightarrow> Inr (emit prog))"

definition emit_scalar_vliw_module :: "mir_function list \<Rightarrow> processor \<Rightarrow> compile_error + string" where
  "emit_scalar_vliw_module fns p =
     and_then (scalar_program fns p) (verified ''generated VLIW failed verifier'')"

section \<open>What the emitted code is\<close>

text \<open>The bundles of a list of items, and its labels and syllables in order.\<close>

definition bundles_of :: "item list \<Rightarrow> asm_bundle list" where
  "bundles_of its = List.map_filter (\<lambda>it. case it of BundleItem b \<Rightarrow> Some b | LabelItem _ \<Rightarrow> None) its"

datatype event = Mark string | Issue asm_syllable

definition item_events :: "item list \<Rightarrow> event list" where
  "item_events its =
     concat (map (\<lambda>it. case it of LabelItem l \<Rightarrow> [Mark l] | BundleItem b \<Rightarrow> map Issue (bundle_syllables b)) its)"

lemma bundles_of_simps [simp]:
  "bundles_of [] = []" "bundles_of (LabelItem l # its) = bundles_of its"
  "bundles_of (BundleItem b # its) = b # bundles_of its"
  by (simp_all add: bundles_of_def map_filter_simps)

lemma bundles_of_append [simp]: "bundles_of (its @ jts) = bundles_of its @ bundles_of jts"
  by (simp add: bundles_of_def List.map_filter_def)

lemma set_bundles_of: "b \<in> set (bundles_of its) \<longleftrightarrow> BundleItem b \<in> set its"
  by (force simp: bundles_of_def List.map_filter_def split: item.splits)

lemma item_events_simps [simp]:
  "item_events [] = []" "item_events (LabelItem l # its) = Mark l # item_events its"
  "item_events (BundleItem b # its) = map Issue (bundle_syllables b) @ item_events its"
  "item_events (its @ jts) = item_events its @ item_events jts"
  by (simp_all add: item_events_def)

lemma empty_items [simp]:
  "bundles_of (replicate n (BundleItem empty_bundle)) = replicate n empty_bundle"
  "item_events (replicate n (BundleItem empty_bundle)) = []"
  by (induction n) simp_all

definition terminator_syllable :: "terminator \<Rightarrow> compile_error + asm_syllable" where
  "terminator_syllable t =
     (case t of
        ReturnT \<Rightarrow> Inr (new_syllable (mnemonic Ret) [])
      | JumpT l \<Rightarrow> Inr (new_syllable (mnemonic Jump) [Label l])
      | BranchT cond l \<Rightarrow> and_then (pred_for_reg cond) (\<lambda>pr. Inr (new_syllable (mnemonic Branch) [Pred pr, Label l]))
      | DirectCallT target _ \<Rightarrow> Inr (new_syllable (mnemonic Call) [Label target]))"

definition block_events :: "block \<Rightarrow> event list \<Rightarrow> bool" where
  "block_events b evs \<longleftrightarrow>
     (\<exists>ss t. try_map lower_syllable (syllables b) = Inr ss \<and> terminator_syllable (terminator b) = Inr t \<and>
        evs = Mark (label b) # map Issue ss @ [Issue t])"

definition function_events :: "mir_function \<Rightarrow> event list \<Rightarrow> bool" where
  "function_events f evs \<longleftrightarrow>
     (\<exists>bevs. list_all2 block_events (blocks f) bevs \<and>
        evs = (if blocks f = [] then [] else [Mark (fname f)]) @ concat bevs)"

definition scalar_code :: "processor \<Rightarrow> item list \<Rightarrow> bool" where
  "scalar_code p its \<longleftrightarrow>
     stall_free ready_default 0 (bundles_of its) \<and>
     (\<forall>b \<in> set (bundles_of its). bundle_ok p b \<and> length (slots b) \<le> width_of p \<and> length (bundle_syllables b) \<le> 1)"

definition ctx_ready :: "codegen_ctx \<Rightarrow> ready_state" where
  "ctx_ready ctx = \<lparr>gpr_ready = ready_gpr ctx, pred_ready = ready_pred ctx\<rparr>"

text \<open>
  The state of the emitter inside a function, after the items \<open>pre\<close> of earlier functions: the cycle
  counts the function's bundles and the context's tables are the scoreboard of those bundles.
\<close>

definition emitting :: "processor \<Rightarrow> item list \<Rightarrow> event list \<Rightarrow> emit_state \<Rightarrow> bool" where
  "emitting p pre evs st \<longleftrightarrow>
     processor (snd st) = p \<and>
     (\<exists>its. items (snd st) = pre @ its \<and> item_events its = evs \<and> scalar_code p its \<and>
        ctx_cycle (fst st) = length (bundles_of its) \<and>
        ctx_ready (fst st) = ready_after_bundles ready_default 0 (bundles_of its))"

lemma wait_until_eq:
  "wait_until cyc (ctx, prog) =
     (ctx\<lparr>ctx_cycle := max (ctx_cycle ctx) cyc\<rparr>,
      prog\<lparr>items := items prog @ replicate (cyc - ctx_cycle ctx) (BundleItem empty_bundle)\<rparr>)"
proof (induction "cyc - ctx_cycle ctx" arbitrary: ctx prog)
  case 0
  then show ?case by (simp add: wait_until.simps[of cyc ctx prog] max_def)
next
  case (Suc n)
  then have lt: "ctx_cycle ctx < cyc" and n: "cyc - ctx_cycle ctx = Suc n" by simp_all
  then have n': "cyc - Suc (ctx_cycle ctx) = n" by simp
  have "n = cyc - ctx_cycle (ctx\<lparr>ctx_cycle := ctx_cycle ctx + 1\<rparr>)" using Suc.hyps(2) by simp
  from Suc.hyps(1)[OF this] show ?case
    using lt by (simp add: wait_until.simps[of cyc ctx prog] push_item_def n n' max_def)
qed

lemma ctx_ready_record_result:
  assumes "from_mnemonic (syl_opcode s) = Some op"
  shows "ctx_ready (record_result op (first (syl_operands s)) ctx) =
    update_ready_after_syllable (ctx_cycle ctx) s (ctx_ready ctx)"
  using assms by (auto simp: ctx_ready_def record_result_def update_ready_after_syllable_def Let_def
      result_ready_after_def split: option.split operand.split)

lemma operands_ready_iff:
  "operands_ready rdy cyc g p oprs \<longleftrightarrow> (\<forall>c \<in> set (source_cycles (gpr_ready rdy) (pred_ready rdy) g p oprs). c \<le> cyc)"
  by (induction rdy cyc g p oprs rule: operands_ready.induct) (auto split: operand.splits)

lemma required_cycle_ready:
  "required_cycle_for_sources ctx op s \<le> cyc \<Longrightarrow> sources_ready_at op s cyc (ctx_ready ctx)"
  using foldr_max_ge by (fastforce simp: sources_ready_at_def operands_ready_iff required_cycle_for_sources_def
      ctx_ready_def intro: order_trans)

lemma ready_after_empties [simp]: "ready_after_bundles rdy start (bs @ replicate n empty_bundle) = ready_after_bundles rdy start bs"
proof (induction n)
  case (Suc n)
  then show ?case by (simp add: append_assoc[symmetric] del: append_assoc flip: replicate_append_same)
qed simp

lemma stall_free_empties: "stall_free rdy start (bs @ replicate n empty_bundle) \<longleftrightarrow> stall_free rdy start bs"
proof (induction n)
  case (Suc n)
  then show ?case by (simp add: append_assoc[symmetric] stall_free_snoc del: append_assoc flip: replicate_append_same)
qed simp

lemma emit_in_slot_emitting:
  assumes st: "emitting p pre evs st" and op: "from_mnemonic (syl_opcode s) = Some op"
    and emit: "emit_asm_syllable_in_slot st op s slot = Inr st'"
  shows "emitting p pre (evs @ [Issue s]) st'"
proof -
  obtain ctx prog where stp: "st = (ctx, prog)" by fastforce
  obtain its where its: "processor prog = p" "items prog = pre @ its" "item_events its = evs" "scalar_code p its"
      "ctx_cycle ctx = length (bundles_of its)"
      "ctx_ready ctx = ready_after_bundles ready_default 0 (bundles_of its)"
    using st by (auto simp: emitting_def stp)
  let ?req = "required_cycle_for_sources ctx op s"
  let ?n = "?req - ctx_cycle ctx" let ?c = "max (ctx_cycle ctx) ?req"
  let ?wait = "bundles_of its @ replicate ?n empty_bundle"
  obtain b where sup: "slot_supports_opcode slot op p" and b: "bundle_with (width_of p) slot s = Inr b"
    and st': "st' = ((record_result op (first (syl_operands s)) (ctx\<lparr>ctx_cycle := ?c\<rparr>))\<lparr>ctx_cycle := ?c + 1\<rparr>,
      prog\<lparr>items := (items prog @ replicate ?n (BundleItem empty_bundle)) @ [BundleItem b]\<rparr>)"
    using emit its(1) by (auto simp: emit_asm_syllable_in_slot_def stp wait_until_eq Let_def result_simps
        push_item_def record_result_def split: if_splits option.splits operand.splits)
  have len: "length ?wait = ?c" using its(5) by simp
  have src: "bundle_sources_ready_at b ?c (ready_after_bundles ready_default 0 ?wait)"
    using op its(6) required_cycle_ready[of ctx op s ?c]
    by (simp add: bundle_sources_ready_iff bundle_with_syllables[OF b])
  have "stall_free ready_default 0 (?wait @ [b])"
    unfolding stall_free_snoc using its(4) src len by (simp add: scalar_code_def stall_free_empties)
  moreover have "bundle_ok p b" using b op sup by (rule bundle_with_ok)
  moreover have "length (slots b) \<le> width_of p" using b by (auto simp: bundle_with_def split: if_splits)
  moreover have "ctx_ready (fst st') = ready_after_bundles ready_default 0 (?wait @ [b])"
  proof -
    have "ctx_ready (fst st') = update_ready_after_syllable ?c s (ctx_ready ctx)"
      using ctx_ready_record_result[OF op, of "ctx\<lparr>ctx_cycle := ?c\<rparr>"] by (simp add: st' ctx_ready_def)
    then show ?thesis
      unfolding ready_after_snoc len ready_after_empties using its(6) bundle_with_syllables[OF b]
      by (simp add: update_ready_after_bundle_def bundle_syllables_def)
  qed
  ultimately show ?thesis
    unfolding emitting_def
    using its len bundle_with_syllables[OF b]
    by (intro conjI exI[of _ "its @ replicate ?n (BundleItem empty_bundle) @ [BundleItem b]"])
      (auto simp: st' scalar_code_def empty_bundle_ok empty_bundle_def[THEN arg_cong[where f = slots]])
qed

lemma lower_syllable_opcode: "lower_syllable s = Inr a \<Longrightarrow> syl_opcode a = mnemonic (opc s)"
  by (auto simp: lower_syllable_def Let_def result_simps split: if_splits)

lemma emit_syllable_emitting:
  assumes "emitting p pre evs st" "emit_syllable st s = Inr st'"
  shows "\<exists>a. lower_syllable s = Inr a \<and> emitting p pre (evs @ [Issue a]) st'"
proof -
  obtain a slot where a: "lower_syllable s = Inr a" "emit_asm_syllable_in_slot st (opc s) a slot = Inr st'"
    using assms(2) by (auto simp: emit_syllable_def emit_asm_syllable_def result_simps)
  then show ?thesis
    using emit_in_slot_emitting[OF assms(1) _ a(2)] lower_syllable_opcode[OF a(1)] by simp
qed

lemma emit_terminator_emitting:
  assumes "emitting p pre evs st" "emit_terminator st t = Inr st'"
  shows "\<exists>a. terminator_syllable t = Inr a \<and> emitting p pre (evs @ [Issue a]) st'"
proof -
  have "\<exists>a op slot. terminator_syllable t = Inr a \<and> from_mnemonic (syl_opcode a) = Some op \<and>
      emit_asm_syllable_in_slot st op a slot = Inr st'"
    using assms(2)
    by (cases t) (auto simp: emit_terminator_def emit_control_syllable_def terminator_syllable_def result_simps
        from_mnemonic_def)
  then show ?thesis using emit_in_slot_emitting[OF assms(1)] by blast
qed

lemma emit_syllables_emitting:
  assumes "emitting p pre evs st" "try_fold emit_syllable st ss = Inr st'"
  shows "\<exists>as. try_map lower_syllable ss = Inr as \<and> emitting p pre (evs @ map Issue as) st'"
  using assms
proof (induction ss arbitrary: evs st)
  case (Cons s ss)
  obtain st1 where st1: "emit_syllable st s = Inr st1" "try_fold emit_syllable st1 ss = Inr st'"
    using Cons.prems(2) by (auto simp: result_simps)
  obtain a where "lower_syllable s = Inr a" "emitting p pre (evs @ [Issue a]) st1"
    using emit_syllable_emitting[OF Cons.prems(1) st1(1)] by blast
  then show ?case using Cons.IH[OF _ st1(2)] by fastforce
qed simp

lemma emitting_label:
  "emitting p pre evs (ctx, prog) \<Longrightarrow> emitting p pre (evs @ [Mark l]) (ctx, push_item (LabelItem l) prog)"
  by (auto simp: emitting_def push_item_def scalar_code_def)

lemma emit_block_emitting:
  assumes "emitting p pre evs st" "emit_block name st (idx, b) = Inr st'"
  shows "\<exists>bevs. block_events b bevs \<and>
    emitting p pre (evs @ (if idx = 0 then [Mark name] else []) @ bevs) st'"
proof -
  obtain ctx prog where stp: "st = (ctx, prog)" by fastforce
  let ?prog = "push_item (LabelItem (label b)) (if idx = 0 then push_item (LabelItem name) prog else prog)"
  let ?evs = "evs @ (if idx = 0 then [Mark name] else []) @ [Mark (label b)]"
  obtain st1 where st1: "try_fold emit_syllable (ctx, ?prog) (syllables b) = Inr st1"
      "emit_terminator st1 (terminator b) = Inr st'"
    using assms(2) by (auto simp: emit_block_def stp Let_def result_simps)
  have "emitting p pre ?evs (ctx, ?prog)"
    using emitting_label[of p pre] assms(1) by (simp add: stp flip: append_assoc)
  from emit_syllables_emitting[OF this st1(1)] obtain as where as:
    "try_map lower_syllable (syllables b) = Inr as" "emitting p pre (?evs @ map Issue as) st1" by blast
  obtain t where "terminator_syllable (terminator b) = Inr t"
      "emitting p pre ((?evs @ map Issue as) @ [Issue t]) st'"
    using emit_terminator_emitting[OF as(2) st1(2)] by blast
  then show ?thesis
    using as(1) by (intro exI[of _ "Mark (label b) # map Issue as @ [Issue t]"]) (simp add: block_events_def)
qed

lemma emit_blocks_emitting:
  assumes "emitting p pre evs st" "try_fold (emit_block name) st (enumerate n bs) = Inr st'"
  shows "\<exists>bevs. list_all2 block_events bs bevs \<and>
    emitting p pre (evs @ (if n = 0 \<and> bs \<noteq> [] then [Mark name] else []) @ concat bevs) st'"
  using assms
proof (induction bs arbitrary: n evs st)
  case (Cons b bs)
  obtain st1 where st1: "emit_block name st (n, b) = Inr st1" "try_fold (emit_block name) st1 (enumerate (Suc n) bs) = Inr st'"
    using Cons.prems(2) by (auto simp: result_simps)
  obtain be where be: "block_events b be" "emitting p pre (evs @ (if n = 0 then [Mark name] else []) @ be) st1"
    using emit_block_emitting[OF Cons.prems(1) st1(1)] by blast
  obtain bevs where "list_all2 block_events bs bevs"
      "emitting p pre ((evs @ (if n = 0 then [Mark name] else []) @ be) @ concat bevs) st'"
    using Cons.IH[OF be(2) st1(2)] by auto
  then show ?case using be(1) by (intro exI[of _ "be # bevs"]) simp
qed simp

definition function_code :: "processor \<Rightarrow> mir_function \<Rightarrow> item list \<Rightarrow> bool" where
  "function_code p f its \<longleftrightarrow> scalar_code p its \<and> function_events f (item_events its)"

lemma emit_function_code:
  assumes "emit_function prog f = Inr prog'"
  shows "\<exists>its. items prog' = items prog @ its \<and> processor prog' = processor prog \<and>
    function_code (processor prog) f its"
proof -
  obtain ctx where "try_fold (emit_block (fname f)) (codegen_ctx_default, prog) (enumerate 0 (blocks f)) = Inr (ctx, prog')"
    using assms by (auto simp: emit_function_def result_simps)
  moreover have "emitting (processor prog) (items prog) [] (codegen_ctx_default, prog)"
    by (simp add: emitting_def scalar_code_def codegen_ctx_default_def ctx_ready_def ready_default_def)
  ultimately obtain bevs where "list_all2 block_events (blocks f) bevs"
      "emitting (processor prog) (items prog) ((if blocks f \<noteq> [] then [Mark (fname f)] else []) @ concat bevs) (ctx, prog')"
    using emit_blocks_emitting by fastforce
  then show ?thesis by (auto simp: emitting_def function_code_def function_events_def split: if_splits)
qed

lemma scalar_program_code:
  assumes "scalar_program fns p = Inr prog"
  shows "processor prog = p \<and> (\<exists>parts. items prog = concat parts \<and> list_all2 (function_code p) fns parts)"
proof -
  have "processor prog = p \<and> (\<exists>parts. items prog = items prog0 @ concat parts \<and> list_all2 (function_code p) fns parts)"
    if "try_fold emit_function prog0 fns = Inr prog" "processor prog0 = p" for prog0
    using that
  proof (induction fns arbitrary: prog0)
    case (Cons f fns)
    obtain prog1 where p1: "emit_function prog0 f = Inr prog1" "try_fold emit_function prog1 fns = Inr prog"
      using Cons.prems(1) by (auto simp: result_simps)
    obtain its where "items prog1 = items prog0 @ its" "processor prog1 = p" "function_code p f its"
      using emit_function_code[OF p1(1)] Cons.prems(2) by auto
    then show ?case using Cons.IH[OF p1(2)] by (metis append_assoc concat.simps(2) list_all2_Cons)
  qed auto
  from this[of "\<lparr>processor = p, items = []\<rparr>"] show ?thesis
    using assms by (simp add: scalar_program_def)
qed

lemma function_code_ok: "function_code p f its \<Longrightarrow> BundleItem b \<in> set its \<Longrightarrow> bundle_ok p b"
  by (auto simp: function_code_def scalar_code_def set_bundles_of)

lemma scalar_program_verifies:
  assumes "scalar_program fns p = Inr prog"
  shows "verify_program prog = Inr ()"
proof -
  obtain parts where parts: "processor prog = p" "items prog = concat parts"
      "list_all2 (function_code p) fns parts"
    using scalar_program_code[OF assms] by blast
  have "bundle_ok p b" if b: "BundleItem b \<in> set its" and its: "its \<in> set parts" for b its
    using parts(3) its function_code_ok[OF _ b] by (metis list_all2_conv_all_nth in_set_conv_nth)
  then show ?thesis using parts(1,2) by (auto simp: verify_program_iff)
qed


section \<open>Properties\<close>

text \<open>
  C8: scalar emission is faithful and stall-free.  When code generation succeeds, the program is the
  concatenation of one part per function, and in each part: the labels and syllables are exactly
  the function's name, its blocks' labels, lowered syllables and terminator, in order; every bundle
  issues at most one syllable, in a slot whose units can execute it; and, by the empty bundles
  inserted, every bundle finds its sources ready: no general-purpose register is read before the
  latency of its last writer has passed.
\<close>

theorem scalar_emission_correct:
  assumes "scalar_program fns p = Inr prog"
  shows "processor prog = p \<and>
    (\<exists>parts. items prog = concat parts \<and>
       list_all2 (\<lambda>f its. function_events f (item_events its) \<and>
           stall_free ready_default 0 (bundles_of its) \<and> no_early_reads (bundles_of its) \<and>
           (\<forall>b \<in> set (bundles_of its). bundle_ok p b \<and> length (bundle_syllables b) \<le> 1))
         fns parts)"
proof -
  obtain parts where "processor prog = p" "items prog = concat parts" "list_all2 (function_code p) fns parts"
    using scalar_program_code[OF assms] by blast
  then show ?thesis
    by (intro conjI exI[of _ parts]) (auto simp: function_code_def scalar_code_def elim!: list_all2_mono
        intro: stall_free_no_early_reads)
qed

text \<open>Witness: an allocated function that multiplies two constants and stores the product.\<close>

definition mul_function :: mir_function where
  "mul_function =
     \<lparr>fname = ''demo'',
      blocks =
        [\<lparr>label = ''entry'',
          syllables =
            [syl MovImm (Some (PReg 2)) [ImmV 6],
             syl MovImm (Some (PReg 3)) [ImmV 7],
             syl Mul (Some (PReg 4)) [RegV (PReg 2), RegV (PReg 3)],
             syl StoreD None [ImmV 0x100, RegV (PReg 4)]],
          terminator = ReturnT\<rparr>]\<rparr>"

theorem scalar_emission_correct_witness:
  "\<exists>prog. scalar_program [mul_function] default_processor = Inr prog \<and>
     function_events mul_function (item_events (items prog)) \<and> no_early_reads (bundles_of (items prog))"
proof -
  have "case scalar_program [mul_function] default_processor of Inl _ \<Rightarrow> False | Inr _ \<Rightarrow> True" by code_simp
  then obtain prog where prog: "scalar_program [mul_function] default_processor = Inr prog"
    by (auto split: sum.splits)
  from scalar_emission_correct[OF this] show ?thesis
    using prog by (auto simp: list_all2_Cons1)
qed

text \<open>
  C20: the verifier never rejects scalar code.  \<open>emit_scalar_vliw_module\<close> returns the text of the
  program whenever code generation succeeds; its error \<open>generated VLIW failed verifier\<close> cannot occur.
\<close>

theorem scalar_module_always_verifies:
  "emit_scalar_vliw_module fns p = and_then (scalar_program fns p) (\<lambda>prog. Inr (emit prog))"
  by (cases "scalar_program fns p")
    (simp_all add: emit_scalar_vliw_module_def verified_def scalar_program_verifies)

end
