(* ===== verification/Pack.thy ===== *)
theory Pack
  imports Codegen
begin

text \<open>
  The bundle packer of \<open>vliw-backend/src/lib.rs\<close>: \<open>pack_scalar_program\<close> walks the scalar program and,
  between labels and terminators, merges each one-syllable bundle into the previous bundle when the
  scoreboard, the slots and the verifier allow it.

  The padding loop of \<open>pack_bundle_segment\<close> never ends when a bundle holds an unknown mnemonic, so
  it is a \<open>partial_function\<close> whose value \<open>None\<close> is non-termination; the properties show that it
  returns on everything the emitter produces.
\<close>

definition normalize_slots :: "asm_syllable option list \<Rightarrow> nat \<Rightarrow> asm_syllable option list" where
  "normalize_slots ss w = take w ss @ replicate (w - length ss) None"

definition bundle_is_empty :: "asm_bundle \<Rightarrow> bool" where
  "bundle_is_empty b = list_all (\<lambda>s. s = None) (slots b)"

definition bundle_is_terminator :: "asm_bundle \<Rightarrow> bool" where
  "bundle_is_terminator b =
     list_ex (\<lambda>s. from_mnemonic (syl_opcode s) \<in> set [Some Ret, Some Jump, Some Branch, Some Call])
       (somes (slots b))"

definition first_open_compatible_slot :: "asm_bundle \<Rightarrow> opcode \<Rightarrow> processor \<Rightarrow> nat option" where
  "first_open_compatible_slot b op p =
     find (\<lambda>slot. get (slots b) slot = Some None \<and> slot_supports_opcode slot op p) [0..<width_of p]"

fun merge_syllables :: "processor \<Rightarrow> asm_bundle \<Rightarrow> asm_syllable list \<Rightarrow> asm_bundle option" where
  "merge_syllables p merged [] = Some merged"
| "merge_syllables p merged (s # ss) =
     (case from_mnemonic (syl_opcode s) of
        None \<Rightarrow> None
      | Some op \<Rightarrow>
          (case first_open_compatible_slot merged op p of
             None \<Rightarrow> None
           | Some slot \<Rightarrow> merge_syllables p (merged\<lparr>slots := (slots merged)[slot := Some s]\<rparr>) ss))"

definition merge_bundles :: "processor \<Rightarrow> asm_bundle \<Rightarrow> asm_bundle \<Rightarrow> asm_bundle option" where
  "merge_bundles p a b =
     merge_syllables p \<lparr>slots = normalize_slots (slots a) (width_of p)\<rparr> (somes (slots b))"

text \<open>\<open>Some out'\<close> is the result \<open>true\<close> with the updated output, \<open>None\<close> the result \<open>false\<close>.\<close>

definition try_merge_into_previous ::
  "processor \<Rightarrow> asm_bundle list \<Rightarrow> asm_bundle \<Rightarrow> nat \<Rightarrow> ready_state \<Rightarrow> asm_bundle list option" where
  "try_merge_into_previous p outb b start_cycle initial_ready =
     (if outb = [] then None
      else
        let last_idx = length outb - 1; prev = outb ! last_idx in
        if bundle_is_empty prev \<or> bundle_is_terminator prev then None
        else if has_pending_result_at (ready_after_bundles initial_ready start_cycle outb)
                  (start_cycle + length outb) then None
        else if \<not> bundle_sources_ready_at b (start_cycle + last_idx)
                  (ready_after_bundles initial_ready start_cycle (take last_idx outb)) then None
        else
          case merge_bundles p prev b of
            None \<Rightarrow> None
          | Some candidate \<Rightarrow>
              (case verify_bundle candidate p of
                 Inl _ \<Rightarrow> None
               | Inr _ \<Rightarrow> Some (outb[last_idx := candidate])))"

partial_function (option) pad_until_ready ::
  "ready_state \<Rightarrow> nat \<Rightarrow> asm_bundle \<Rightarrow> asm_bundle list \<Rightarrow> asm_bundle list option" where
  [code]: "pad_until_ready initial_ready start_cycle b outb =
     (if \<not> bundle_sources_ready_at b (start_cycle + length outb)
           (ready_after_bundles initial_ready start_cycle outb)
      then pad_until_ready initial_ready start_cycle b (outb @ [empty_bundle])
      else Some outb)"

definition pack_bundle ::
  "processor \<Rightarrow> nat \<Rightarrow> ready_state \<Rightarrow> asm_bundle list \<Rightarrow> asm_bundle \<Rightarrow> asm_bundle list option" where
  "pack_bundle p start_cycle initial_ready outb b =
     (if bundle_is_empty b then Some (outb @ [b])
      else
        case try_merge_into_previous p outb b start_cycle initial_ready of
          Some outb' \<Rightarrow> Some outb'
        | None \<Rightarrow> map_option (\<lambda>outb'. outb' @ [b]) (pad_until_ready initial_ready start_cycle b outb))"

fun pack_bundles ::
  "processor \<Rightarrow> nat \<Rightarrow> ready_state \<Rightarrow> asm_bundle list \<Rightarrow> asm_bundle list \<Rightarrow> asm_bundle list option" where
  "pack_bundles p start_cycle initial_ready outb [] = Some outb"
| "pack_bundles p start_cycle initial_ready outb (b # bs) =
     Option.bind (pack_bundle p start_cycle initial_ready outb b)
       (\<lambda>outb'. pack_bundles p start_cycle initial_ready outb' bs)"

definition pack_bundle_segment ::
  "processor \<Rightarrow> asm_bundle list \<Rightarrow> nat \<Rightarrow> ready_state \<Rightarrow> asm_bundle list option" where
  "pack_bundle_segment p seg start_cycle initial_ready = pack_bundles p start_cycle initial_ready [] seg"

record pack_state =
  packed :: "item list"
  segment :: "asm_bundle list"
  pack_ready :: ready_state
  pack_cycle :: nat

definition pack_init :: pack_state where
  "pack_init = \<lparr>packed = [], segment = [], pack_ready = ready_default, pack_cycle = 0\<rparr>"

text \<open>Packing the pending segment and advancing cycle and scoreboard past it.\<close>

definition flush_segment :: "processor \<Rightarrow> pack_state \<Rightarrow> pack_state option" where
  "flush_segment p st =
     map_option
       (\<lambda>bs. st\<lparr>segment := [],
                pack_ready := update_ready_after_packed_bundles bs (pack_cycle st) (pack_ready st),
                pack_cycle := pack_cycle st + length bs,
                packed := packed st @ map BundleItem bs\<rparr>)
       (pack_bundle_segment p (segment st) (pack_cycle st) (pack_ready st))"

definition pack_item :: "processor \<Rightarrow> pack_state \<Rightarrow> item \<Rightarrow> pack_state option" where
  "pack_item p st it =
     (case it of
        LabelItem l \<Rightarrow> map_option (\<lambda>st. st\<lparr>packed := packed st @ [LabelItem l]\<rparr>) (flush_segment p st)
      | BundleItem b \<Rightarrow>
          if bundle_is_terminator b then
            map_option
              (\<lambda>st. st\<lparr>pack_ready := update_ready_after_bundle b (pack_cycle st) (pack_ready st),
                       pack_cycle := pack_cycle st + 1,
                       packed := packed st @ [BundleItem b]\<rparr>)
              (flush_segment p st)
          else Some (st\<lparr>segment := segment st @ [b]\<rparr>))"

fun pack_items :: "processor \<Rightarrow> pack_state \<Rightarrow> item list \<Rightarrow> pack_state option" where
  "pack_items p st [] = Some st"
| "pack_items p st (it # its) = Option.bind (pack_item p st it) (\<lambda>st'. pack_items p st' its)"

definition pack_scalar_program :: "program \<Rightarrow> program option" where
  "pack_scalar_program prog =
     Option.bind (pack_items (processor prog) pack_init (items prog)) (\<lambda>st.
       map_option
         (\<lambda>bs. prog\<lparr>items := packed st @ map BundleItem bs\<rparr>)
         (pack_bundle_segment (processor prog) (segment st) (pack_cycle st) (pack_ready st)))"

definition scheduled_program :: "mir_function list \<Rightarrow> processor \<Rightarrow> compile_error + program" where
  "scheduled_program fns p =
     try_fold (\<lambda>prog f. and_then (list_schedule_function f) (emit_function prog))
       \<lparr>processor = p, items = []\<rparr> fns"

definition emit_packed_vliw_module :: "mir_function list \<Rightarrow> processor \<Rightarrow> compile_error + string" where
  "emit_packed_vliw_module fns p =
     and_then (scheduled_program fns p) (\<lambda>prog.
     and_then (ok_or (pack_scalar_program prog) (Panic ''the packer does not terminate''))
       (verified ''generated packed VLIW failed verifier''))"


section \<open>Merging two bundles\<close>

definition fits :: "processor \<Rightarrow> asm_bundle \<Rightarrow> bool" where
  "fits p b \<longleftrightarrow> length (slots b) \<le> width_of p"

definition known :: "asm_bundle \<Rightarrow> bool" where
  "known b \<longleftrightarrow> (\<forall>s \<in> set (bundle_syllables b). from_mnemonic (syl_opcode s) \<noteq> None)"

lemma fits_empty: "fits p empty_bundle"
  by (simp add: fits_def empty_bundle_def)

lemma somes_normalize: "length ss \<le> w \<Longrightarrow> somes (normalize_slots ss w) = somes ss"
  by (simp add: normalize_slots_def)

lemma length_normalize [simp]: "length (normalize_slots ss w) = w"
  by (simp add: normalize_slots_def)

lemma merge_syllables_mset:
  assumes "merge_syllables p m ss = Some c" "length (slots m) = width_of p"
  shows "length (slots c) = width_of p \<and> mset (bundle_syllables c) = mset (bundle_syllables m) + mset ss"
  using assms
proof (induction ss arbitrary: m)
  case (Cons s ss)
  obtain op slot where slot: "first_open_compatible_slot m op p = Some slot"
      "merge_syllables p (m\<lparr>slots := (slots m)[slot := Some s]\<rparr>) ss = Some c"
    using Cons.prems(1) by (auto split: option.splits)
  have "slot < length (slots m)" "slots m ! slot = None"
    using slot(1) by (auto simp: first_open_compatible_slot_def find_Some_iff get_eq_Some)
  then show ?case
    using Cons.IH[OF slot(2)] Cons.prems(2) by (simp add: bundle_syllables_def mset_somes_update)
qed simp

lemma merge_bundles_mset:
  assumes "merge_bundles p a b = Some c" "fits p a"
  shows "fits p c" "mset (bundle_syllables c) = mset (bundle_syllables a @ bundle_syllables b)"
  using merge_syllables_mset[of p _ "somes (slots b)" c] assms
  by (auto simp: merge_bundles_def fits_def bundle_syllables_def somes_normalize)

lemma sources_ready_union:
  "mset (bundle_syllables c) = mset (bundle_syllables a @ bundle_syllables b) \<Longrightarrow>
     bundle_sources_ready_at c cyc rdy \<longleftrightarrow> bundle_sources_ready_at a cyc rdy \<and> bundle_sources_ready_at b cyc rdy"
  unfolding bundle_sources_ready_iff by (drule mset_eq_setD) auto

lemma try_merge_Some:
  assumes "try_merge_into_previous p outb b start rdy = Some outb'" "\<forall>b \<in> set outb. fits p b"
  shows "\<exists>pre prev c. outb = pre @ [prev] \<and> outb' = pre @ [c] \<and> bundle_ok p c \<and> fits p c \<and>
    \<not> bundle_is_terminator prev \<and>
    mset (bundle_syllables c) = mset (bundle_syllables prev @ bundle_syllables b) \<and>
    bundle_sources_ready_at b (start + length pre) (ready_after_bundles rdy start pre)"
proof -
  have ne: "outb \<noteq> []" using assms(1) by (auto simp: try_merge_into_previous_def)
  then obtain pre prev where o: "outb = pre @ [prev]" by (metis rev_exhaust)
  obtain c where c: "merge_bundles p prev b = Some c" "verify_bundle c p = Inr ()" "outb' = pre @ [c]"
      "\<not> bundle_is_terminator prev"
      "bundle_sources_ready_at b (start + length pre) (ready_after_bundles rdy start pre)"
    using assms(1) by (auto simp: try_merge_into_previous_def o Let_def split: if_splits option.splits sum.splits)
  then show ?thesis
    using merge_bundles_mset[OF c(1)] assms(2) o by (auto simp: verify_bundle_iff)
qed


section \<open>Padding\<close>

lemma sources_ready_eventually:
  assumes "known b"
  shows "\<exists>c. bundle_sources_ready_at b c rdy"
proof -
  have "\<exists>c. \<forall>s \<in> set ss. \<exists>op. from_mnemonic (syl_opcode s) = Some op \<and> sources_ready_at op s c rdy"
    if "\<forall>s \<in> set ss. from_mnemonic (syl_opcode s) \<noteq> None" for ss
    using that
  proof (induction ss)
    case (Cons s ss)
    then obtain c op where c: "\<forall>s \<in> set ss. \<exists>op. from_mnemonic (syl_opcode s) = Some op \<and> sources_ready_at op s c rdy"
        "from_mnemonic (syl_opcode s) = Some op" by auto
    let ?d = "foldr max (source_cycles (gpr_ready rdy) (pred_ready rdy) (writes_gpr op) (writes_pred op) (syl_operands s)) 0"
    have "sources_ready_at op s ?d rdy"
      unfolding sources_ready_at_def operands_ready_iff by (auto intro: foldr_max_ge)
    then show ?case
      using c by (intro exI[of _ "max c ?d"])
        (fastforce simp: sources_ready_at_def intro: operands_ready_mono)
  qed simp
  then show ?thesis using assms unfolding bundle_sources_ready_iff known_def by blast
qed

lemma pad_until_ready_returns:
  assumes "known b"
  shows "\<exists>n. pad_until_ready rdy start b outb = Some (outb @ replicate n empty_bundle) \<and>
    bundle_sources_ready_at b (start + length outb + n) (ready_after_bundles rdy start outb)"
proof -
  obtain c where c: "bundle_sources_ready_at b c (ready_after_bundles rdy start outb)"
    using sources_ready_eventually[OF assms] by blast
  then show ?thesis
  proof (induction "c - (start + length outb)" arbitrary: outb)
    case 0
    then have "bundle_sources_ready_at b (start + length outb) (ready_after_bundles rdy start outb)"
      by (auto intro: bundle_sources_ready_mono)
    then show ?case by (intro exI[of _ 0]) (simp add: pad_until_ready.simps[of rdy start b outb])
  next
    case (Suc m)
    show ?case
    proof (cases "bundle_sources_ready_at b (start + length outb) (ready_after_bundles rdy start outb)")
      case True
      then show ?thesis by (intro exI[of _ 0]) (simp add: pad_until_ready.simps[of rdy start b outb])
    next
      case False
      have "m = c - (start + length (outb @ [empty_bundle]))" using Suc.hyps(2) by simp
      from Suc.hyps(1)[OF this] obtain n where
        "pad_until_ready rdy start b (outb @ [empty_bundle]) = Some (outb @ replicate (Suc n) empty_bundle)"
        "bundle_sources_ready_at b (start + length outb + Suc n) (ready_after_bundles rdy start outb)"
        using Suc.prems by auto
      then show ?thesis
        using False by (intro exI[of _ "Suc n"]) (simp add: pad_until_ready.simps[of rdy start b outb])
    qed
  qed
qed

section \<open>Packing a segment\<close>

text \<open>
  An output item issues a group of consecutive events of the input: a label stands for itself, a
  bundle for its syllables in some slot order.
\<close>

definition carries :: "item \<Rightarrow> event list \<Rightarrow> bool" where
  "carries it g \<longleftrightarrow>
     (case it of
        LabelItem l \<Rightarrow> g = [Mark l]
      | BundleItem b \<Rightarrow> (\<exists>ss. g = map Issue ss \<and> mset ss = mset (bundle_syllables b)))"

definition in_order :: "event list \<Rightarrow> item list \<Rightarrow> bool" where
  "in_order evs its \<longleftrightarrow> (\<exists>groups. concat groups = evs \<and> list_all2 carries its groups)"

lemma in_order_Nil [simp]: "in_order [] []"
  by (auto simp: in_order_def)

lemma in_order_append: "in_order evs its \<Longrightarrow> in_order evs' its' \<Longrightarrow> in_order (evs @ evs') (its @ its')"
  unfolding in_order_def by (metis concat_append list_all2_appendI)

lemma in_order_single: "carries it g \<Longrightarrow> in_order g [it]"
  by (auto simp: in_order_def intro: exI[of _ "[g]"])

lemma in_order_self: "in_order (item_events its) its"
proof (induction its)
  case (Cons it its)
  have "in_order (item_events [it]) [it]"
    by (cases it) (auto intro!: in_order_single simp: carries_def)
  from in_order_append[OF this Cons.IH] show ?case by (metis append_Cons append_Nil item_events_simps(4))
qed simp

lemma carries_self: "carries (BundleItem b) (map Issue (bundle_syllables b))"
  by (auto simp: carries_def)

lemma in_order_empties: "in_order [] (map BundleItem (replicate n empty_bundle))"
  unfolding in_order_def by (intro exI[of _ "replicate n []"]) (auto simp: carries_def list_all2_conv_all_nth)

definition bundle_events :: "asm_bundle list \<Rightarrow> event list" where
  "bundle_events bs = item_events (map BundleItem bs)"

lemma bundle_events_simps [simp]:
  "bundle_events [] = []" "bundle_events (bs @ [b]) = bundle_events bs @ map Issue (bundle_syllables b)"
  by (simp_all add: bundle_events_def)

lemma in_order_merge:
  assumes "in_order evs (map BundleItem (pre @ [prev]))"
    and "mset (bundle_syllables c) = mset (bundle_syllables prev @ bundle_syllables b)"
  shows "in_order (evs @ map Issue (bundle_syllables b)) (map BundleItem (pre @ [c]))"
proof -
  obtain groups g where g: "evs = concat groups @ g" "list_all2 carries (map BundleItem pre) groups"
      "carries (BundleItem prev) g"
    using assms(1) by (auto simp: in_order_def list_all2_append1 list_all2_Cons1)
  obtain ss where ss: "g = map Issue ss" "mset ss = mset (bundle_syllables prev)"
    using g(3) by (auto simp: carries_def)
  have "carries (BundleItem c) (g @ map Issue (bundle_syllables b))"
    using ss assms(2) by (auto simp: carries_def intro!: exI[of _ "ss @ bundle_syllables b"])
  then show ?thesis
    using g by (auto simp: in_order_def intro!: exI[of _ "groups @ [g @ map Issue (bundle_syllables b)]"]
        list_all2_appendI)
qed

definition packed_ok :: "processor \<Rightarrow> nat \<Rightarrow> ready_state \<Rightarrow> event list \<Rightarrow> asm_bundle list \<Rightarrow> bool" where
  "packed_ok p start rdy evs outb \<longleftrightarrow>
     in_order evs (map BundleItem outb) \<and> stall_free rdy start outb \<and>
     (\<forall>b \<in> set outb. bundle_ok p b \<and> fits p b)"

definition packable :: "processor \<Rightarrow> asm_bundle \<Rightarrow> bool" where
  "packable p b \<longleftrightarrow> bundle_ok p b \<and> fits p b \<and> known b"

lemma bundle_is_empty_iff: "bundle_is_empty b \<longleftrightarrow> bundle_syllables b = []"
  by (auto simp: bundle_is_empty_def list_all_iff bundle_syllables_def somes_eq_Nil)

lemma pack_bundle_ok:
  assumes ok: "packed_ok p start rdy evs outb" and b: "packable p b"
  shows "\<exists>outb'. pack_bundle p start rdy outb b = Some outb' \<and>
    packed_ok p start rdy (evs @ map Issue (bundle_syllables b)) outb'"
proof (cases "bundle_is_empty b")
  case True
  then have "packed_ok p start rdy (evs @ map Issue (bundle_syllables b)) (outb @ [b])"
    using ok b in_order_append[OF _ in_order_single[OF carries_self[of b]], of evs "map BundleItem outb"]
    by (auto simp: packed_ok_def packable_def stall_free_snoc bundle_sources_ready_iff bundle_is_empty_iff)
  then show ?thesis using True by (simp add: pack_bundle_def)
next
  case False
  show ?thesis
  proof (cases "try_merge_into_previous p outb b start rdy")
    case None
    obtain n where n: "pad_until_ready rdy start b outb = Some (outb @ replicate n empty_bundle)"
        "bundle_sources_ready_at b (start + length outb + n) (ready_after_bundles rdy start outb)"
      using pad_until_ready_returns[of b rdy start outb] b by (auto simp: packable_def)
    have "in_order (evs @ [] @ map Issue (bundle_syllables b))
        (map BundleItem outb @ map BundleItem (replicate n empty_bundle) @ [BundleItem b])"
      using ok in_order_empties in_order_single[OF carries_self] unfolding packed_ok_def
      by (intro in_order_append) simp_all
    moreover have "stall_free rdy start ((outb @ replicate n empty_bundle) @ [b])"
      unfolding stall_free_snoc using ok n(2) by (simp add: packed_ok_def stall_free_empties add.assoc)
    ultimately have "packed_ok p start rdy (evs @ map Issue (bundle_syllables b))
        (outb @ replicate n empty_bundle @ [b])"
      using ok b by (auto simp: packed_ok_def packable_def empty_bundle_ok fits_empty)
    then show ?thesis using False None n(1) by (simp add: pack_bundle_def)
  next
    case (Some outb')
    obtain pre prev c where m: "outb = pre @ [prev]" "outb' = pre @ [c]" "bundle_ok p c" "fits p c"
        "mset (bundle_syllables c) = mset (bundle_syllables prev @ bundle_syllables b)"
        "bundle_sources_ready_at b (start + length pre) (ready_after_bundles rdy start pre)"
      using try_merge_Some[OF Some] ok by (auto simp: packed_ok_def)
    have "stall_free rdy start outb'"
      using ok m(1,2,6) sources_ready_union[OF m(5)] by (simp add: packed_ok_def stall_free_snoc)
    then have "packed_ok p start rdy (evs @ map Issue (bundle_syllables b)) outb'"
      using ok m(1-4) in_order_merge[OF _ m(5)] by (auto simp: packed_ok_def)
    then show ?thesis using False Some by (simp add: pack_bundle_def)
  qed
qed

lemma pack_bundles_ok:
  assumes "packed_ok p start rdy evs outb" "\<forall>b \<in> set bs. packable p b"
  shows "\<exists>outb'. pack_bundles p start rdy outb bs = Some outb' \<and>
    packed_ok p start rdy (evs @ bundle_events bs) outb'"
  using assms
proof (induction bs arbitrary: outb evs)
  case (Cons b bs)
  obtain o1 where o1: "pack_bundle p start rdy outb b = Some o1"
      "packed_ok p start rdy (evs @ map Issue (bundle_syllables b)) o1"
    using pack_bundle_ok Cons.prems by (meson list.set_intros(1))
  then show ?case using Cons.IH[OF o1(2)] Cons.prems(2) by (simp add: bundle_events_def)
qed simp

lemma pack_bundle_segment_ok:
  assumes "\<forall>b \<in> set bs. packable p b"
  shows "\<exists>outb. pack_bundle_segment p bs start rdy = Some outb \<and> packed_ok p start rdy (bundle_events bs) outb"
  using pack_bundles_ok[of p start rdy "[]" "[]" bs] assms
  by (simp add: pack_bundle_segment_def packed_ok_def)


section \<open>Packing a program\<close>

text \<open>A terminator bundle reads no general-purpose register.\<close>

definition reads_no_gpr :: "asm_bundle \<Rightarrow> bool" where
  "reads_no_gpr b \<longleftrightarrow>
     (\<forall>s \<in> set (bundle_syllables b). \<forall>op. from_mnemonic (syl_opcode s) = Some op \<longrightarrow>
        gpr_sources (writes_gpr op) (syl_operands s) = [])"

definition packable_item :: "processor \<Rightarrow> item \<Rightarrow> bool" where
  "packable_item p it \<longleftrightarrow>
     (case it of
        LabelItem _ \<Rightarrow> True
      | BundleItem b \<Rightarrow> packable p b \<and> (bundle_is_terminator b \<longrightarrow> reads_no_gpr b))"

text \<open>Predicate results are ready in the cycle after they issue.\<close>

definition preds_settled :: "ready_state \<Rightarrow> nat \<Rightarrow> bool" where
  "preds_settled rdy cyc \<longleftrightarrow> (\<forall>r c. pred_ready rdy r = Some c \<longrightarrow> c \<le> cyc)"

lemma preds_settled_syllable:
  "preds_settled rdy (Suc cyc) \<Longrightarrow> preds_settled (update_ready_after_syllable cyc s rdy) (Suc cyc)"
  using writes_pred_latency
  by (fastforce simp: preds_settled_def update_ready_after_syllable_def Let_def
      split: option.splits operand.splits if_splits)

lemma preds_settled_bundle:
  assumes "preds_settled rdy cyc"
  shows "preds_settled (update_ready_after_bundle b cyc rdy) (Suc cyc)"
proof -
  have "preds_settled rdy (Suc cyc)" using assms by (auto simp: preds_settled_def intro: le_SucI)
  then show ?thesis
    unfolding update_ready_after_bundle_def
    by (rule fold_invariant[where Q = "\<lambda>_. True" and P = "\<lambda>r. preds_settled r (Suc cyc)", rotated])
      (auto intro: preds_settled_syllable)
qed

lemma preds_settled_bundles:
  "preds_settled (ready_after_bundles ready_default 0 bs) (length bs)"
proof (induction bs rule: rev_induct)
  case Nil
  show ?case by (simp add: preds_settled_def ready_default_def)
next
  case (snoc b bs)
  then show ?case by (simp add: preds_settled_bundle)
qed

lemma operands_ready_preds:
  "preds_settled rdy cyc \<Longrightarrow> gpr_sources g oprs = [] \<Longrightarrow> operands_ready rdy cyc g p oprs"
proof (induction rdy cyc g p oprs rule: operands_ready.induct)
  case (2 rdy cyc g p opr oprs)
  have "unwrap_or (pred_ready rdy r) 0 \<le> cyc" for r
    using 2(8) by (cases "pred_ready rdy r") (auto simp: preds_settled_def unwrap_or_def)
  then show ?case using 2 by (cases opr) (auto split: if_splits)
qed simp

lemma terminator_ready:
  "known b \<Longrightarrow> reads_no_gpr b \<Longrightarrow> preds_settled rdy cyc \<Longrightarrow> bundle_sources_ready_at b cyc rdy"
  by (fastforce simp: bundle_sources_ready_iff sources_ready_at_def known_def reads_no_gpr_def
      intro: operands_ready_preds)

text \<open>
  The state of the packer after the items \<open>done\<close>: those before the pending segment are carried by
  \<open>packed\<close>, and cycle and scoreboard are those of the bundles packed so far.
\<close>

definition pack_inv :: "processor \<Rightarrow> event list \<Rightarrow> pack_state \<Rightarrow> bool" where
  "pack_inv p evs st \<longleftrightarrow>
     (\<exists>flushed. evs = flushed @ bundle_events (segment st) \<and> in_order flushed (packed st)) \<and>
     (\<forall>b \<in> set (segment st). packable p b) \<and>
     (\<forall>b \<in> set (bundles_of (packed st)). bundle_ok p b \<and> fits p b) \<and>
     stall_free ready_default 0 (bundles_of (packed st)) \<and>
     pack_cycle st = length (bundles_of (packed st)) \<and>
     pack_ready st = ready_after_bundles ready_default 0 (bundles_of (packed st))"

lemma bundles_of_map [simp]: "bundles_of (map BundleItem bs) = bs"
  by (induction bs) simp_all

lemma flush_segment_inv:
  assumes "pack_inv p evs st"
  shows "\<exists>st'. flush_segment p st = Some st' \<and> pack_inv p evs st' \<and> segment st' = []"
proof -
  obtain flushed where fl: "evs = flushed @ bundle_events (segment st)" "in_order flushed (packed st)"
    using assms by (auto simp: pack_inv_def)
  obtain bs where bs: "pack_bundle_segment p (segment st) (pack_cycle st) (pack_ready st) = Some bs"
      "packed_ok p (pack_cycle st) (pack_ready st) (bundle_events (segment st)) bs"
    using pack_bundle_segment_ok assms unfolding pack_inv_def by blast
  have "in_order evs (packed st @ map BundleItem bs)"
    using fl bs(2) in_order_append by (auto simp: packed_ok_def)
  moreover have "stall_free ready_default 0 (bundles_of (packed st) @ bs)"
    using assms bs(2) by (simp add: pack_inv_def packed_ok_def stall_free_append)
  ultimately show ?thesis
    using assms bs by (auto simp: flush_segment_def pack_inv_def packed_ok_def ready_after_append
        simp flip: ready_after_bundles_def)
qed

lemma pack_item_inv:
  assumes "pack_inv p evs st" "packable_item p it"
  shows "\<exists>st'. pack_item p st it = Some st' \<and> pack_inv p (evs @ item_events [it]) st'"
proof -
  obtain st1 where st1: "flush_segment p st = Some st1" "pack_inv p evs st1" "segment st1 = []"
    using flush_segment_inv[OF assms(1)] by blast
  then have ord: "in_order evs (packed st1)" by (auto simp: pack_inv_def)
  show ?thesis
  proof (cases it)
    case (LabelItem l)
    have "in_order (evs @ [Mark l]) (packed st1 @ [LabelItem l])"
      using ord by (intro in_order_append in_order_single) (auto simp: carries_def)
    then show ?thesis using st1 LabelItem by (simp add: pack_item_def pack_inv_def)
  next
    case (BundleItem b)
    show ?thesis
    proof (cases "bundle_is_terminator b")
      case True
      have b: "packable p b" "reads_no_gpr b" using assms(2) BundleItem True by (auto simp: packable_item_def)
      have "in_order (evs @ map Issue (bundle_syllables b)) (packed st1 @ [BundleItem b])"
        using ord by (intro in_order_append in_order_single carries_self)
      moreover have "bundle_sources_ready_at b (pack_cycle st1) (pack_ready st1)"
        using st1(2) b preds_settled_bundles terminator_ready by (auto simp: pack_inv_def packable_def)
      ultimately show ?thesis
        using st1 BundleItem True b(1)
        by (auto simp: pack_item_def pack_inv_def stall_free_snoc packable_def)
    next
      case False
      have "packable p b" using assms(2) BundleItem by (simp add: packable_item_def)
      then show ?thesis
        using assms(1) BundleItem False by (auto simp: pack_item_def pack_inv_def)
    qed
  qed
qed

lemma pack_items_inv:
  assumes "pack_inv p evs st" "\<forall>it \<in> set its. packable_item p it"
  shows "\<exists>st'. pack_items p st its = Some st' \<and> pack_inv p (evs @ item_events its) st'"
  using assms
proof (induction its arbitrary: evs st)
  case (Cons it its)
  obtain st1 where st1: "pack_item p st it = Some st1" "pack_inv p (evs @ item_events [it]) st1"
    using pack_item_inv Cons.prems by (meson list.set_intros(1))
  then show ?case
    using Cons.IH[OF st1(2)] Cons.prems(2) by (cases it) simp_all
qed simp

definition well_packed :: "program \<Rightarrow> program \<Rightarrow> bool" where
  "well_packed prog prog' \<longleftrightarrow>
     processor prog' = processor prog \<and>
     in_order (item_events (items prog)) (items prog') \<and>
     stall_free ready_default 0 (bundles_of (items prog')) \<and>
     (\<forall>b \<in> set (bundles_of (items prog')). bundle_ok (processor prog) b \<and> fits (processor prog) b)"

lemma pack_scalar_program_ok:
  assumes "\<forall>it \<in> set (items prog). packable_item (processor prog) it"
  shows "\<exists>prog'. pack_scalar_program prog = Some prog' \<and> well_packed prog prog'"
proof -
  let ?p = "processor prog"
  have "pack_inv ?p [] pack_init"
    by (simp add: pack_inv_def pack_init_def)
  from pack_items_inv[OF this assms] obtain st where st:
    "pack_items ?p pack_init (items prog) = Some st" "pack_inv ?p (item_events (items prog)) st" by auto
  from flush_segment_inv[OF st(2)] obtain st' where st':
    "flush_segment ?p st = Some st'" "pack_inv ?p (item_events (items prog)) st'" "segment st' = []" by blast
  then obtain bs where "pack_bundle_segment ?p (segment st) (pack_cycle st) (pack_ready st) = Some bs"
      "packed st' = packed st @ map BundleItem bs"
    by (auto simp: flush_segment_def)
  then show ?thesis
    using st(1) st'(2,3) by (auto simp: pack_scalar_program_def well_packed_def pack_inv_def)
qed

section \<open>Packing what the emitter produces\<close>

definition control_opcodes :: "opcode list" where
  "control_opcodes = [Ret, Jump, Branch, Call]"

text \<open>In MIR, control transfers are terminators, never syllables.\<close>

definition control_free :: "mir_function \<Rightarrow> bool" where
  "control_free f \<longleftrightarrow> (\<forall>b \<in> set (blocks f). \<forall>s \<in> set (syllables b). opc s \<notin> set control_opcodes)"

lemma issued_syllable:
  assumes "function_events f evs" "Issue a \<in> set evs"
  shows "(\<exists>b \<in> set (blocks f). \<exists>s \<in> set (syllables b). lower_syllable s = Inr a) \<or>
    (\<exists>t. terminator_syllable t = Inr a)"
proof -
  obtain bevs where bevs: "list_all2 block_events (blocks f) bevs" "Issue a \<in> set (concat bevs)"
    using assms by (auto simp: function_events_def split: if_splits)
  from bevs(2) obtain be where be: "be \<in> set bevs" "Issue a \<in> set be" by auto
  then obtain i where "i < length bevs" "be = bevs ! i" by (metis in_set_conv_nth)
  then have i: "i < length (blocks f)" "block_events (blocks f ! i) (bevs ! i)" "Issue a \<in> set (bevs ! i)"
    using bevs(1) be(2) by (simp_all add: list_all2_conv_all_nth)
  then obtain ss t where ss: "try_map lower_syllable (syllables (blocks f ! i)) = Inr ss"
      "terminator_syllable (terminator (blocks f ! i)) = Inr t" "a \<in> set ss \<or> a = t"
    by (auto simp: block_events_def)
  have "\<exists>s \<in> set (syllables (blocks f ! i)). lower_syllable s = Inr a" if "a \<in> set ss"
    using ss(1) that unfolding try_map_eq_Inr list_all2_conv_all_nth by (metis in_set_conv_nth)
  then show ?thesis using ss(2,3) i(1) by (meson nth_mem)
qed

lemma terminator_syllable_no_gpr:
  "terminator_syllable t = Inr a \<Longrightarrow> gpr_sources g (syl_operands a) = []"
  by (auto simp: terminator_syllable_def result_simps split: terminator.splits)

lemma bundle_events_issue:
  "BundleItem b \<in> set its \<Longrightarrow> s \<in> set (bundle_syllables b) \<Longrightarrow> Issue s \<in> set (item_events its)"
  by (force simp: item_events_def)

lemma fits_ok_known:
  assumes "bundle_ok p b" "fits p b"
  shows "known b"
  unfolding known_def
proof
  fix s assume "s \<in> set (bundle_syllables b)"
  then have "Some s \<in> set (slots b)" by (simp add: bundle_syllables_def set_somes)
  then obtain i where "i < length (slots b)" "slots b ! i = Some s" by (metis in_set_conv_nth)
  then have "i < width_of p" "slot_syllable b i = Some s"
    using assms(2) by (auto simp: fits_def slot_syllable_Some)
  then show "from_mnemonic (syl_opcode s) \<noteq> None"
    using assms(1) unfolding bundle_ok_def slots_legal_def by fastforce
qed

lemma function_code_packable:
  assumes "function_code p f its" "control_free f" "it \<in> set its"
  shows "packable_item p it"
proof (cases it)
  case (BundleItem b)
  then have b: "bundle_ok p b" "fits p b"
    using assms(1,3) by (auto simp: function_code_def scalar_code_def set_bundles_of fits_def)
  moreover have "reads_no_gpr b" if tb: "bundle_is_terminator b"
  proof -
    have one: "length (bundle_syllables b) \<le> 1"
      using assms(1,3) BundleItem by (auto simp: function_code_def scalar_code_def set_bundles_of)
    obtain s op where s: "s \<in> set (bundle_syllables b)" "from_mnemonic (syl_opcode s) = Some op" "op \<in> set control_opcodes"
      using tb by (force simp: bundle_is_terminator_def list_ex_iff bundle_syllables_def control_opcodes_def)
    then have only: "bundle_syllables b = [s]" using one by (cases "bundle_syllables b") auto
    have "Issue s \<in> set (item_events its)"
      using assms(3) BundleItem s(1) bundle_events_issue by blast
    then consider b' s' where "b' \<in> set (blocks f)" "s' \<in> set (syllables b')" "lower_syllable s' = Inr s"
      | t where "terminator_syllable t = Inr s"
      using issued_syllable assms(1) by (metis function_code_def)
    then show ?thesis
    proof cases
      case 1
      then have "op = opc s'" using s(2) lower_syllable_opcode[OF 1(3)] by simp
      then show ?thesis using 1 s(3) assms(2) by (auto simp: control_free_def)
    next
      case 2
      then show ?thesis using only terminator_syllable_no_gpr by (simp add: reads_no_gpr_def)
    qed
  qed
  ultimately show ?thesis using BundleItem fits_ok_known by (simp add: packable_item_def packable_def)
qed (simp add: packable_item_def)

lemma list_schedule_function_total: "\<exists>f'. list_schedule_function f = Inr f' \<and> (control_free f \<longrightarrow> control_free f')"
proof -
  obtain f' where f': "list_schedule_function f = Inr f'"
      "list_all2 (\<lambda>b b'. label b' = label b \<and> terminator b' = terminator b \<and> set (syllables b') = set (syllables b))
        (blocks f) (blocks f')"
    using list_schedule_function_keeps by blast
  then have "\<exists>b \<in> set (blocks f). set (syllables b') = set (syllables b)" if "b' \<in> set (blocks f')" for b'
    using that list_all2_origin[OF f'(2)] by blast
  then show ?thesis using f'(1) unfolding control_free_def by metis
qed

lemma scheduled_program_scalar:
  assumes "\<And>f. list_schedule_function f = Inr (g f)"
  shows "scheduled_program fns p = scalar_program (map g fns) p"
proof -
  have "try_fold (\<lambda>prog f. and_then (list_schedule_function f) (emit_function prog)) prog0 fns =
      try_fold emit_function prog0 (map g fns)" for prog0 fns
    by (induction fns arbitrary: prog0) (simp_all add: assms and_then_def split: sum.split)
  then show ?thesis by (simp add: scheduled_program_def scalar_program_def)
qed

lemma scheduled_program_items:
  assumes "scheduled_program fns p = Inr prog" "\<forall>f \<in> set fns. control_free f"
  shows "processor prog = p \<and> (\<forall>it \<in> set (items prog). packable_item p it)"
proof -
  obtain g where g: "list_schedule_function f = Inr (g f)" "control_free f \<Longrightarrow> control_free (g f)" for f
    using list_schedule_function_total by metis
  have "scalar_program (map g fns) p = Inr prog" using assms(1) scheduled_program_scalar[of g] g(1) by simp
  from scalar_program_code[OF this] obtain parts where parts: "processor prog = p" "items prog = concat parts"
    "list_all2 (function_code p) (map g fns) parts" by blast
  have "packable_item p it" if it: "it \<in> set its" and its: "its \<in> set parts" for it its
  proof -
    obtain i where "i < length fns" "function_code p (g (fns ! i)) its"
      using parts(3) its by (auto simp: list_all2_conv_all_nth in_set_conv_nth)
    then show ?thesis using function_code_packable it g(2) assms(2) nth_mem by blast
  qed
  then show ?thesis using parts(1,2) by auto
qed

lemma well_packed_verifies: "well_packed prog prog' \<Longrightarrow> verify_program prog' = Inr ()"
  by (auto simp: well_packed_def verify_program_iff set_bundles_of)

section \<open>Properties\<close>

text \<open>
  C2: packing a program of one-syllable bundles is correct.  If every bundle of the program meets the
  verifier's contract, fits the processor's width and terminators read no general-purpose register,
  the packer returns; its program carries the same labels and syllables in the same order, except
  that syllables sharing a bundle issue together; every bundle still meets the contract; and every
  bundle, terminators included, finds its sources ready on the scoreboard of the whole program, so
  no general-purpose register is read before the latency of its last writer has passed.
\<close>

theorem pack_scalar_program_correct:
  assumes "\<forall>it \<in> set (items prog). packable_item (processor prog) it"
  shows "\<exists>prog'. pack_scalar_program prog = Some prog' \<and> well_packed prog prog' \<and>
    no_early_reads (bundles_of (items prog'))"
  using pack_scalar_program_ok[OF assms] stall_free_no_early_reads unfolding well_packed_def by blast

text \<open>
  C17: packed code generation never fails after emission.  For functions whose syllables hold no
  control transfer, once scheduling and scalar emission succeed, packing terminates, the verifier
  accepts the packed program and \<open>emit_packed_vliw_module\<close> returns its text; the packed program has
  the labels and syllables of the emitted one in order and is free of early reads.
\<close>

theorem packed_module_correct:
  assumes "scheduled_program fns p = Inr prog" "\<forall>f \<in> set fns. control_free f"
  shows "\<exists>prog'. emit_packed_vliw_module fns p = Inr (emit prog') \<and> well_packed prog prog' \<and>
    no_early_reads (bundles_of (items prog'))"
proof -
  have items: "processor prog = p" "\<forall>it \<in> set (items prog). packable_item (processor prog) it"
    using scheduled_program_items[OF assms] by auto
  obtain prog' where prog': "pack_scalar_program prog = Some prog'" "well_packed prog prog'"
    using pack_scalar_program_ok[OF items(2)] by blast
  then have "no_early_reads (bundles_of (items prog'))"
    using stall_free_no_early_reads unfolding well_packed_def by blast
  then show ?thesis
    using prog' assms(1) well_packed_verifies[OF prog'(2)]
    by (auto simp: emit_packed_vliw_module_def verified_def)
qed

theorem packed_module_correct_witness:
  "\<exists>prog prog'. scheduled_program [mul_function] default_processor = Inr prog \<and>
     emit_packed_vliw_module [mul_function] default_processor = Inr (emit prog') \<and> well_packed prog prog'"
proof -
  have "case scheduled_program [mul_function] default_processor of Inl _ \<Rightarrow> False | Inr _ \<Rightarrow> True" by code_simp
  then obtain prog where prog: "scheduled_program [mul_function] default_processor = Inr prog"
    by (auto split: sum.splits)
  have "\<forall>f \<in> set [mul_function]. control_free f"
    by (simp add: mul_function_def control_free_def control_opcodes_def)
  from packed_module_correct[OF prog this] show ?thesis using prog by blast
qed

definition two_bundles :: program where
  "two_bundles =
     \<lparr>processor = default_processor,
      items = [LabelItem ''entry'',
        BundleItem \<lparr>slots = [Some (new_syllable ''movi'' [Reg 2, Imm 6]), None, None, None]\<rparr>,
        BundleItem \<lparr>slots = [Some (new_syllable ''movi'' [Reg 3, Imm 7]), None, None, None]\<rparr>,
        BundleItem \<lparr>slots = [None, None, None, Some (new_syllable ''ret'' [])]\<rparr>]\<rparr>"

lemma two_bundles_packable: "\<forall>it \<in> set (items two_bundles). packable_item (processor two_bundles) it"
proof -
  have "verify_program two_bundles = Inr ()" by code_simp
  then show ?thesis
    unfolding verify_program_iff
    by (auto simp: two_bundles_def packable_item_def packable_def fits_def known_def bundle_syllables_def
        from_mnemonic_def reads_no_gpr_def default_processor_def bundle_is_terminator_def)
qed

theorem pack_scalar_program_correct_witness:
  "\<exists>prog'. pack_scalar_program two_bundles = Some prog' \<and> well_packed two_bundles prog' \<and> length (items prog') = 3"
proof -
  have "map_option (length \<circ> items) (pack_scalar_program two_bundles) = Some 3" by code_simp
  then show ?thesis using pack_scalar_program_correct[OF two_bundles_packable] by auto
qed

end
