(* ===== verification/Frontend.thy ===== *)
theory Frontend
  imports Isel Regalloc Pack
begin

text \<open>
  The compile driver of \<open>vliw-backend/src/lib.rs\<close>: the subset check, the optimisation pipeline and the
  entry points \<open>compile_to_mir\<close>, \<open>compile\<close> and \<open>compile_for_processor\<close>, which compose instruction
  selection, register allocation and emission.  What LLVM does is the argument \<open>L\<close>; the iteration
  orders of the hash maps of phi lowering and of the allocator are \<open>entry_iter\<close> and \<open>hash_iter\<close>.
\<close>

datatype schedule = ScalarS | PackS

section \<open>The subset check\<close>

definition check_int_width :: "u32 \<Rightarrow> compile_error + unit" where
  "check_int_width bits =
     (if bits \<in> {1, 32, 64} then Inr ()
      else Inl (UnsupportedFeature (''integer width i'' @ show_nat (unat bits))))"

definition check_type :: "llvm_type \<Rightarrow> compile_error + unit" where
  "check_type ty = (case ty of IntType w \<Rightarrow> check_int_width w | _ \<Rightarrow> Inr ())"

definition check_operand :: "llvm_operand \<Rightarrow> compile_error + unit" where
  "check_operand opr = (case opr of ValueOp v \<Rightarrow> check_type (value_type v) | BlockOp _ \<Rightarrow> Inr ())"

definition check_each :: "('a \<Rightarrow> compile_error + unit) \<Rightarrow> 'a list \<Rightarrow> compile_error + unit" where
  "check_each check xs = try_fold (\<lambda>_ x. check x) () xs"

definition check_instruction :: "llvm_instr \<Rightarrow> compile_error + unit" where
  "check_instruction instr =
     and_then
       (case get_opcode instr of
          CallBrI \<Rightarrow> Inl (UnsupportedFeature ''callbr/invoke not supported'')
        | InvokeI \<Rightarrow> Inl (UnsupportedFeature ''callbr/invoke not supported'')
        | AtomicRMWI \<Rightarrow> Inl (UnsupportedFeature ''atomic instruction'')
        | AtomicCmpXchgI \<Rightarrow> Inl (UnsupportedFeature ''atomic instruction'')
        | FenceI \<Rightarrow> Inl (UnsupportedFeature ''atomic instruction'')
        | _ \<Rightarrow> Inr ()) (\<lambda>_.
     and_then (check_type (get_type instr)) (\<lambda>_.
     check_each check_operand (get_operands instr)))"

definition check_function :: "llvm_function \<Rightarrow> compile_error + unit" where
  "check_function f =
     (if basic_blocks f = [] then Inr ()
      else
        and_then (check_each (check_type \<circ> value_type) (params f)) (\<lambda>_.
        and_then (check_type (return_type f)) (\<lambda>_.
        check_each (check_each check_instruction \<circ> instructions) (basic_blocks f))))"

definition check_module :: "llvm_module \<Rightarrow> compile_error + unit" where
  "check_module m = check_each check_function (module_functions m)"

section \<open>The pipeline\<close>

definition passes_for :: "optimization_level \<Rightarrow> string option" where
  "passes_for level =
     (case level of
        NoneL \<Rightarrow> None
      | Less \<Rightarrow> Some ''default<O1>''
      | DefaultL \<Rightarrow> Some ''default<O2>''
      | Aggressive \<Rightarrow> Some ''default<O3>'')"

definition map_err :: "('e \<Rightarrow> 'f) \<Rightarrow> 'e + 'a \<Rightarrow> 'f + 'a" where
  "map_err g r = (case r of Inl e \<Rightarrow> Inl (g e) | Inr x \<Rightarrow> Inr x)"

lemma map_err_eq [result_simps]:
  "map_err g r = Inr x \<longleftrightarrow> r = Inr x" "map_err g r = Inl e \<longleftrightarrow> (\<exists>e'. r = Inl e' \<and> e = g e')"
  by (cases r; auto simp: map_err_def)+

lemma map_err_simps [simp]: "map_err g (Inr x) = Inr x" "map_err g (Inl e) = Inl (g e)"
  by (simp_all add: map_err_def)

definition run_opt_pipeline ::
  "('t, 'm) llvm_api \<Rightarrow> llvm_module \<Rightarrow> optimization_level \<Rightarrow> compile_error + llvm_module" where
  "run_opt_pipeline L m level =
     (case passes_for level of
        None \<Rightarrow> Inr m
      | Some passes \<Rightarrow>
          and_then (map_err OptError (initialize_native L)) (\<lambda>_.
          and_then (map_err OptError (target_from_triple L)) (\<lambda>target.
          and_then (ok_or (create_target_machine L target level) (OptError ''failed to create target machine'')) (\<lambda>machine.
          map_err OptError (run_passes L m passes machine)))))"

text \<open>The buffer handed to LLVM is the text with a terminating zero byte.\<close>

definition parse_ir :: "('t, 'm) llvm_api \<Rightarrow> string \<Rightarrow> compile_error + llvm_module" where
  "parse_ir L ir_text = map_err ParseFailure (create_module_from_ir L (ir_text @ [CHR 0x00]))"

definition parse_and_optimize :: "('t, 'm) llvm_api \<Rightarrow> string \<Rightarrow> optimization_level \<Rightarrow> compile_error + string" where
  "parse_and_optimize L ir_text level =
     and_then (parse_ir L ir_text) (\<lambda>m.
     and_then (run_opt_pipeline L m level) (\<lambda>m.
     Inr (unwrap_or (print_to_string L m) [])))"

definition front_end :: "('t, 'm) llvm_api \<Rightarrow> string \<Rightarrow> optimization_level \<Rightarrow> compile_error + llvm_module" where
  "front_end L ir_text level =
     and_then (parse_ir L ir_text) (\<lambda>m.
     and_then (check_module m) (\<lambda>_.
     run_opt_pipeline L m level))"

definition compile_to_mir ::
  "('t, 'm) llvm_api \<Rightarrow> entry_order \<Rightarrow> string \<Rightarrow> optimization_level \<Rightarrow> compile_error + mir_function" where
  "compile_to_mir L entry_iter ir_text level =
     and_then (front_end L ir_text level) (\<lambda>m. lower_module entry_iter m DEFAULT_MEMORY_SIZE)"

definition back_end ::
  "entry_order \<Rightarrow> hash_order \<Rightarrow> schedule \<Rightarrow> processor \<Rightarrow> llvm_module \<Rightarrow> compile_error + string" where
  "back_end entry_iter hash_iter sched p m =
     and_then (lower_all_functions entry_iter m (memory_size p)) (\<lambda>fns.
     and_then (try_map (\<lambda>f. allocate_registers hash_iter f (memory_size p)) fns) (\<lambda>allocated_fns.
     case sched of
       ScalarS \<Rightarrow> emit_scalar_vliw_module allocated_fns p
     | PackS \<Rightarrow> emit_packed_vliw_module allocated_fns p))"

definition compile_for_processor ::
  "('t, 'm) llvm_api \<Rightarrow> entry_order \<Rightarrow> hash_order \<Rightarrow> string \<Rightarrow> optimization_level \<Rightarrow> schedule \<Rightarrow> processor \<Rightarrow>
     compile_error + string" where
  "compile_for_processor L entry_iter hash_iter ir_text level sched p =
     and_then (front_end L ir_text level) (back_end entry_iter hash_iter sched p)"

definition compile ::
  "('t, 'm) llvm_api \<Rightarrow> entry_order \<Rightarrow> hash_order \<Rightarrow> string \<Rightarrow> optimization_level \<Rightarrow> schedule \<Rightarrow>
     compile_error + string" where
  "compile L entry_iter hash_iter ir_text level sched =
     compile_for_processor L entry_iter hash_iter ir_text level sched default_processor"

end
