(* ===== verification/Shape.thy ===== *)
theory Shape
  imports Isel Regalloc Pack
begin

text \<open>
  The syllables that instruction selection can produce, and why none of the later passes rejects
  them: their shape survives phi lowering, register allocation and scheduling, and a processor with
  the units and slots they need makes emission succeed.
\<close>

section \<open>The shape of selected code\<close>

definition no_stack :: "val \<Rightarrow> bool" where
  "no_stack v = (case v of StackV _ \<Rightarrow> False | _ \<Rightarrow> True)"

definition selected_stores :: "opcode list" where
  "selected_stores = [StoreB, StoreW, StoreD]"

definition selected_loads :: "opcode list" where
  "selected_loads = [LoadB, LoadW, LoadD]"

definition selected_alu :: "opcode list" where
  "selected_alu =
     [MovImm, Mov, Add, Sub, Mul, And, Or, Xor, Shl, Srl, Sra, CmpEq, CmpLt, CmpUlt, PNot]"

definition selected_opcodes :: "opcode list" where
  "selected_opcodes = selected_stores @ selected_loads @ selected_alu"

lemmas opcode_lists = selected_stores_def selected_loads_def selected_alu_def selected_opcodes_def

fun store_shape :: "val list \<Rightarrow> bool" where
  "store_shape [base, data] = no_stack data"
| "store_shape [base, ImmV offset, data] = no_stack data"
| "store_shape _ = False"

fun load_shape :: "val list \<Rightarrow> bool" where
  "load_shape [base] = True"
| "load_shape [base, ImmV offset] = True"
| "load_shape _ = False"

definition shaped :: "mir_syllable \<Rightarrow> bool" where
  "shaped s \<longleftrightarrow>
     opc s \<in> set selected_stores \<and> store_shape (srcs s) \<or>
     opc s \<in> set selected_loads \<and> dst s \<noteq> None \<and> load_shape (srcs s) \<or>
     opc s \<in> set selected_alu \<and> dst s \<noteq> None \<and> length (srcs s) \<le> 2 \<and> list_all no_stack (srcs s)"

definition shaped_blocks :: "block list \<Rightarrow> bool" where
  "shaped_blocks bs \<longleftrightarrow> (\<forall>b \<in> set bs. list_all shaped (syllables b))"

lemma shaped_blocks_simps [simp]:
  "shaped_blocks []" "shaped_blocks (bs @ cs) \<longleftrightarrow> shaped_blocks bs \<and> shaped_blocks cs"
  "shaped_blocks (b # bs) \<longleftrightarrow> list_all shaped (syllables b) \<and> shaped_blocks bs"
  by (auto simp: shaped_blocks_def)

lemma shaped_short: "shaped s \<Longrightarrow> length (srcs s) \<le> 3"
  by (auto simp: shaped_def elim: store_shape.elims load_shape.elims)

lemma shaped_few:
  assumes "shaped_blocks (blocks f)"
  shows "few_operands f"
proof -
  have few: "card (set (src_vregs s)) \<le> length (srcs s)" for s
    by (metis (no_types, lifting) card_length le_trans length_filter_le length_map List.map_filter_def src_vregs_def)
  have "card (set (src_vregs s)) < 29" if "shaped s" for s
    using few[of s] shaped_short[OF that] by linarith
  then show ?thesis using assms by (auto simp: few_operands_def shaped_blocks_def list_all_iff)
qed

lemma shaped_opcode: "shaped s \<Longrightarrow> opc s \<in> set selected_opcodes"
  by (auto simp: shaped_def selected_opcodes_def)

lemma shaped_control_free: "shaped_blocks (blocks f) \<Longrightarrow> control_free f"
proof -
  have "set selected_opcodes \<inter> set control_opcodes = {}" by (simp add: opcode_lists control_opcodes_def)
  then show "shaped_blocks (blocks f) \<Longrightarrow> control_free f"
    using shaped_opcode unfolding control_free_def shaped_blocks_def list_all_iff by blast
qed

section \<open>Instruction selection\<close>

definition cx_shaped :: "isel_cx \<Rightarrow> bool" where
  "cx_shaped cx \<longleftrightarrow> shaped_blocks (mir_blocks cx) \<and> list_all shaped (cur_syls cx)"

lemma cx_shaped_update [simp]:
  "cx_shaped (push_syl s cx) \<longleftrightarrow> cx_shaped cx \<and> shaped s" "cx_shaped (cx\<lparr>vreg_map := m\<rparr>) = cx_shaped cx"
  "cx_shaped (cx\<lparr>next_vreg := n\<rparr>) = cx_shaped cx" "cx_shaped (cx\<lparr>gep_map := g\<rparr>) = cx_shaped cx"
  "cx_shaped (cx\<lparr>pending_phis := ps\<rparr>) = cx_shaped cx" "cx_shaped (cx\<lparr>cur_term := t\<rparr>) = cx_shaped cx"
  "cx_shaped (cx\<lparr>false_succ := l\<rparr>) = cx_shaped cx" "cx_shaped (cx\<lparr>true_succ := l\<rparr>) = cx_shaped cx"
  "cx_shaped (cx\<lparr>worklist := ls\<rparr>) = cx_shaped cx"
  by (auto simp: cx_shaped_def push_syl_def)

lemma shaped_syl:
  "shaped (syl op d vs) \<longleftrightarrow>
     op \<in> set selected_stores \<and> store_shape vs \<or>
     op \<in> set selected_loads \<and> d \<noteq> None \<and> load_shape vs \<or>
     op \<in> set selected_alu \<and> d \<noteq> None \<and> length vs \<le> 2 \<and> list_all no_stack vs"
  by (simp add: shaped_def)

lemma lower_operand_shaped:
  "lower_operand opr cx = Inr (v, cx') \<Longrightarrow> cx_shaped cx' = cx_shaped cx \<and> no_stack v"
  by (auto simp: lower_operand_def result_simps Let_def shaped_syl no_stack_def opcode_lists
      split: llvm_operand.splits llvm_type.splits if_splits)

lemma lower_two_operands_shaped:
  "lower_two_operands ma mb instr cx = Inr ((a, b), cx') \<Longrightarrow> cx_shaped cx' = cx_shaped cx \<and> no_stack a \<and> no_stack b"
  by (auto simp: lower_two_operands_def result_simps dest!: lower_operand_shaped)

lemma lower_arg_shaped: "lower_arg cx arg = Inr cx' \<Longrightarrow> cx_shaped cx' = cx_shaped cx"
  by (auto simp: lower_arg_def result_simps Let_def shaped_syl no_stack_def opcode_lists split: prod.splits option.splits)

lemma lower_args_shaped: "try_fold lower_arg cx args = Inr cx' \<Longrightarrow> cx_shaped cx' = cx_shaped cx"
  by (erule try_fold_invariant[where P = "\<lambda>c. cx_shaped c = cx_shaped cx"]) (auto dest: lower_arg_shaped)

lemma split_at_call_shaped: "cx_shaped (split_at_call msize target cx) = cx_shaped cx"
  by (auto simp: split_at_call_def Let_def cx_shaped_def push_syl_def shaped_syl no_stack_def opcode_lists)

lemma address_shapes:
  "load_shape (address_srcs base off)" "no_stack data \<Longrightarrow> store_shape (address_srcs base off @ [data])"
  by (simp_all add: address_srcs_def)

lemma lower_return_shaped: "lower_return instr cx = Inr cx' \<Longrightarrow> cx_shaped cx' = cx_shaped cx"
  by (auto simp: lower_return_def result_simps shaped_syl no_stack_def opcode_lists
      split: list.splits llvm_operand.splits llvm_type.splits if_splits option.splits)

lemma lower_call_shaped: "lower_call msize instr cx = Inr cx' \<Longrightarrow> cx_shaped cx' = cx_shaped cx"
  by (auto simp: lower_call_def result_simps Let_def shaped_syl no_stack_def opcode_lists split_at_call_shaped
      split: if_splits dest!: lower_args_shaped)

lemma icmp_selection_shape:
  "icmp_selection pred a b = Inr (op, x, y) \<Longrightarrow>
     op \<in> set selected_alu \<and> (no_stack a \<longrightarrow> no_stack b \<longrightarrow> no_stack x \<and> no_stack y)"
  by (cases pred) (auto simp: icmp_selection_def opcode_lists)

lemma pnot_shaped: "shaped (syl PNot (Some d) [RegV r])"
  by (simp add: shaped_syl opcode_lists no_stack_def)

lemma lower_icmp_shaped: "lower_icmp instr cx = Inr cx' \<Longrightarrow> cx_shaped cx' = cx_shaped cx"
  by (auto simp: lower_icmp_def result_simps Let_def shaped_syl[of op "Some d" "[x, y]" for op d x y] pnot_shaped
      split: if_splits dest!: lower_two_operands_shaped icmp_selection_shape)

lemma lower_binary_shaped:
  "lower_binary op instr cx = Inr cx' \<Longrightarrow> binary_opcode iop = Some op \<Longrightarrow> cx_shaped cx' = cx_shaped cx"
  by (auto simp: lower_binary_def binary_opcode_def result_simps Let_def shaped_syl opcode_lists
      split: instruction_opcode.splits dest!: lower_two_operands_shaped)

lemma memory_opcodes:
  "store_opcode opr = Inr op \<Longrightarrow> op \<in> set selected_stores" "load_opcode ty = Inr op \<Longrightarrow> op \<in> set selected_loads"
  by (auto simp: store_opcode_def load_opcode_def opcode_lists split: llvm_operand.splits llvm_type.splits if_splits)

lemma lower_store_shaped: "lower_store instr cx = Inr cx' \<Longrightarrow> cx_shaped cx' = cx_shaped cx"
  by (auto simp: lower_store_def result_simps shaped_syl address_shapes
      dest!: lower_operand_shaped memory_opcodes)

lemma lower_load_shaped: "lower_load instr cx = Inr cx' \<Longrightarrow> cx_shaped cx' = cx_shaped cx"
  by (auto simp: lower_load_def result_simps Let_def shaped_syl address_shapes dest!: memory_opcodes)

lemma lower_instr_shaped:
  assumes "lower_instr msize label_of lbl cx instr = Inr cx'" "cx_shaped cx"
  shows "cx_shaped cx'"
proof (cases "binary_opcode (get_opcode instr)")
  case None
  then show ?thesis
    using assms by (auto simp: lower_instr_def binary_opcode_def lower_phi_def lower_br_def lower_gep_def result_simps Let_def
        split: instruction_opcode.splits option.splits
        dest: lower_return_shaped lower_call_shaped lower_icmp_shaped lower_store_shaped lower_load_shaped)
next
  case (Some op)
  then have "lower_binary op instr cx = Inr cx'"
    using assms(1) by (auto simp: lower_instr_def binary_opcode_def split: instruction_opcode.splits)
  then show ?thesis using lower_binary_shaped[OF _ Some] assms(2) by simp
qed

lemma lower_block_shaped:
  assumes "lower_block msize label_of lbl bb cx = Inr cx'" "shaped_blocks (mir_blocks cx)"
  shows "shaped_blocks (mir_blocks cx')"
proof -
  obtain cx1 where cx1: "try_fold (lower_instr msize label_of lbl) (enter_block lbl cx) (instructions bb) = Inr cx1"
      "cx' = finish_block lbl cx1"
    using assms(1) by (auto simp: lower_block_def result_simps)
  have "cx_shaped (enter_block lbl cx)" using assms(2) by (simp add: cx_shaped_def enter_block_def)
  then have "cx_shaped cx1" by (rule try_fold_invariant[OF cx1(1)]) (auto dest: lower_instr_shaped)
  then show ?thesis unfolding cx1(2) by (auto simp: cx_shaped_def finish_block_def Let_def split: option.splits)
qed

lemma select_blocks_shaped:
  assumes "select_blocks msize f = Inr cx"
  shows "shaped_blocks (mir_blocks cx)"
proof -
  obtain cx0 l where cx0: "try_fold add_param isel_cx_new (params f) = Inr cx0"
      "lower_worklist msize (make_label_of (basic_blocks f)) (make_bb_of (basic_blocks f)) (cx0\<lparr>worklist := [l]\<rparr>) = Inr cx"
    using assms by (auto simp: select_blocks_def result_simps Let_def)
  have "mir_blocks cx0 = []"
    by (rule try_fold_invariant[OF cx0(1)]) (auto simp: isel_cx_new_def add_param_def result_simps)
  then have "shaped_blocks (mir_blocks (cx0\<lparr>worklist := [l]\<rparr>))" by simp
  then show ?thesis
    using lower_worklist_invariant[OF cx0(2), where P = "\<lambda>cx. shaped_blocks (mir_blocks cx)"] lower_block_shaped
    by fastforce
qed

section \<open>Phi lowering\<close>

lemma copy_shaped: "shaped (syllable_for_copy d src)"
  by (cases src) (simp_all add: syllable_for_copy_def shaped_syl no_stack_def opcode_lists)

lemma serialize_loop_shaped:
  assumes "serialize_loop remaining result n = Some r" "list_all shaped result"
  shows "list_all shaped (fst r)"
proof -
  let ?Q = "\<lambda>remaining result (n :: u32) r. list_all shaped result \<longrightarrow> list_all shaped (fst r)"
  have "?Q remaining result n r"
  proof (rule serialize_loop.raw_induct[OF _ assms(1), of ?Q])
    fix loop :: "pending \<Rightarrow> mir_syllable list \<Rightarrow> u32 \<Rightarrow> (mir_syllable list \<times> u32) option"
      and remaining :: pending and result and n :: u32 and r
    assume "\<And>remaining result n r. loop remaining result n = Some r \<Longrightarrow> ?Q remaining result n r"
      and "(if remaining = [] then Some (result, n) else
        case ready_position remaining of
          Some pos \<Rightarrow> loop (remove_nth pos remaining)
            (result @ [syllable_for_copy (fst (remaining ! pos)) (snd (remaining ! pos))]) n
        | None \<Rightarrow> (case first_reg_source remaining of None \<Rightarrow> None
            | Some s \<Rightarrow> loop (redirect s n remaining) (result @ [syllable_for_copy n (VRegSrc s)]) (n + 1))) = Some r"
    then show "?Q remaining result n r" by (auto simp: copy_shaped split: if_splits option.splits)
  qed
  then show ?thesis using assms(2) by blast
qed

lemma lower_phi_copies_shaped:
  assumes "lower_phi_copies bs entries n = Inr (bs', n')" "shaped_blocks bs"
  shows "shaped_blocks bs'"
proof -
  have step: "shaped_blocks (fst st')" if entry: "shaped_blocks (fst st)" "lower_phi_entry st entry = Inr st'" for st entry st'
  proof -
    obtain idx syls copies where st': "lower_phi_entry st entry = Inr st'" "idx < length (fst st)"
        "serialize_parallel_copies copies (snd st) = Some (syls, snd st')"
        "fst st' = (fst st)[idx := (fst st ! idx)\<lparr>syllables := syllables (fst st ! idx) @ syls\<rparr>]"
      using entry(2) by (auto simp: lower_phi_entry_def split: prod.splits option.splits dest: position_Some)
    have "list_all shaped syls"
      using serialize_loop_shaped st'(3) by (fastforce simp: serialize_parallel_copies_def)
    moreover have "list_all shaped (syllables (fst st ! idx))" using that(1) st'(2) by (simp add: shaped_blocks_def)
    ultimately show ?thesis
      using that(1) set_update_subset_insert[of "fst st" idx] unfolding st'(4) shaped_blocks_def by fastforce
  qed
  then have "shaped_blocks (fst (bs', n'))"
    using assms try_fold_invariant[of lower_phi_entry "(bs, n)" entries "(bs', n')" "\<lambda>st. shaped_blocks (fst st)"]
    unfolding lower_phi_copies_def by simp
  then show ?thesis by simp
qed

lemma lower_function_shaped: "lower_function entry_iter f msize = Inr f' \<Longrightarrow> shaped_blocks (blocks f')"
  by (auto simp: lower_function_def result_simps dest: select_blocks_shaped lower_phi_copies_shaped)

section \<open>Register allocation\<close>

lemma renamed_no_stack: "renamed v v' \<Longrightarrow> no_stack v' = no_stack v"
  by (auto simp: renamed_def no_stack_def split: val.splits reg.splits)

lemma renamed_imm: "renamed (ImmV n) v \<longleftrightarrow> v = ImmV n"
  by (simp add: renamed_def)

lemma renamed_store_shape: "store_shape vs \<Longrightarrow> list_all2 renamed vs vs' \<Longrightarrow> store_shape vs'"
  by (induction vs rule: store_shape.induct) (auto simp: list_all2_Cons1 renamed_imm renamed_no_stack)

lemma renamed_load_shape: "load_shape vs \<Longrightarrow> list_all2 renamed vs vs' \<Longrightarrow> load_shape vs'"
  by (induction vs rule: load_shape.induct) (auto simp: list_all2_Cons1 renamed_imm)

lemma renamed_all_no_stack: "list_all2 renamed vs vs' \<Longrightarrow> list_all no_stack vs \<Longrightarrow> list_all no_stack vs'"
  by (induction rule: list_all2_induct) (auto simp: renamed_no_stack)

lemma spill_only_shaped: "spill_only ss \<Longrightarrow> list_all shaped ss"
  by (auto simp: spill_only_def list_all_iff shaped_syl no_stack_def opcode_lists dest!: bspec)

lemma rewritten_shaped:
  assumes "rewritten s code" "shaped s"
  shows "list_all shaped code"
proof -
  obtain pre s' where code: "code = pre @ [s']" "spill_only pre" "opc s' = opc s" "renamed_dst (dst s) (dst s')"
      "list_all2 renamed (srcs s) (srcs s')"
    using assms(1) by (auto simp: rewritten_def)
  have "dst s \<noteq> None \<Longrightarrow> dst s' \<noteq> None" using code(4) by (auto simp: renamed_dst_def split: option.splits reg.splits)
  then have "shaped s'"
    using assms(2) code(3,5) renamed_store_shape renamed_load_shape renamed_all_no_stack list_all2_lengthD
    unfolding shaped_def by metis
  then show ?thesis using spill_only_shaped[OF code(2)] code(1) by simp
qed

lemma rewritten_block_shaped:
  assumes "rewritten_block b b'" "list_all shaped (syllables b)"
  shows "list_all shaped (syllables b')"
proof -
  obtain outs pre where b': "syllables b' = concat outs @ pre" "spill_only pre" "list_all2 rewritten (syllables b) outs"
    using assms(1) by (auto simp: rewritten_block_def)
  have "list_all shaped code" if "code \<in> set outs" for code
    using list_all2_origin[OF b'(3) that] rewritten_shaped assms(2) by (auto simp: list_all_iff)
  then show ?thesis using spill_only_shaped[OF b'(2)] b'(1) by (auto simp: list_all_iff)
qed

text \<open>Code that emission accepts: selected shapes, no virtual register left.\<close>

definition emittable :: "mir_function \<Rightarrow> bool" where
  "emittable f \<longleftrightarrow> shaped_blocks (blocks f) \<and> virtual_free f"

lemma allocate_registers_emittable:
  assumes "hash_order_ok hash_iter" "shaped_blocks (blocks f)"
  shows "\<exists>f'. allocate_registers hash_iter f m = Inr f' \<and> emittable f' \<and> fname f' = fname f \<and>
    list_all2 rewritten_block (blocks f) (blocks f')"
proof -
  obtain f' where f': "allocate_registers hash_iter f m = Inr f'" "fname f' = fname f"
      "list_all2 rewritten_block (blocks f) (blocks f')"
    using allocate_registers_total[OF assms(1) shaped_few[OF assms(2)]] by blast
  have "list_all shaped (syllables b') \<and> term_vreg (terminator b') = None \<and>
      (\<forall>s \<in> set (syllables b'). src_vregs s = [] \<and> dst_vreg s = None)" if "b' \<in> set (blocks f')" for b'
  proof -
    from list_all2_origin[OF f'(3) that] obtain b where "b \<in> set (blocks f)" "rewritten_block b b'" by blast
    then show ?thesis
      using rewritten_block_shaped rewritten_block_virtual_free assms(2) by (auto simp: shaped_blocks_def)
  qed
  then show ?thesis using f' by (auto simp: emittable_def shaped_blocks_def virtual_free_def)
qed

section \<open>Emission\<close>

text \<open>
  A processor that can run compiled code: slots do not exceed the declared width, every selected
  opcode has a slot, and the slot named \<open>X\<close> takes the control transfers.
\<close>

definition capable :: "processor \<Rightarrow> bool" where
  "capable p \<longleftrightarrow>
     length (slot_units p) \<le> width_of p \<and>
     (\<forall>op \<in> set selected_opcodes. list_ex (\<lambda>slot. slot_supports_opcode slot op p) [0..<width_of p]) \<and>
     (case slot_by_alias p ''X'' of
        None \<Rightarrow> False
      | Some x \<Rightarrow> \<forall>op \<in> set control_opcodes. slot_supports_opcode x op p)"

lemma default_capable: "capable default_processor"
  by code_simp

lemma selected_not_nop: "op \<in> set selected_opcodes \<Longrightarrow> op \<noteq> Nop"
  by (auto simp: opcode_lists)

lemma supports_in_range:
  assumes "length (slot_units p) \<le> width_of p" "slot_supports_opcode slot op p"
  shows "slot < width_of p"
  using assms
  by (auto simp: slot_supports_opcode_def slot_supports_opcode_with_units_def get_def split: option.splits if_splits)

lemma scalar_slot_total:
  assumes "capable p" "op \<in> set selected_opcodes"
  shows "\<exists>slot. scalar_slot op p = Inr slot \<and> slot_supports_opcode slot op p \<and> slot < width_of p"
proof -
  have nop: "op \<noteq> Nop" by (rule selected_not_nop[OF assms(2)])
  have "\<exists>slot \<in> set [0..<width_of p]. slot_supports_opcode_with_units slot op p (unit_kind_map p)"
    using assms nop unfolding capable_def list_ex_iff slot_supports_opcode_def by metis
  then obtain s where s: "first_compatible_slot op p = Inr s"
    using nop by (cases "find (\<lambda>slot. slot_supports_opcode_with_units slot op p (unit_kind_map p)) [0..<width_of p]")
      (auto simp: first_compatible_slot_def find_None_iff)
  then have "\<exists>slot. scalar_slot op p = Inr slot \<and> slot_supports_opcode slot op p"
    using first_compatible_slot_supports[OF s nop] by (auto simp: scalar_slot_def split: option.splits)
  then show ?thesis using supports_in_range assms(1) unfolding capable_def by blast
qed

lemma x_slot_total:
  assumes "capable p" "op \<in> set control_opcodes"
  shows "\<exists>slot. x_slot p = Inr slot \<and> slot_supports_opcode slot op p \<and> slot < width_of p"
proof -
  obtain x where "slot_by_alias p ''X'' = Some x" "slot_supports_opcode x op p"
    using assms by (auto simp: capable_def split: option.splits)
  then show ?thesis using supports_in_range assms(1) by (auto simp: x_slot_def slot_by_alias_def capable_def)
qed

text \<open>Emission into a processor: it returns and keeps the processor.\<close>

definition emits :: "processor \<Rightarrow> compile_error + emit_state \<Rightarrow> bool" where
  "emits p r \<longleftrightarrow> (\<exists>ctx prog. r = Inr (ctx, prog) \<and> processor prog = p)"

lemma emit_in_slot_total:
  assumes "processor prog = p" "slot_supports_opcode slot op p" "slot < width_of p"
  shows "emits p (emit_asm_syllable_in_slot (ctx, prog) op a slot)"
  using assms by (simp add: emits_def emit_asm_syllable_in_slot_def wait_until_eq bundle_with_def push_item_def Let_def)

lemma try_map_total: "(\<And>x. x \<in> set xs \<Longrightarrow> \<exists>y. f x = Inr y) \<Longrightarrow> \<exists>ys. try_map f xs = Inr ys"
  by (induction xs) fastforce+

lemma gpr_operand_total: "no_stack v \<Longrightarrow> (\<And>n. v \<noteq> RegV (VReg n)) \<Longrightarrow> \<exists>opr. gpr_or_imm_operand v = Inr opr"
  by (auto simp: no_stack_def gpr_or_imm_operand_def gpr_for_reg_def split: val.splits reg.splits)

lemma pred_operand_total: "no_stack v \<Longrightarrow> (\<And>n. v \<noteq> RegV (VReg n)) \<Longrightarrow> \<exists>opr. pred_or_gpr_operand b v = Inr opr"
  by (auto simp: no_stack_def pred_or_gpr_operand_def gpr_for_reg_def pred_for_reg_def split: val.splits reg.splits)

lemma address_total: "(\<And>n. v \<noteq> RegV (VReg n)) \<Longrightarrow> \<exists>opr. address_operand v off = Inr opr"
  by (auto simp: address_operand_def gpr_for_reg_def split: val.splits reg.splits)

lemma store_operands_total:
  "store_shape vs \<Longrightarrow> (\<And>n. RegV (VReg n) \<notin> set vs) \<Longrightarrow> \<exists>a d. store_operands vs = Inr (a, d)"
proof (induction vs rule: store_shape.induct)
  case (1 base data)
  have "\<exists>a. address_operand base 0 = Inr a" by (rule address_total) (use 1(2) in auto)
  moreover have "\<exists>d. gpr_or_imm_operand data = Inr d" by (rule gpr_operand_total) (use 1 in auto)
  ultimately show ?case by (cases data) (auto simp: store_operands_def)
next
  case (2 base off data)
  have "\<exists>a. address_operand base off = Inr a" by (rule address_total) (use 2(2) in auto)
  moreover have "\<exists>d. gpr_or_imm_operand data = Inr d" by (rule gpr_operand_total) (use 2 in auto)
  ultimately show ?case by (auto simp: store_operands_def)
qed simp_all

lemma load_address_total:
  "load_shape vs \<Longrightarrow> (\<And>n. RegV (VReg n) \<notin> set vs) \<Longrightarrow> \<exists>a. load_address vs = Inr a"
  by (induction vs rule: load_shape.induct) (auto simp: load_address_def intro: address_total)

lemma lower_syllable_total:
  assumes "shaped s" "src_vregs s = []" "dst_vreg s = None"
  shows "\<exists>a. lower_syllable s = Inr a"
proof -
  have srcs: "RegV (VReg n) \<notin> set (srcs s)" for n using assms(2) set_src_vregs[of n s] by simp
  have dst: "\<exists>r. dst s = Some (PReg r)" if "dst s \<noteq> None"
    using that assms(3) by (auto simp: dst_vreg_def split: reg.splits)
  from assms(1) consider "opc s \<in> set selected_stores" "store_shape (srcs s)"
    | "opc s \<in> set selected_loads" "dst s \<noteq> None" "load_shape (srcs s)"
    | "opc s \<in> set selected_alu" "dst s \<noteq> None" "list_all no_stack (srcs s)"
    by (auto simp: shaped_def)
  then show ?thesis
  proof cases
    case 1
    then obtain a d where "store_operands (srcs s) = Inr (a, d)" using store_operands_total srcs by blast
    then show ?thesis using 1(1) by (auto simp: lower_syllable_def opcode_lists)
  next
    case 2
    then obtain a r where "load_address (srcs s) = Inr a" "dst s = Some (PReg r)"
      using load_address_total srcs dst by blast
    then show ?thesis using 2(1) by (auto simp: lower_syllable_def opcode_lists gpr_for_reg_def)
  next
    case 3
    have "\<exists>oprs. try_map gpr_or_imm_operand (srcs s) = Inr oprs"
      using 3(3) srcs by (intro try_map_total gpr_operand_total) (auto simp: list_all_iff)
    moreover have "\<exists>oprs. try_map (pred_or_gpr_operand b) (srcs s) = Inr oprs" for b
      using 3(3) srcs by (intro try_map_total pred_operand_total) (auto simp: list_all_iff)
    ultimately obtain r oprs oprs' where "dst s = Some (PReg r)" "try_map gpr_or_imm_operand (srcs s) = Inr oprs"
        "try_map (pred_or_gpr_operand (opc s \<in> set [PNot, PAnd, POr, PXor])) (srcs s) = Inr oprs'"
      using dst 3(2) by metis
    moreover have "opc s \<notin> set [StoreB, StoreH, StoreW, StoreD]" "opc s \<notin> set [LoadB, LoadH, LoadW, LoadD]"
      using 3(1) by (auto simp: opcode_lists)
    ultimately show ?thesis
      by (simp add: lower_syllable_def Let_def gpr_for_reg_def pred_for_reg_def del: set_simps)
  qed
qed

lemma emit_syllable_total:
  assumes "capable p" "processor prog = p" "shaped s" "src_vregs s = []" "dst_vreg s = None"
  shows "emits p (emit_syllable (ctx, prog) s)"
proof -
  obtain a where "lower_syllable s = Inr a" using lower_syllable_total[OF assms(3-5)] by blast
  moreover obtain slot where "scalar_slot (opc s) p = Inr slot" "slot_supports_opcode slot (opc s) p" "slot < width_of p"
    using scalar_slot_total[OF assms(1) shaped_opcode[OF assms(3)]] by blast
  ultimately show ?thesis
    using emit_in_slot_total[OF assms(2)] by (simp add: emit_syllable_def emit_asm_syllable_def assms(2))
qed

lemma emit_terminator_total:
  assumes "capable p" "processor prog = p" "term_vreg t = None"
  shows "emits p (emit_terminator (ctx, prog) t)"
proof -
  have control: "emits p (emit_control_syllable (ctx, prog) op a)" if op: "op \<in> set control_opcodes" for op a
  proof -
    obtain slot where "x_slot p = Inr slot" "slot_supports_opcode slot op p" "slot < width_of p"
      using x_slot_total[OF assms(1) op] by blast
    then show ?thesis using emit_in_slot_total[OF assms(2)] by (simp add: emit_control_syllable_def assms(2))
  qed
  show ?thesis
    using assms(3)
    by (cases t) (auto simp: emit_terminator_def term_vreg_def pred_for_reg_def control_opcodes_def intro!: control
        split: reg.splits)
qed

lemma emits_fold:
  assumes "processor prog = p" "\<And>ctx prog x. x \<in> set xs \<Longrightarrow> processor prog = p \<Longrightarrow> emits p (f (ctx, prog) x)"
  shows "emits p (try_fold f (ctx, prog) xs)"
  using assms
proof (induction xs arbitrary: ctx prog)
  case (Cons x xs)
  obtain ctx1 prog1 where "f (ctx, prog) x = Inr (ctx1, prog1)" "processor prog1 = p"
    using Cons.prems by (force simp: emits_def)
  then show ?case using Cons.IH[of prog1 ctx1] Cons.prems(2) by simp
qed (simp add: emits_def)

lemma emit_block_total:
  assumes "capable p" "processor prog = p" "list_all shaped (syllables b)" "term_vreg (terminator b) = None"
    and "\<forall>s \<in> set (syllables b). src_vregs s = [] \<and> dst_vreg s = None"
  shows "emits p (emit_block name (ctx, prog) (idx, b))"
proof -
  let ?prog = "push_item (LabelItem (label b)) (if idx = 0 then push_item (LabelItem name) prog else prog)"
  have "emits p (try_fold emit_syllable (ctx, ?prog) (syllables b))"
    using assms emit_syllable_total[OF assms(1)] by (intro emits_fold) (auto simp: push_item_def list_all_iff)
  then obtain ctx1 prog1 where "try_fold emit_syllable (ctx, ?prog) (syllables b) = Inr (ctx1, prog1)" "processor prog1 = p"
    by (auto simp: emits_def)
  then show ?thesis using emit_terminator_total[OF assms(1) _ assms(4)] by (simp add: emit_block_def Let_def)
qed

lemma emit_function_total:
  assumes "capable p" "processor prog = p" "emittable f"
  shows "\<exists>prog'. emit_function prog f = Inr prog' \<and> processor prog' = p"
proof -
  have "emits p (try_fold (emit_block (fname f)) (codegen_ctx_default, prog) (enumerate 0 (blocks f)))"
  proof (rule emits_fold[OF assms(2)])
    fix ctx and prog :: program and ib :: "nat \<times> block"
    assume ib: "ib \<in> set (enumerate 0 (blocks f))" and prog: "processor prog = p"
    then have "snd ib \<in> set (blocks f)" using nth_mem by (fastforce simp: in_set_enumerate_eq)
    then show "emits p (emit_block (fname f) (ctx, prog) ib)"
      using emit_block_total[OF assms(1) prog, of "snd ib" "fname f" ctx "fst ib"] assms(3)
      by (auto simp: emittable_def shaped_blocks_def virtual_free_def)
  qed
  then show ?thesis by (auto simp: emits_def emit_function_def)
qed

lemma scalar_program_total:
  assumes "capable p" "\<forall>f \<in> set fns. emittable f"
  shows "\<exists>prog. scalar_program fns p = Inr prog"
proof -
  have "\<exists>prog'. try_fold emit_function prog fns = Inr prog'" if "processor prog = p" for prog
    using that assms(2)
  proof (induction fns arbitrary: prog)
    case (Cons f fns)
    then obtain prog1 where "emit_function prog f = Inr prog1" "processor prog1 = p"
      using emit_function_total[OF assms(1)] by force
    then show ?case using Cons by simp
  qed simp
  then show ?thesis by (simp add: scalar_program_def)
qed

lemma scheduled_emittable:
  assumes "list_schedule_function f = Inr f'" "emittable f"
  shows "emittable f'"
proof -
  have keeps: "list_all2 (\<lambda>b b'. label b' = label b \<and> terminator b' = terminator b \<and> set (syllables b') = set (syllables b))
      (blocks f) (blocks f')"
    using list_schedule_function_keeps[of f] assms(1) by auto
  show ?thesis
    unfolding emittable_def shaped_blocks_def virtual_free_def list_all_iff
    using list_all2_origin[OF keeps] assms(2) unfolding emittable_def shaped_blocks_def virtual_free_def list_all_iff by metis
qed

section \<open>Labels\<close>

text \<open>The labels of a program in order, and those that a list of functions gives rise to.\<close>

definition program_labels :: "item list \<Rightarrow> string list" where
  "program_labels its = List.map_filter (\<lambda>it. case it of LabelItem l \<Rightarrow> Some l | BundleItem _ \<Rightarrow> None) its"

definition function_labels :: "mir_function list \<Rightarrow> string list" where
  "function_labels fns = concat (map (\<lambda>f. if blocks f = [] then [] else fname f # map label (blocks f)) fns)"

definition marks :: "event list \<Rightarrow> string list" where
  "marks evs = List.map_filter (\<lambda>e. case e of Mark l \<Rightarrow> Some l | Issue _ \<Rightarrow> None) evs"

lemma marks_simps [simp]:
  "marks [] = []" "marks (Mark l # evs) = l # marks evs" "marks (Issue s # evs) = marks evs"
  "marks (evs @ evs') = marks evs @ marks evs'" "marks (map Issue ss) = []"
  by (simp_all add: marks_def map_filter_simps List.map_filter_def)

lemma marks_items: "marks (item_events its) = program_labels its"
proof (induction its)
  case (Cons it its)
  then show ?case by (cases it) (simp_all add: program_labels_def map_filter_simps)
qed (simp add: program_labels_def map_filter_simps)

lemma in_order_marks:
  assumes "in_order evs its"
  shows "marks evs = program_labels its"
proof -
  obtain groups where "concat groups = evs" "list_all2 carries its groups" using assms by (auto simp: in_order_def)
  moreover have "list_all2 carries its groups \<Longrightarrow> marks (concat groups) = program_labels its"
  proof (induction rule: list_all2_induct)
    case (Cons it its g groups)
    then show ?case by (cases it) (auto simp: carries_def program_labels_def map_filter_simps)
  qed (simp add: program_labels_def map_filter_simps)
  ultimately show ?thesis by blast
qed

lemma function_events_marks: "function_events f evs \<Longrightarrow> marks evs = function_labels [f]"
proof -
  have "list_all2 block_events bs bevs \<Longrightarrow> marks (concat bevs) = map label bs" for bs bevs
    by (induction rule: list_all2_induct) (auto simp: block_events_def)
  then show "function_events f evs \<Longrightarrow> marks evs = function_labels [f]"
    by (auto simp: function_events_def function_labels_def)
qed

lemma scalar_program_labels:
  assumes "scalar_program fns p = Inr prog"
  shows "program_labels (items prog) = function_labels fns"
proof -
  obtain parts where parts: "items prog = concat parts" "list_all2 (function_code p) fns parts"
    using scalar_program_code[OF assms] by blast
  have "marks (item_events (concat parts)) = function_labels fns"
    using parts(2)
  proof (induction rule: list_all2_induct)
    case (Cons f fns its parts)
    then show ?case using function_events_marks[of f "item_events its"] by (simp add: function_code_def function_labels_def)
  qed (simp add: function_labels_def)
  then show ?thesis using parts(1) marks_items by simp
qed

lemma same_labels:
  assumes "list_all2 (\<lambda>f f'. fname f' = fname f \<and> map label (blocks f') = map label (blocks f)) fns fns'"
  shows "function_labels fns' = function_labels fns"
  using assms
proof (induction rule: list_all2_induct)
  case (Cons f fns f' fns')
  moreover from this have "blocks f' = [] \<longleftrightarrow> blocks f = []" by (metis map_is_Nil_conv)
  ultimately show ?case by (simp add: function_labels_def)
qed simp

end
