(* ===== verification/Parse.thy ===== *)
theory Parse
  imports Asm
begin

text \<open>
  Component \<open>vliw-asm/src/parse.rs\<close>: the line parser for the \<open>.vliw\<close> text format, with the error and
  the message of every branch.  \<open>Parser\<close> holds the lines and the index of the next one; a method
  that advances takes the record and returns it updated.  The lemmas show that the parser inverts
  the emitter on well-formed programs, that what it returns has the shape of the processor it
  declares, and that its errors point at the line they are about (\<open>Roundtrip\<close>, \<open>ParseErrors\<close>).  Bracket depths are unbounded integers,
  where the source has \<open>i32\<close>.
\<close>

datatype parse_error =
    UnexpectedEof
  | Syntax nat string

record parser =
  plines :: "string list"
  pos :: nat

section \<open>The line cursor\<close>

definition parser_new :: "string \<Rightarrow> parser" where
  "parser_new input = \<lparr>plines = lines input, pos = 0\<rparr>"

definition peek :: "parser \<Rightarrow> string option" where
  "peek ps = get (plines ps) (pos ps)"

definition next_line :: "parser \<Rightarrow> string option \<times> parser" where
  "next_line ps =
     (let line = get (plines ps) (pos ps)
      in (line, if line \<noteq> None then ps\<lparr>pos := pos ps + 1\<rparr> else ps))"

function skip_blank :: "parser \<Rightarrow> parser" where
  "skip_blank ps =
     (if (case peek ps of Some l \<Rightarrow> trim l = [] | None \<Rightarrow> False)
      then skip_blank (ps\<lparr>pos := pos ps + 1\<rparr>) else ps)"
  by auto
termination
  by (relation "measure (\<lambda>ps. length (plines ps) - pos ps)")
    (auto simp: peek_def get_def split: if_splits)

declare skip_blank.simps [simp del]

definition expect_line :: "parser \<Rightarrow> parse_error + string \<times> parser" where
  "expect_line ps =
     (case next_line ps of
        (Some line, ps') \<Rightarrow> Inr (line, ps')
      | (None, _) \<Rightarrow> Inl UnexpectedEof)"

definition err :: "parser \<Rightarrow> string \<Rightarrow> parse_error" where
  "err ps msg = Syntax (pos ps) msg"

text \<open>The lines not yet consumed, as a number: what every loop of the parser decreases.\<close>

definition pending_lines :: "parser \<Rightarrow> nat" where
  "pending_lines ps = length (plines ps) - pos ps"

lemma skip_blank_props:
  "plines (skip_blank ps) = plines ps \<and> pos ps \<le> pos (skip_blank ps) \<and>
   (pos ps \<le> length (plines ps) \<longrightarrow> pos (skip_blank ps) \<le> length (plines ps))"
proof (induction ps rule: skip_blank.induct)
  case (1 ps)
  show ?case
  proof (cases "case peek ps of Some l \<Rightarrow> trim l = [] | None \<Rightarrow> False")
    case True
    then have "pos ps < length (plines ps)"
      by (auto simp: peek_def get_def split: option.splits if_splits)
    then show ?thesis using 1[OF True] True by (subst (1 2 3) skip_blank.simps) auto
  next
    case False
    then show ?thesis by (subst (1 2 3) skip_blank.simps) auto
  qed
qed

lemma expect_line_Inr:
  "expect_line ps = Inr (l, ps') \<longleftrightarrow>
     pos ps < length (plines ps) \<and> l = plines ps ! pos ps \<and> ps' = ps\<lparr>pos := Suc (pos ps)\<rparr>"
  by (auto simp: expect_line_def next_line_def get_def)

lemma expect_line_Inl:
  "expect_line ps = Inl e \<longleftrightarrow> length (plines ps) \<le> pos ps \<and> e = UnexpectedEof"
  by (auto simp: expect_line_def next_line_def get_def)

lemma expect_line_pending:
  "expect_line ps = Inr (l, ps') \<Longrightarrow> pending_lines ps' < pending_lines ps"
  by (auto simp: expect_line_Inr pending_lines_def)

lemma skip_blank_pending: "pending_lines (skip_blank ps) \<le> pending_lines ps"
  using skip_blank_props[of ps] by (auto simp: pending_lines_def)

lemma skip_expect_pending [termination_simp]:
  "expect_line (skip_blank ps) = Inr (l, ps') \<Longrightarrow> pending_lines ps' < pending_lines ps"
  using expect_line_pending skip_blank_pending order_less_le_trans by blast


section \<open>Operands and syllables\<close>

definition try_parse_reg :: "string \<Rightarrow> u8 option" where
  "try_parse_reg s = Option.bind (strip_prefix ''r'' s) parse_u8"

definition try_parse_pred :: "string \<Rightarrow> u8 option" where
  "try_parse_pred s = Option.bind (strip_prefix ''p'' s) parse_u8"

definition parse_hex_or_dec :: "string \<Rightarrow> i64 option" where
  "parse_hex_or_dec s =
     (case strip_prefix ''0x'' s of
        Some hex \<Rightarrow> parse_i64 16 hex
      | None \<Rightarrow> parse_i64 10 s)"

definition is_ascii_digit :: "char \<Rightarrow> bool" where
  "is_ascii_digit c \<longleftrightarrow> c \<in> set ''0123456789''"

definition parse_address :: "string \<Rightarrow> operand option" where
  "parse_address inner =
     (case split_once '' + '' inner of
        Some (base_s, off_s) \<Rightarrow>
          Option.bind (try_parse_reg (trim base_s)) (\<lambda>base.
          Option.bind (parse_hex_or_dec (trim off_s)) (\<lambda>offset. Some (MemAddr base offset)))
      | None \<Rightarrow>
          (case split_once '' - '' inner of
             Some (base_s, off_s) \<Rightarrow>
               Option.bind (try_parse_reg (trim base_s)) (\<lambda>base.
               Option.bind (parse_hex_or_dec (trim off_s)) (\<lambda>abs_off. Some (MemAddr base (- abs_off))))
           | None \<Rightarrow> Option.bind (try_parse_reg (trim inner)) (\<lambda>base. Some (MemAddr base 0))))"

definition parse_operand :: "string \<Rightarrow> operand option" where
  "parse_operand s =
     (if starts_with ''['' s then
        Option.bind (strip_prefix ''['' s) (\<lambda>s'. Option.bind (strip_suffix '']'' s') parse_address)
      else case try_parse_reg s of
        Some n \<Rightarrow> Some (Reg n)
      | None \<Rightarrow>
          (case try_parse_pred s of
             Some n \<Rightarrow> Some (Pred n)
           | None \<Rightarrow>
               if starts_with ''-'' s \<or> (case s of c # _ \<Rightarrow> is_ascii_digit c | [] \<Rightarrow> False)
               then map_option Imm (parse_i64 10 s)
               else Some (Label s)))"

text \<open>
  The byte loop of \<open>parse_operands\<close>: \<open>cur\<close> is the text from \<open>start\<close> to the current byte, \<open>depth\<close> the
  bracket nesting; a comma outside brackets ends an operand.
\<close>

fun parse_operands_from :: "int \<Rightarrow> string \<Rightarrow> operand list \<Rightarrow> string \<Rightarrow> operand list option" where
  "parse_operands_from depth cur operands [] =
     map_option (\<lambda>opr. operands @ [opr]) (parse_operand (trim cur))"
| "parse_operands_from depth cur operands (b # bs) =
     (if b = CHR ''['' then parse_operands_from (depth + 1) (cur @ [b]) operands bs
      else if b = CHR '']'' then parse_operands_from (depth - 1) (cur @ [b]) operands bs
      else if b = CHR '','' \<and> depth = 0 then
        Option.bind (parse_operand (trim cur)) (\<lambda>opr. parse_operands_from depth [] (operands @ [opr]) bs)
      else parse_operands_from depth (cur @ [b]) operands bs)"

definition parse_operands :: "string \<Rightarrow> operand list option" where
  "parse_operands s = parse_operands_from 0 [] [] s"

definition parse_syllable :: "string \<Rightarrow> asm_syllable option" where
  "parse_syllable s =
     (let (opcode, rest) = (case split_once '' '' s of Some (op, r) \<Rightarrow> (op, trim r) | None \<Rightarrow> (s, []))
      in Option.bind (if rest = [] then Some [] else parse_operands rest)
           (\<lambda>operands. Some \<lparr>syl_opcode = opcode, syl_operands = operands\<rparr>))"

definition parse_topology_inline :: "string \<Rightarrow> topology_spec option" where
  "parse_topology_inline trimmed =
     Option.bind (strip_prefix ''topology'' trimmed) (\<lambda>a.
     Option.bind (strip_prefix ''{'' (trim a)) (\<lambda>b.
     Option.bind (strip_prefix ''cpus '' (trim (trim_end_matches ((=) (CHR ''}'')) b))) (\<lambda>rest.
     Option.bind (parse_u32 (trim rest)) (\<lambda>n. Some \<lparr>cpus = n\<rparr>))))"

definition parse_memory_inline :: "string \<Rightarrow> u64 option" where
  "parse_memory_inline trimmed =
     Option.bind (strip_prefix ''memory'' trimmed) (\<lambda>a.
     Option.bind (strip_prefix ''{'' (trim a)) (\<lambda>b.
     Option.bind (strip_prefix ''size '' (trim (trim_end_matches ((=) (CHR ''}'')) b))) (\<lambda>size_s.
     parse_hex_or_dec (trim size_s))))"


section \<open>The processor header\<close>

definition parse_unit :: "parser \<Rightarrow> string \<Rightarrow> parse_error + unit_decl" where
  "parse_unit ps trimmed =
     and_then (ok_or (strip_prefix ''unit '' trimmed) (err ps (''expected 'unit ...': '' @ trimmed))) (\<lambda>rest.
     and_then (ok_or (split_once '' = '' rest) (err ps (''bad unit decl: '' @ trimmed))) (\<lambda>(name, kind).
     Inr \<lparr>unit_name = trim name, unit_kind_name = trim kind\<rparr>))"

function parse_hardware_loop :: "parser \<Rightarrow> unit_decl list \<Rightarrow> parse_error + unit_decl list \<times> parser" where
  "parse_hardware_loop ps us =
     and_then (expect_line (skip_blank ps)) (\<lambda>(line, ps').
       let trimmed = trim line in
       if trimmed = ''}'' then Inr (us, ps')
       else and_then (parse_unit ps' trimmed) (\<lambda>u. parse_hardware_loop ps' (us @ [u])))"
  by auto
termination
  by (relation "measure (pending_lines \<circ> fst)") (auto simp: skip_expect_pending)

definition parse_hardware :: "parser \<Rightarrow> parse_error + unit_decl list \<times> parser" where
  "parse_hardware ps = parse_hardware_loop ps []"

definition parse_alias :: "parser \<Rightarrow> string \<Rightarrow> string \<Rightarrow> parse_error + slot_alias" where
  "parse_alias ps trimmed rest =
     and_then (ok_or (split_once '' = '' rest) (err ps (''bad alias: '' @ trimmed))) (\<lambda>(name, idx_s).
     and_then (ok_or (parse_usize (trim idx_s)) (err ps (''bad alias index: '' @ idx_s))) (\<lambda>slot.
     Inr \<lparr>alias_name = trim name, alias_slot = slot\<rparr>))"

definition parse_slot_decl :: "parser \<Rightarrow> string \<Rightarrow> parse_error + nat \<times> string list" where
  "parse_slot_decl ps trimmed =
     and_then (ok_or (split_once '' = '' trimmed) (err ps (''bad slot decl: '' @ trimmed))) (\<lambda>(idx_s, rest).
     and_then (ok_or (parse_usize (trim idx_s)) (err ps (''bad slot index: '' @ idx_s))) (\<lambda>slot_idx.
     let inner = trim (trim_end_matches ((=) (CHR ''}'')) (trim_start_matches ((=) (CHR ''{'')) (trim rest)));
         us = (if inner = [] then [] else map trim (split_char (CHR '','') inner))
     in Inr (slot_idx, us)))"

function parse_layout_loop ::
  "parser \<Rightarrow> slot_alias list \<Rightarrow> (nat \<times> string list) list
     \<Rightarrow> parse_error + (slot_alias list \<times> (nat \<times> string list) list) \<times> parser" where
  "parse_layout_loop ps aliases indexed =
     and_then (expect_line (skip_blank ps)) (\<lambda>(line, ps').
       let trimmed = trim line in
       if trimmed = ''}'' then Inr ((aliases, indexed), ps')
       else case strip_prefix ''alias '' trimmed of
         Some rest \<Rightarrow>
           and_then (parse_alias ps' trimmed rest) (\<lambda>a. parse_layout_loop ps' (aliases @ [a]) indexed)
       | None \<Rightarrow>
           and_then (parse_slot_decl ps' trimmed) (\<lambda>d. parse_layout_loop ps' aliases (indexed @ [d])))"
  by auto
termination
  by (relation "measure (pending_lines \<circ> fst)") (auto simp: skip_expect_pending)

definition place_slots :: "(nat \<times> string list) list \<Rightarrow> string list list" where
  "place_slots indexed =
     (let sorted = sort_key fst indexed
      in if sorted = [] then []
         else fold (\<lambda>(i, us) result. result[i := us]) sorted
                (replicate (Max (set (map fst sorted)) + 1) []))"

definition parse_layout :: "parser \<Rightarrow> parse_error + (slot_alias list \<times> string list list) \<times> parser" where
  "parse_layout ps =
     and_then (parse_layout_loop ps [] []) (\<lambda>((aliases, indexed), ps').
       Inr ((aliases, place_slots indexed), ps'))"

text \<open>
  The loop variables of \<open>parse_processor\<close> are the fields of the processor it returns, so the loop
  state is that record, initialised with the values of the \<open>let mut\<close> bindings.
\<close>

definition initial_processor :: processor where
  "initial_processor =
     \<lparr>width = 4, proc_units = [], slot_aliases = [], slot_units = [], topology = \<lparr>cpus = 1\<rparr>,
      memory_size = DEFAULT_MEMORY_SIZE\<rparr>"

definition parse_processor_line :: "parser \<Rightarrow> string \<Rightarrow> processor \<Rightarrow> parse_error + processor \<times> parser" where
  "parse_processor_line ps trimmed p =
     (case strip_prefix ''width '' trimmed of
        Some rest \<Rightarrow>
          and_then (ok_or (parse_u32 (trim rest)) (err ps (''bad width: '' @ rest))) (\<lambda>w.
          Inr (p\<lparr>width := w\<rparr>, ps))
      | None \<Rightarrow>
          if trimmed = ''hardware {'' then
            and_then (parse_hardware ps) (\<lambda>(us, ps'). Inr (p\<lparr>proc_units := us\<rparr>, ps'))
          else if trimmed = ''layout slots {'' then
            and_then (parse_layout ps) (\<lambda>((aliases, us), ps').
            Inr (p\<lparr>slot_aliases := aliases, slot_units := us\<rparr>, ps'))
          else if starts_with ''cache {'' trimmed then Inr (p, ps)
          else if starts_with ''topology {'' trimmed then
            and_then (ok_or (parse_topology_inline trimmed) (err ps (''bad topology: '' @ trimmed))) (\<lambda>t.
            Inr (p\<lparr>topology := t\<rparr>, ps))
          else if starts_with ''memory {'' trimmed then
            and_then (ok_or (parse_memory_inline trimmed) (err ps (''bad memory: '' @ trimmed))) (\<lambda>m.
            Inr (p\<lparr>memory_size := m\<rparr>, ps))
          else Inl (err ps (''unexpected in .processor: '' @ trimmed)))"

text \<open>Advancing: the lines stay, the cursor moves forward and never past the end.\<close>

definition advanced :: "parser \<Rightarrow> parser \<Rightarrow> bool" where
  "advanced ps ps' \<longleftrightarrow> plines ps' = plines ps \<and> pos ps \<le> pos ps' \<and>
     (pos ps \<le> length (plines ps) \<longrightarrow> pos ps' \<le> length (plines ps))"

lemma advanced_refl [simp]: "advanced ps ps"
  by (simp add: advanced_def)

lemma advanced_trans [trans]: "advanced ps ps' \<Longrightarrow> advanced ps' ps'' \<Longrightarrow> advanced ps ps''"
  by (auto simp: advanced_def)

lemma advanced_pending: "advanced ps ps' \<Longrightarrow> pending_lines ps' \<le> pending_lines ps"
  by (auto simp: advanced_def pending_lines_def)

text \<open>
  A step of the parser is sane if on success it has advanced, and if a syntax error carries a number
  no less than the cursor it started from.  Sanity is kept by sequencing, so that the loops are sane
  by induction.
\<close>

definition sane :: "parser \<Rightarrow> parse_error + 'a \<times> parser \<Rightarrow> bool" where
  "sane ps r =
     (case r of
        Inr (_, ps') \<Rightarrow> advanced ps ps'
      | Inl (Syntax n _) \<Rightarrow> pos ps \<le> n
      | Inl UnexpectedEof \<Rightarrow> True)"

lemma sane_Inr [simp]: "sane ps (Inr (x, ps')) \<longleftrightarrow> advanced ps ps'"
  by (simp add: sane_def)

lemma sane_err [simp]: "sane ps (Inl (err ps msg))"
  by (simp add: sane_def err_def)

lemma sane_and_then:
  assumes "sane ps r" "\<And>x ps'. r = Inr (x, ps') \<Longrightarrow> sane ps' (f (x, ps'))"
  shows "sane ps (and_then r f)"
proof (cases r)
  case (Inr xp)
  obtain x ps' where xp: "xp = (x, ps')" by force
  have adv: "advanced ps ps'" using assms(1) Inr xp by simp
  have "sane ps' (f (x, ps'))" using assms(2) Inr xp by blast
  then have "sane ps (f (x, ps'))"
    using adv advanced_trans[OF adv] by (auto simp: sane_def advanced_def split: sum.splits parse_error.splits)
  then show ?thesis using Inr xp by simp
qed (use assms(1) in \<open>auto simp: sane_def\<close>)

lemma sane_ok_or: "(\<And>y. x = Some y \<Longrightarrow> sane ps (f y)) \<Longrightarrow> sane ps (and_then (ok_or x (err ps msg)) f)"
  by (cases x) simp_all

lemma sane_expect: "sane ps (expect_line ps)"
  by (auto simp: sane_def expect_line_def next_line_def get_def advanced_def)

lemma sane_skip_expect: "sane ps (expect_line (skip_blank ps))"
  using skip_blank_props[of ps] by (auto simp: sane_def expect_line_def next_line_def get_def advanced_def)

lemma sane_parse_unit: "(\<And>u. parse_unit ps t = Inr u \<Longrightarrow> sane ps (f u)) \<Longrightarrow> sane ps (and_then (parse_unit ps t) f)"
  by (cases "parse_unit ps t") (auto simp: parse_unit_def result_simps)

lemma sane_parse_alias:
  "(\<And>a. parse_alias ps t r = Inr a \<Longrightarrow> sane ps (f a)) \<Longrightarrow> sane ps (and_then (parse_alias ps t r) f)"
  by (cases "parse_alias ps t r") (auto simp: parse_alias_def result_simps)

lemma sane_parse_slot_decl:
  "(\<And>d. parse_slot_decl ps t = Inr d \<Longrightarrow> sane ps (f d)) \<Longrightarrow> sane ps (and_then (parse_slot_decl ps t) f)"
  by (cases "parse_slot_decl ps t") (auto simp: parse_slot_decl_def result_simps Let_def)

declare parse_hardware_loop.simps [simp del] parse_layout_loop.simps [simp del]

lemma sane_hardware_loop: "sane ps (parse_hardware_loop ps us)"
proof (induction ps us rule: parse_hardware_loop.induct)
  case (1 ps us)
  show ?case
    by (subst parse_hardware_loop.simps)
      (auto simp: Let_def intro!: sane_and_then[OF sane_skip_expect] sane_parse_unit 1)
qed

lemma sane_layout_loop: "sane ps (parse_layout_loop ps aliases indexed)"
proof (induction ps aliases indexed rule: parse_layout_loop.induct)
  case (1 ps aliases indexed)
  show ?case
    by (subst parse_layout_loop.simps)
      (auto simp: Let_def split: option.splits
        intro!: sane_and_then[OF sane_skip_expect] sane_parse_alias sane_parse_slot_decl 1)
qed

lemma sane_layout: "sane ps (parse_layout ps)"
  unfolding parse_layout_def by (auto intro!: sane_and_then[OF sane_layout_loop])

lemma sane_processor_line: "sane ps (parse_processor_line ps trimmed p)"
  by (auto simp: parse_processor_line_def parse_hardware_def split: option.splits
      intro!: sane_ok_or sane_and_then[OF sane_hardware_loop] sane_and_then[OF sane_layout])

lemma parse_processor_line_advanced:
  "parse_processor_line ps trimmed p = Inr (p', ps') \<Longrightarrow> advanced ps ps'"
  using sane_processor_line[of ps trimmed p] by simp

lemma processor_line_pending:
  "expect_line (skip_blank ps) = Inr (l, ps') \<Longrightarrow> parse_processor_line ps' t p = Inr (p', ps'')
     \<Longrightarrow> pending_lines ps'' < pending_lines ps"
  using advanced_pending parse_processor_line_advanced skip_expect_pending by (meson order_le_less_trans)

function parse_processor_loop :: "parser \<Rightarrow> processor \<Rightarrow> parse_error + processor \<times> parser" where
  "parse_processor_loop ps p =
     and_then (expect_line (skip_blank ps)) (\<lambda>(line, ps').
       let trimmed = trim line in
       if trimmed = ''}'' then Inr (p, ps')
       else and_then (parse_processor_line ps' trimmed p) (\<lambda>(p', ps''). parse_processor_loop ps'' p'))"
  by auto
termination
  by (relation "measure (pending_lines \<circ> fst)") (auto intro: processor_line_pending)

declare parse_processor_loop.simps [simp del]

definition parse_processor :: "parser \<Rightarrow> parse_error + processor \<times> parser" where
  "parse_processor ps =
     and_then (expect_line ps) (\<lambda>(line, ps').
       if trim line \<noteq> ''.processor {'' then
         Inl (err ps' (''expected '.processor {', got: '' @ trim line))
       else parse_processor_loop ps' initial_processor)"

section \<open>Bundles and programs\<close>

definition parse_slot :: "parser \<Rightarrow> processor \<Rightarrow> nat \<Rightarrow> string \<Rightarrow> parse_error + nat \<times> asm_syllable option" where
  "parse_slot ps proc pos_idx trimmed =
     and_then (ok_or (split_once '':'' trimmed) (err ps (''expected ':' in: '' @ trimmed))) (\<lambda>(before, after).
       let slot_name = trim before; rest = trim after;
           slot_idx = (case find (\<lambda>a. alias_name a = slot_name) (slot_aliases proc) of
                         Some a \<Rightarrow> alias_slot a | None \<Rightarrow> pos_idx)
       in and_then (if rest = ''nop'' then Inr None
                    else and_then (ok_or (parse_syllable rest) (err ps (''bad syllable: '' @ rest))) (\<lambda>s.
                         Inr (Some s)))
            (\<lambda>syllable. Inr (slot_idx, syllable)))"

function parse_bundle_loop ::
  "parser \<Rightarrow> processor \<Rightarrow> asm_syllable option list \<Rightarrow> nat
     \<Rightarrow> parse_error + asm_syllable option list \<times> parser" where
  "parse_bundle_loop ps proc ss pos_idx =
     and_then (expect_line ps) (\<lambda>(line, ps').
       let trimmed = trim line in
       if trimmed = ''}'' then Inr (ss, ps')
       else and_then (parse_slot ps' proc pos_idx trimmed) (\<lambda>(slot_idx, syllable).
         parse_bundle_loop ps' proc
           (if slot_idx < length ss then ss[slot_idx := syllable] else ss) (pos_idx + 1)))"
  by auto
termination
  by (relation "measure (pending_lines \<circ> fst)") (auto simp: expect_line_pending)

declare parse_bundle_loop.simps [simp del]

definition parse_bundle :: "parser \<Rightarrow> processor \<Rightarrow> parse_error + asm_bundle \<times> parser" where
  "parse_bundle ps proc =
     and_then (expect_line ps) (\<lambda>(_, ps').
     and_then (parse_bundle_loop ps' proc (replicate (width_of proc) None) 0) (\<lambda>(ss, ps'').
     Inr (\<lparr>slots = ss\<rparr>, ps'')))"

lemma sane_processor_loop: "sane ps (parse_processor_loop ps p)"
proof (induction ps p rule: parse_processor_loop.induct)
  case (1 ps p)
  show ?case
    by (subst parse_processor_loop.simps)
      (auto simp: Let_def intro!: sane_and_then[OF sane_skip_expect] sane_and_then[OF sane_processor_line] 1)
qed

lemma sane_processor: "sane ps (parse_processor ps)"
  unfolding parse_processor_def by (auto intro!: sane_and_then[OF sane_expect] sane_processor_loop)

lemma sane_parse_slot:
  "(\<And>x. parse_slot ps proc i t = Inr x \<Longrightarrow> sane ps (f x)) \<Longrightarrow> sane ps (and_then (parse_slot ps proc i t) f)"
  by (cases "parse_slot ps proc i t") (auto simp: parse_slot_def result_simps Let_def split: if_splits)

lemma sane_bundle_loop: "sane ps (parse_bundle_loop ps proc ss i)"
proof (induction ps proc ss i rule: parse_bundle_loop.induct)
  case (1 ps proc ss i)
  show ?case
    by (subst parse_bundle_loop.simps)
      (auto simp: Let_def intro!: sane_and_then[OF sane_expect] sane_parse_slot 1[unfolded Suc_eq_plus1[symmetric]])
qed

lemma sane_bundle:
  "sane ps (parse_bundle ps proc)"
  unfolding parse_bundle_def by (auto intro!: sane_and_then[OF sane_expect] sane_and_then[OF sane_bundle_loop])

lemma parse_bundle_loop_length: "parse_bundle_loop ps proc ss i = Inr (ss', ps'') \<Longrightarrow> length ss' = length ss"
proof (induction ps proc ss i rule: parse_bundle_loop.induct)
  case (1 ps proc ss i)
  then show ?case
    by (subst (asm) (2) parse_bundle_loop.simps) (auto simp: result_simps Let_def split: if_splits)
qed

lemma parse_bundle_props:
  assumes "parse_bundle ps proc = Inr (b, ps'')"
  shows "length (slots b) = width_of proc" "pending_lines ps'' < pending_lines ps"
proof -
  obtain l ps' ss where l: "expect_line ps = Inr (l, ps')" and ss: "b = \<lparr>slots = ss\<rparr>"
      "parse_bundle_loop ps' proc (replicate (width_of proc) None) 0 = Inr (ss, ps'')"
    using assms by (auto simp: parse_bundle_def result_simps)
  show "length (slots b) = width_of proc"
    using parse_bundle_loop_length[OF ss(2)] ss(1) by auto
  have "advanced ps' ps''" using sane_bundle_loop[of ps' proc] ss(2) by (metis sane_Inr)
  then show "pending_lines ps'' < pending_lines ps"
    using expect_line_pending[OF l] advanced_pending order_le_less_trans by blast
qed

lemma bundle_pending:
  "parse_bundle (skip_blank ps) proc = Inr (b, ps') \<Longrightarrow> pending_lines ps' < pending_lines ps"
  using parse_bundle_props(2) skip_blank_pending order_less_le_trans by blast

lemma label_pending:
  "peek (skip_blank ps) = Some line
     \<Longrightarrow> pending_lines (skip_blank ps\<lparr>pos := Suc (pos (skip_blank ps))\<rparr>) < pending_lines ps"
  using skip_blank_pending[of ps] by (auto simp: pending_lines_def peek_def get_def split: if_splits)

function parse_items_loop :: "parser \<Rightarrow> processor \<Rightarrow> item list \<Rightarrow> parse_error + item list \<times> parser" where
  "parse_items_loop ps proc its =
     (let ps = skip_blank ps in
      case peek ps of
        None \<Rightarrow> Inr (its, ps)
      | Some line \<Rightarrow>
          (let trimmed = trim line in
           if trimmed = ''{'' then
             and_then (parse_bundle ps proc) (\<lambda>(b, ps'). parse_items_loop ps' proc (its @ [BundleItem b]))
           else case strip_suffix '':'' trimmed of
             Some label \<Rightarrow> parse_items_loop (ps\<lparr>pos := pos ps + 1\<rparr>) proc (its @ [LabelItem label])
           | None \<Rightarrow> Inl (err ps (''unexpected: '' @ trimmed))))"
  by auto
termination
  by (relation "measure (pending_lines \<circ> fst)") (auto intro: bundle_pending label_pending)

declare parse_items_loop.simps [simp del]

definition parse_program :: "parser \<Rightarrow> parse_error + program" where
  "parse_program ps =
     and_then (parse_processor (skip_blank ps)) (\<lambda>(proc, ps').
     and_then (parse_items_loop ps' proc []) (\<lambda>(its, _).
     Inr \<lparr>processor = proc, items = its\<rparr>))"

definition parse :: "string \<Rightarrow> parse_error + program" where
  "parse input = parse_program (parser_new input)"

section \<open>Errors do not point backwards\<close>

lemma sane_skipped: "sane (skip_blank ps) r \<Longrightarrow> sane ps r"
proof -
  assume r: "sane (skip_blank ps) r"
  have "sane ps (and_then (Inr ((), skip_blank ps)) (\<lambda>_. r))"
    using skip_blank_props[of ps] r by (intro sane_and_then) (auto simp: advanced_def)
  then show ?thesis by simp
qed

lemma sane_next_line: "peek ps = Some l \<Longrightarrow> sane (ps\<lparr>pos := Suc (pos ps)\<rparr>) r \<Longrightarrow> sane ps r"
  using sane_and_then[of ps "Inr ((), ps\<lparr>pos := Suc (pos ps)\<rparr>)" "\<lambda>_. r"]
  by (auto simp: advanced_def peek_def get_def split: if_splits)

lemma sane_items_loop: "sane ps (parse_items_loop ps proc its)"
proof (induction ps proc its rule: parse_items_loop.induct)
  case (1 ps proc its)
  show ?case
    by (rule sane_skipped, subst parse_items_loop.simps)
      (auto simp: Let_def split: option.splits
        intro!: sane_and_then[OF sane_bundle] 1[unfolded Suc_eq_plus1[symmetric]] intro: sane_next_line)
qed

end
