(* ===== verification/Roundtrip.thy ===== *)
theory Roundtrip
  imports Parse
begin

text \<open>
  The parser inverts the emitter: \<open>parse (emit p)\<close> returns \<open>p\<close> for every well-formed program, up to
  the normal form of its bundles (as many slots as the processor is wide, and \<open>nop\<close> for an empty
  slot).  The proofs follow the text from the inside out: operands, syllables, slot lines,
  bundles, the processor header, the program.
\<close>

section \<open>Well-formed names and operands\<close>

text \<open>
  Names are non-empty and free of whitespace and of the punctuation of the format.  A label
  operand must not read as a register, a predicate or a number.
\<close>

definition ident_char :: "char \<Rightarrow> bool" where
  "ident_char c \<longleftrightarrow> \<not> is_space c \<and> c \<notin> set '',:{}[]=''"

definition ident :: "string \<Rightarrow> bool" where
  "ident s \<longleftrightarrow> s \<noteq> [] \<and> (\<forall>c \<in> set s. ident_char c)"

definition label_operand :: "string \<Rightarrow> bool" where
  "label_operand s \<longleftrightarrow> ident s \<and> try_parse_reg s = None \<and> try_parse_pred s = None \<and>
     \<not> starts_with ''-'' s \<and> \<not> is_ascii_digit (hd s)"

definition operand_ok :: "operand \<Rightarrow> bool" where
  "operand_ok opr =
     (case opr of
        MemAddr base offset \<Rightarrow> sint offset \<noteq> - (2 ^ 63)
      | Label s \<Rightarrow> label_operand s
      | _ \<Rightarrow> True)"

definition syllable_ok :: "asm_syllable \<Rightarrow> bool" where
  "syllable_ok s \<longleftrightarrow> ident (syl_opcode s) \<and> (\<forall>opr \<in> set (syl_operands s). operand_ok opr)"

lemma ident_tight [simp]: "ident s \<Longrightarrow> tight s"
  by (auto simp: ident_def ident_char_def tight_def)

lemma ident_chars:
  assumes "ident s"
  shows "CHR '' '' \<notin> set s" "CHR '','' \<notin> set s" "CHR '':'' \<notin> set s" "CHR ''['' \<notin> set s" "CHR '']'' \<notin> set s"
    "CHR ''{'' \<notin> set s" "CHR ''}'' \<notin> set s" "newline \<notin> set s" "CHR 0x0D \<notin> set s"
  using assms by (auto simp: ident_def ident_char_def is_space_def newline_def)

lemma ident_Cons: "ident s \<Longrightarrow> ident_char c \<Longrightarrow> ident (c # s)"
  by (auto simp: ident_def)

lemma ident_char_code [simp]:
  "list_all ident_char ''0123456789abcdef''" "ident_char (CHR ''0'')" "ident_char (CHR ''x'')"
  "ident_char (CHR ''r'')" "ident_char (CHR ''p'')" "ident_char (CHR ''-'')"
  by (simp_all add: ident_char_def is_space_def)

lemma ident_show_radix [simp]:
  assumes "2 \<le> b" "b \<le> 16"
  shows "ident (show_radix b n)"
proof -
  have "\<forall>c \<in> set ''0123456789abcdef''. ident_char c"
    using ident_char_code(1) unfolding list_all_iff .
  then show ?thesis
    unfolding ident_def using show_radix_chars[OF assms, of n] by (meson show_radix_nonempty subset_iff)
qed

lemma digits_no_plus [simp]: "2 \<le> b \<Longrightarrow> b \<le> 16 \<Longrightarrow> CHR ''+'' \<notin> set (show_radix b n)"
  using show_radix_chars[of b n] by auto

lemma show_nat_no_plus [simp]: "CHR ''+'' \<notin> set (show_nat n)"
  by (simp add: show_nat_def)

lemma ident_show_nat [simp]: "ident (show_nat n)"
  by (simp add: show_nat_def)

lemma ident_show_hex [simp]: "ident (show_hex n)"
  by (simp add: show_hex_def ident_Cons)

lemma ident_show_i64 [simp]: "ident (show_i64 w)"
  by (simp add: show_i64_def ident_Cons)


section \<open>Operands\<close>

lemma parse_reg_text [simp]: "try_parse_reg (CHR ''r'' # show_nat (unat n)) = Some n"
  by (simp add: try_parse_reg_def)

lemma try_parse_reg_hd: "c \<noteq> CHR ''r'' \<Longrightarrow> try_parse_reg (c # s) = None"
  by (simp add: try_parse_reg_def)

lemma parse_hex_text: "n < 2 ^ 63 \<Longrightarrow> parse_hex_or_dec (show_hex n) = Some (of_nat n)"
  by (simp add: parse_hex_or_dec_def show_hex_def parse_i64_digits)

lemma hd_show_i64: "starts_with ''-'' (show_i64 w) \<or> is_ascii_digit (hd (show_i64 w))"
proof (cases "sint w < 0")
  case False
  have "hd (show_nat (nat (sint w))) \<in> set (show_nat (nat (sint w)))" by (rule hd_in_set) simp
  then have "hd (show_nat (nat (sint w))) \<in> set ''0123456789''" using show_nat_chars by (rule subsetD[rotated])
  then show ?thesis using False by (simp add: show_i64_def is_ascii_digit_def)
qed (simp add: show_i64_def starts_with_def)

lemma show_i64_not_name:
  "try_parse_reg (show_i64 w) = None" "try_parse_pred (show_i64 w) = None" "\<not> starts_with ''['' (show_i64 w)"
proof -
  obtain c cs where c: "show_i64 w = c # cs" using ident_show_i64[of w] by (cases "show_i64 w") (auto simp: ident_def)
  then have "c \<in> set ''-0123456789''"
    using hd_show_i64[of w] by (auto simp: starts_with_def is_ascii_digit_def split: if_splits)
  then show "try_parse_reg (show_i64 w) = None" "try_parse_pred (show_i64 w) = None"
    "\<not> starts_with ''['' (show_i64 w)"
    using c by (auto simp: try_parse_reg_def try_parse_pred_def starts_with_def)
qed

lemma parse_imm_text: "parse_operand (show_i64 w) = Some (Imm w)"
proof -
  have "starts_with ''-'' (show_i64 w) \<or> (case show_i64 w of c # _ \<Rightarrow> is_ascii_digit c | [] \<Rightarrow> False)"
    using hd_show_i64[of w] ident_show_i64[of w] by (cases "show_i64 w") (auto simp: ident_def)
  then show ?thesis using show_i64_not_name[of w] by (simp add: parse_operand_def)
qed

lemma parse_bracketed: "parse_operand (CHR ''['' # inner @ '']'') = parse_address inner"
  using strip_suffix_append[of "'']''" inner] by (simp add: parse_operand_def starts_with_def)

lemma parse_address_text:
  assumes "ident r" "CHR ''+'' \<notin> set r" "try_parse_reg r = Some base"
  shows "parse_address r = Some (MemAddr base 0)"
    and "n < 2 ^ 63 \<Longrightarrow> parse_address (r @ '' + '' @ show_hex n) = Some (MemAddr base (of_nat n))"
    and "n < 2 ^ 63 \<Longrightarrow> parse_address (r @ '' - '' @ show_hex n) = Some (MemAddr base (- of_nat n))"
proof -
  note free = ident_chars(1)[OF assms(1)]
  show "parse_address r = Some (MemAddr base 0)"
    using free assms by (simp add: parse_address_def split_once_absent[of "CHR '' ''"])
  show "parse_address (r @ '' + '' @ show_hex n) = Some (MemAddr base (of_nat n))" if "n < 2 ^ 63"
    using split_once_append[of "'' + ''" r "show_hex n"] free assms that
    by (simp add: parse_address_def parse_hex_text)
  show "parse_address (r @ '' - '' @ show_hex n) = Some (MemAddr base (- of_nat n))" if "n < 2 ^ 63"
  proof -
    have "split_once '' + '' (r @ '' - '' @ show_hex n) = None"
      using assms(2) by (intro split_once_absent[of "CHR ''+''"]) (simp_all add: show_hex_def)
    then show ?thesis
      using split_once_append[of "'' - ''" r "show_hex n"] free assms that
      by (simp add: parse_address_def parse_hex_text)
  qed
qed

lemma parse_mem_text:
  assumes "sint offset \<noteq> - (2 ^ 63)"
  shows "parse_operand (show_operand (MemAddr base offset)) = Some (MemAddr base offset)"
proof -
  let ?r = "CHR ''r'' # show_nat (unat base)"
  have r: "ident ?r" "CHR ''+'' \<notin> set ?r" "try_parse_reg ?r = Some base"
    by (simp_all add: ident_Cons)
  note parse = parse_bracketed[of ?r] parse_bracketed[of "?r @ '' + '' @ show_hex (nat (sint offset))"]
    parse_bracketed[of "?r @ '' - '' @ show_hex (unsigned_abs offset)"]
  have "sint offset = 0 \<Longrightarrow> offset = 0" by (rule signed_word_eqI) simp
  then consider "offset = 0" | "0 < sint offset" "offset \<noteq> 0" | "sint offset < 0" "offset \<noteq> 0"
    by (cases "sint offset" "0::int" rule: linorder_cases) auto
  then show ?thesis
  proof cases
    case 1
    then show ?thesis using parse(1) parse_address_text(1)[OF r] by (simp add: show_operand_def)
  next
    case 2
    have "nat (sint offset) < 2 ^ 63" using sint_i64_bounds(2)[of offset] by simp
    then show ?thesis
      using 2 parse(2) parse_address_text(2)[OF r] by (simp add: show_operand_def of_nat_nat)
  next
    case 3
    have "unsigned_abs offset < 2 ^ 63"
      using 3 assms sint_i64_bounds(1)[of offset] by (simp add: unsigned_abs_def)
    moreover have "- (of_nat (unsigned_abs offset) :: i64) = offset"
      using 3 by (simp add: unsigned_abs_def of_nat_nat)
    ultimately show ?thesis
      using 3 parse(3) parse_address_text(3)[OF r] by (simp add: show_operand_def)
  qed
qed

lemma parse_label_text:
  assumes "label_operand s"
  shows "parse_operand s = Some (Label s)"
proof -
  have "\<not> starts_with ''['' s" "s \<noteq> []"
    using assms ident_chars(4)[of s]
    by (auto simp: label_operand_def starts_with_def strip_prefix_eq_Some ident_def)
  then show ?thesis
    using assms by (auto simp: parse_operand_def label_operand_def split: list.splits)
qed

lemma parse_show_operand: "operand_ok opr \<Longrightarrow> parse_operand (show_operand opr) = Some opr"
proof (cases opr)
  case (MemAddr base offset)
  moreover assume "operand_ok opr"
  ultimately show ?thesis using parse_mem_text by (simp add: operand_ok_def)
next
  case (Imm w)
  then show ?thesis by (simp add: show_operand_def parse_imm_text)
next
  case (Label s)
  moreover assume "operand_ok opr"
  ultimately show ?thesis using parse_label_text by (simp add: operand_ok_def show_operand_def)
qed (simp_all add: show_operand_def parse_operand_def starts_with_def try_parse_reg_hd try_parse_pred_def)

text \<open>An operand prints as a name, or as a bracketed text of names and blanks.\<close>

definition inner_text :: "string \<Rightarrow> bool" where
  "inner_text s \<longleftrightarrow> (\<forall>c \<in> set s. ident_char c \<or> c = CHR '' '')"

lemma operand_shape:
  assumes "operand_ok opr"
  obtains (name) "ident (show_operand opr)"
  | (address) inner where "show_operand opr = CHR ''['' # inner @ '']''" "inner_text inner"
proof (cases "\<exists>base offset. opr = MemAddr base offset")
  case True
  then obtain base offset where opr: "opr = MemAddr base offset" by blast
  have plus: "ident_char (CHR ''+'')" by (simp add: ident_char_def is_space_def)
  have chars: "\<forall>c \<in> set (show_nat n). ident_char c" "\<forall>c \<in> set (show_hex n). ident_char c" for n
    using ident_show_nat ident_show_hex unfolding ident_def by blast+
  let ?r = "CHR ''r'' # show_nat (unat base)"
  consider "show_operand opr = CHR ''['' # ?r @ '']''"
    | n where "show_operand opr = CHR ''['' # (?r @ '' + '' @ show_hex n) @ '']''"
    | n where "show_operand opr = CHR ''['' # (?r @ '' - '' @ show_hex n) @ '']''"
    unfolding opr show_operand_def
    by (cases "offset = 0"; cases "0 < sint offset") auto
  then show ?thesis
    using chars plus by cases (erule address, force simp: inner_text_def)+
next
  case False
  then have "ident (show_operand opr)"
    using assms by (cases opr) (auto simp: show_operand_def operand_ok_def label_operand_def ident_Cons)
  then show ?thesis by (rule name)
qed

lemma inner_text_chars:
  assumes "inner_text s"
  shows "CHR '','' \<notin> set s" "CHR ''['' \<notin> set s" "CHR '']'' \<notin> set s" "newline \<notin> set s" "CHR 0x0D \<notin> set s"
  using assms by (auto simp: inner_text_def ident_char_def is_space_def newline_def)

lemma show_operand_text:
  assumes "operand_ok opr"
  shows "tight (show_operand opr)" "newline \<notin> set (show_operand opr)" "CHR 0x0D \<notin> set (show_operand opr)"
proof -
  have "tight t \<and> newline \<notin> set t \<and> CHR 0x0D \<notin> set t"
    if "t = CHR ''['' # inner @ '']''" "inner_text inner" for t inner
    using that inner_text_chars(4,5)[of inner] by (simp add: tight_def is_space_def newline_def)
  then have "tight (show_operand opr) \<and> newline \<notin> set (show_operand opr) \<and> CHR 0x0D \<notin> set (show_operand opr)"
    using operand_shape[OF assms] ident_tight ident_chars(8,9) by metis
  then show "tight (show_operand opr)" "newline \<notin> set (show_operand opr)" "CHR 0x0D \<notin> set (show_operand opr)"
    by blast+
qed

text \<open>Scanning over text without a comma outside brackets only collects it.\<close>

lemma scan_flat:
  "CHR ''['' \<notin> set t \<Longrightarrow> CHR '']'' \<notin> set t \<Longrightarrow> CHR '','' \<notin> set t \<Longrightarrow>
   parse_operands_from d cur acc (t @ s) = parse_operands_from d (cur @ t) acc s"
  by (induction t arbitrary: cur) auto

lemma scan_operand:
  assumes "operand_ok opr"
  shows "parse_operands_from 0 cur acc (show_operand opr @ s) = parse_operands_from 0 (cur @ show_operand opr) acc s"
proof (cases rule: operand_shape[OF assms, case_names name address])
  case (address inner)
  then show ?thesis
    using scan_flat[of inner 1 "cur @ ''[''" acc "CHR '']'' # s"] inner_text_chars(1,2,3)[of inner] by simp
next
  case name
  then show ?thesis using ident_chars(2,4,5) by (intro scan_flat) auto
qed

lemma parse_operands_from_text:
  assumes "oprs \<noteq> []" "\<forall>opr \<in> set oprs. operand_ok opr" "cur = [] \<or> cur = '' ''"
  shows "parse_operands_from 0 cur acc (join '', '' (map show_operand oprs)) = Some (acc @ oprs)"
  using assms
proof (induction oprs arbitrary: cur acc rule: induct_list012)
  case (2 opr)
  then show ?case
    using scan_operand[of opr cur acc "[]"] parse_show_operand[of opr] show_operand_text(1)[of opr] by auto
next
  case (3 opr opr' oprs)
  have "trim (cur @ show_operand opr) = show_operand opr"
    using "3.prems" show_operand_text(1)[of opr] by auto
  then show ?case
    using "3.prems" "3.IH"(2)[of "'' ''" "acc @ [opr]"] parse_show_operand[of opr]
      scan_operand[of opr cur acc "'', '' @ join '', '' (map show_operand (opr' # oprs))"]
    by simp
qed simp

definition show_asm_syllable :: "asm_syllable \<Rightarrow> string" where
  "show_asm_syllable syl =
     (if syl_operands syl = [] then syl_opcode syl
      else syl_opcode syl @ '' '' @ join '', '' (map show_operand (syl_operands syl)))"

lemma operands_text_tight:
  assumes "syllable_ok syl" "syl_operands syl \<noteq> []"
  shows "tight (join '', '' (map show_operand (syl_operands syl)))"
  using assms show_operand_text(1) by (intro join_tight) (auto simp: syllable_ok_def)

lemma parse_show_syllable:
  assumes "syllable_ok syl"
  shows "parse_syllable (show_asm_syllable syl) = Some syl"
proof (cases "syl_operands syl = []")
  case True
  then show ?thesis
    using assms ident_chars(1)
    by (simp add: parse_syllable_def show_asm_syllable_def syllable_ok_def split_once_absent[of "CHR '' ''"])
next
  case False
  let ?t = "join '', '' (map show_operand (syl_operands syl))"
  have "split_once '' '' (syl_opcode syl @ '' '' @ ?t) = Some (syl_opcode syl, ?t)"
    using assms ident_chars(1) by (intro split_once_append) (auto simp: syllable_ok_def)
  moreover have "parse_operands ?t = Some (syl_operands syl)"
    using False assms parse_operands_from_text[of "syl_operands syl" "[]" "[]"]
    by (simp add: parse_operands_def syllable_ok_def)
  ultimately show ?thesis
    using False operands_text_tight[OF assms] by (auto simp: parse_syllable_def show_asm_syllable_def tight_def)
qed

section \<open>The text as lines\<close>

definition unit_line :: "unit_decl \<Rightarrow> string" where
  "unit_line u = ''    unit '' @ unit_name u @ '' = '' @ unit_kind_name u"

definition alias_line :: "slot_alias \<Rightarrow> string" where
  "alias_line a = ''    alias '' @ alias_name a @ '' = '' @ show_nat (alias_slot a)"

definition slot_decl_line :: "nat \<times> string list \<Rightarrow> string" where
  "slot_decl_line d = (case d of (i, us) \<Rightarrow> ''    '' @ show_nat i @ '' = { '' @ join '', '' us @ '' }'')"

definition memory_lines :: "processor \<Rightarrow> string list" where
  "memory_lines p =
     (if memory_size p \<noteq> DEFAULT_MEMORY_SIZE
      then ['''', ''  memory { size '' @ show_hex (unat (memory_size p)) @ '' }''] else [])"

definition header_lines :: "processor \<Rightarrow> string list" where
  "header_lines p =
     [''.processor {'', ''  width '' @ show_nat (unat (width p)), '''', ''  hardware {''] @
     map unit_line (proc_units p) @ [''  }'', '''', ''  layout slots {''] @
     map alias_line (slot_aliases p) @ [''''] @ map slot_decl_line (enumerate 0 (slot_units p)) @
     [''  }'', ''''] @ memory_lines p @
     [''  cache { }'', ''  topology { cpus '' @ show_nat (unat (cpus (topology p))) @ '' }'', ''}'']"

definition slot_line :: "string \<times> asm_syllable option \<Rightarrow> string" where
  "slot_line d = (case d of (name, content) \<Rightarrow>
     ''  '' @ name @ '': '' @ (case content of None \<Rightarrow> ''nop'' | Some syl \<Rightarrow> show_asm_syllable syl))"

definition bundle_lines :: "processor \<Rightarrow> asm_bundle \<Rightarrow> string list" where
  "bundle_lines p b =
     [''{''] @ map slot_line (zip (slot_display_names p) (map (slot_syllable b) [0..<width_of p])) @ [''}'']"

definition item_lines :: "processor \<Rightarrow> item \<Rightarrow> string list" where
  "item_lines p it =
     (case it of LabelItem name \<Rightarrow> [name @ '':''] | BundleItem b \<Rightarrow> bundle_lines p b)"

definition program_lines :: "program \<Rightarrow> string list" where
  "program_lines prog =
     header_lines (processor prog) @ [''''] @ concat (map (item_lines (processor prog)) (items prog))"

abbreviation "written ls \<equiv> concat (map writeln ls)"

lemma emit_header_lines: "emit_header p = written (header_lines p)"
proof -
  have "concat (map (\<lambda>u. writeln (''    unit '' @ unit_name u @ '' = '' @ unit_kind_name u)) us) =
      written (map unit_line us)" for us
    by (simp add: unit_line_def comp_def)
  moreover have "concat (map (\<lambda>a. writeln (''    alias '' @ alias_name a @ '' = '' @ show_nat (alias_slot a))) as) =
      written (map alias_line as)" for as
    by (simp add: alias_line_def comp_def)
  moreover have "concat (map (\<lambda>(i, us). writeln (''    '' @ show_nat i @ '' = { '' @ join '', '' us @ '' }'')) ds) =
      written (map slot_decl_line ds)" for ds
    by (simp add: slot_decl_line_def comp_def split_def)
  ultimately show ?thesis
    by (simp only: emit_header_def header_lines_def memory_lines_def) simp
qed

lemma length_slot_display_names [simp]: "length (slot_display_names p) = width_of p"
  by (simp add: slot_display_names_def Let_def)

lemma emit_slot_line: "emit_slot name content = writeln (slot_line (name, content))"
  by (auto simp: emit_slot_def slot_line_def show_asm_syllable_def writeln_def split: option.splits)

lemma emit_bundle_lines: "emit_bundle b p = written (bundle_lines p b)"
proof -
  have "map (\<lambda>slot. emit_slot (case get (slot_display_names p) slot of Some n \<Rightarrow> n | None \<Rightarrow> ''??'')
            (slot_syllable b slot)) [0..<width_of p] =
      map (writeln \<circ> slot_line) (zip (slot_display_names p) (map (slot_syllable b) [0..<width_of p]))"
    by (rule nth_equalityI) (simp_all add: emit_slot_line get_def)
  then show ?thesis by (simp only: emit_bundle_def bundle_lines_def Let_def) simp
qed

lemma emit_program_lines: "emit prog = written (program_lines prog)"
proof -
  have "emit_item p it = written (item_lines p it)" for p it
    by (simp add: emit_item_def item_lines_def emit_bundle_lines split: item.splits)
  then have "concat (map (emit_item p) its) = written (concat (map (item_lines p) its))" for p its
    by (induction its) simp_all
  then show ?thesis by (simp add: emit_def program_lines_def emit_header_lines writeln_def)
qed


section \<open>Reading lines back\<close>

definition rest_lines :: "parser \<Rightarrow> string list" where
  "rest_lines ps = drop (pos ps) (plines ps)"

definition reads :: "parse_error + 'a \<times> parser \<Rightarrow> 'a \<Rightarrow> string list \<Rightarrow> bool" where
  "reads r x ls \<longleftrightarrow> (\<exists>ps'. r = Inr (x, ps') \<and> rest_lines ps' = ls)"

lemma readsI: "r = Inr (x, ps') \<Longrightarrow> rest_lines ps' = ls \<Longrightarrow> reads r x ls"
  by (simp add: reads_def)

lemma reads_expect: "rest_lines ps = l # ls \<Longrightarrow> reads (expect_line ps) l ls"
proof -
  assume l: "rest_lines ps = l # ls"
  then have "pos ps < length (plines ps)" by (rule contrapos_pp) (simp add: rest_lines_def)
  then show ?thesis using l by (simp add: reads_def expect_line_Inr rest_lines_def Cons_nth_drop_Suc[symmetric])
qed

lemma rest_skip_blank: "rest_lines (skip_blank ps) = dropWhile (\<lambda>l. trim l = []) (rest_lines ps)"
proof (induction ps rule: skip_blank.induct)
  case (1 ps)
  show ?case
  proof (cases "pos ps < length (plines ps)")
    case True
    then have "rest_lines ps = plines ps ! pos ps # rest_lines (ps\<lparr>pos := pos ps + 1\<rparr>)"
      by (simp add: rest_lines_def Cons_nth_drop_Suc)
    then show ?thesis using 1 True by (subst skip_blank.simps) (simp add: peek_def get_def)
  next
    case False
    then show ?thesis by (subst skip_blank.simps) (simp add: peek_def get_def rest_lines_def)
  qed
qed

lemma reads_skip_expect:
  "dropWhile (\<lambda>l. trim l = []) (rest_lines ps) = l # ls \<Longrightarrow> reads (expect_line (skip_blank ps)) l ls"
  by (simp add: reads_expect rest_skip_blank)

lemma reads_and_then:
  "reads r x ls \<Longrightarrow> (\<And>ps'. rest_lines ps' = ls \<Longrightarrow> reads (f (x, ps')) y ls') \<Longrightarrow> reads (and_then r f) y ls'"
  by (auto simp: reads_def)

section \<open>The processor header\<close>

definition processor_ok :: "processor \<Rightarrow> bool" where
  "processor_ok p \<longleftrightarrow>
     (\<forall>u \<in> set (proc_units p). ident (unit_name u) \<and> ident (unit_kind_name u)) \<and>
     (\<forall>a \<in> set (slot_aliases p). ident (alias_name a) \<and> alias_name a \<noteq> ''??'' \<and> alias_slot a < 2 ^ 64) \<and>
     distinct (map alias_name (slot_aliases p)) \<and>
     (\<forall>us \<in> set (slot_units p). \<forall>u \<in> set us. ident u) \<and> length (slot_units p) \<le> 2 ^ 64 \<and>
     unat (memory_size p) < 2 ^ 63"

lemma not_space [simp]:
  "\<not> is_space (CHR ''u'')" "\<not> is_space (CHR ''a'')" "\<not> is_space (CHR ''w'')" "\<not> is_space (CHR ''h'')"
  "\<not> is_space (CHR ''l'')" "\<not> is_space (CHR ''c'')" "\<not> is_space (CHR ''t'')" "\<not> is_space (CHR ''m'')"
  "\<not> is_space (CHR ''{'')" "\<not> is_space (CHR ''}'')" "\<not> is_space (CHR ''.'')" "\<not> is_space (CHR '':'')"
  by (simp_all add: is_space_def)

lemma parse_unit_text:
  assumes "ident (unit_name u)" "ident (unit_kind_name u)"
  shows "parse_unit ps (trim (unit_line u)) = Inr u" "trim (unit_line u) \<noteq> ''}''" "trim (unit_line u) \<noteq> []"
proof -
  have line: "trim (unit_line u) = ''unit '' @ unit_name u @ '' = '' @ unit_kind_name u"
    using assms by (simp add: unit_line_def tight_def ident_def)
      (simp add: trim_tight tight_def is_space_def ident_def ident_char_def)
  have "split_once '' = '' (unit_name u @ '' = '' @ unit_kind_name u) = Some (unit_name u, unit_kind_name u)"
    using assms ident_chars(1) by (intro split_once_append) auto
  then show "parse_unit ps (trim (unit_line u)) = Inr u" "trim (unit_line u) \<noteq> ''}''" "trim (unit_line u) \<noteq> []"
    unfolding line using assms by (simp_all add: parse_unit_def)
qed

lemma reads_hardware_loop:
  assumes "rest_lines ps = map unit_line us @ ''  }'' # ls"
    and "\<forall>u \<in> set us. ident (unit_name u) \<and> ident (unit_kind_name u)"
  shows "reads (parse_hardware_loop ps acc) (acc @ us) ls"
  using assms
proof (induction us arbitrary: ps acc)
  case Nil
  then show ?case
    by (subst parse_hardware_loop.simps)
      (auto intro!: reads_and_then[OF reads_skip_expect] simp: tight_def intro: readsI)
next
  case (Cons u us)
  then show ?case
    using parse_unit_text[of u] Cons.IH[of _ "acc @ [u]"]
    by (subst parse_hardware_loop.simps) (auto intro!: reads_and_then[OF reads_skip_expect])
qed

lemma parse_alias_text:
  assumes "ident (alias_name a)" "alias_slot a < 2 ^ 64"
  shows "\<exists>rest. strip_prefix ''alias '' (trim (alias_line a)) = Some rest \<and>
      (\<forall>ps. parse_alias ps (trim (alias_line a)) rest = Inr a)"
    and "trim (alias_line a) \<noteq> ''}''" "trim (alias_line a) \<noteq> []"
proof -
  let ?rest = "alias_name a @ '' = '' @ show_nat (alias_slot a)"
  have line: "trim (alias_line a) = ''alias '' @ ?rest"
    using ident_tight[OF ident_show_nat, of "alias_slot a"]
    by (simp add: alias_line_def tight_def)
  have "split_once '' = '' ?rest = Some (alias_name a, show_nat (alias_slot a))"
    using assms ident_chars(1) by (intro split_once_append) auto
  then have "\<forall>ps. parse_alias ps (trim (alias_line a)) ?rest = Inr a"
    using assms by (simp add: parse_alias_def parse_usize_show)
  moreover have "strip_prefix ''alias '' (trim (alias_line a)) = Some ?rest" unfolding line by simp
  ultimately show "\<exists>rest. strip_prefix ''alias '' (trim (alias_line a)) = Some rest \<and>
      (\<forall>ps. parse_alias ps (trim (alias_line a)) rest = Inr a)"
    by blast
  show "trim (alias_line a) \<noteq> ''}''" "trim (alias_line a) \<noteq> []" unfolding line by simp_all
qed

lemma braced_inner:
  assumes "\<forall>u \<in> set us. ident u"
  shows "trim (trim_end_matches ((=) (CHR ''}'')) (trim_start_matches ((=) (CHR ''{'')) (''{ '' @ join '', '' us @ '' }''))) =
    join '', '' us"
proof -
  have "trim_start_matches ((=) (CHR ''{'')) (''{ '' @ join '', '' us @ '' }'') = ('' '' @ join '', '' us @ '' '') @ ''}''"
    by (simp add: trim_start_matches_def)
  moreover have "trim_end_matches ((=) (CHR ''}'')) (('' '' @ join '', '' us @ '' '') @ ''}'') = '' '' @ join '', '' us @ '' ''"
    by (subst trim_end_append_spaces) (auto intro: trim_end_tight)
  moreover have "trim ('' '' @ join '', '' us @ '' '') = join '', '' us"
  proof (cases "us = []")
    case False
    then show ?thesis using assms join_tight[of us "'', ''"] by (simp add: trim_append_spaces)
  qed simp
  ultimately show ?thesis by simp
qed

lemma hd_show_nat: "hd (show_nat n) \<in> set ''0123456789''"
  using show_nat_chars[of n] by (rule subsetD) (rule hd_in_set, simp)

lemma parse_slot_decl_text:
  assumes "i < 2 ^ 64" "\<forall>u \<in> set us. ident u"
  shows "strip_prefix ''alias '' (trim (slot_decl_line (i, us))) = None"
    and "parse_slot_decl ps (trim (slot_decl_line (i, us))) = Inr (i, us)"
    and "trim (slot_decl_line (i, us)) \<noteq> ''}''" "trim (slot_decl_line (i, us)) \<noteq> []"
proof -
  obtain c cs where c: "show_nat i = c # cs" "c \<in> set ''0123456789''"
    using hd_show_nat[of i] by (cases "show_nat i") auto
  let ?rest = "''{ '' @ join '', '' us @ '' }''"
  have tight_rest: "tight ?rest" by (simp add: tight_def)
  have "tight (show_nat i @ '' = '' @ ?rest)"
    using ident_tight[OF ident_show_nat, of i] by (simp add: tight_def)
  then have line: "trim (slot_decl_line (i, us)) = show_nat i @ '' = '' @ ?rest"
    by (simp add: slot_decl_line_def)
  show "strip_prefix ''alias '' (trim (slot_decl_line (i, us))) = None"
    "trim (slot_decl_line (i, us)) \<noteq> ''}''" "trim (slot_decl_line (i, us)) \<noteq> []"
    unfolding line c(1) using c(2) by auto
  have "split_once '' = '' (show_nat i @ '' = '' @ ?rest) = Some (show_nat i, ?rest)"
    using ident_chars(1)[OF ident_show_nat] by (intro split_once_append) auto
  moreover have "(if join '', '' us = [] then [] else map trim (split_char (CHR '','') (join '', '' us))) = us"
  proof (cases "us = []")
    case False
    moreover have "\<forall>u \<in> set us. tight u \<and> CHR '','' \<notin> set u" using assms(2) ident_chars(2) by auto
    ultimately show ?thesis
      using trim_split_join[of us] join_tight[of us "'', ''"] by (simp add: tight_def)
  qed simp
  ultimately show "parse_slot_decl ps (trim (slot_decl_line (i, us))) = Inr (i, us)"
    unfolding line using assms braced_inner[OF assms(2)] tight_rest
    by (auto simp: parse_slot_decl_def parse_usize_show Let_def simp del: append.simps append_Cons split: if_splits)
qed

lemma reads_slot_decls:
  assumes "dropWhile (\<lambda>l. trim l = []) (rest_lines ps) =
      dropWhile (\<lambda>l. trim l = []) (map slot_decl_line (enumerate n uss) @ ''  }'' # ls)"
    and "n + length uss \<le> 2 ^ 64" "\<forall>us \<in> set uss. \<forall>u \<in> set us. ident u"
  shows "reads (parse_layout_loop ps aliases acc) (aliases, acc @ enumerate n uss) ls"
  using assms
proof (induction uss arbitrary: ps n acc)
  case Nil
  then show ?case
    by (subst parse_layout_loop.simps)
      (auto intro!: reads_and_then[OF reads_skip_expect] simp: tight_def intro: readsI)
next
  case (Cons us uss)
  then show ?case
    using parse_slot_decl_text[of n us] Cons.IH[of _ "Suc n" "acc @ [(n, us)]"]
    by (subst parse_layout_loop.simps) (auto intro!: reads_and_then[OF reads_skip_expect])
qed

lemma reads_layout_loop:
  assumes "rest_lines ps = map alias_line as @ '''' # map slot_decl_line (enumerate 0 uss) @ ''  }'' # ls"
    and "\<forall>a \<in> set as. ident (alias_name a) \<and> alias_slot a < 2 ^ 64"
    and "length uss \<le> 2 ^ 64" "\<forall>us \<in> set uss. \<forall>u \<in> set us. ident u"
  shows "reads (parse_layout_loop ps aliases []) (aliases @ as, enumerate 0 uss) ls"
  using assms(1,2)
proof (induction as arbitrary: ps aliases)
  case Nil
  then show ?case using reads_slot_decls[of ps 0 uss ls aliases "[]"] assms(3,4) by simp
next
  case (Cons a as)
  obtain rest where rest: "strip_prefix ''alias '' (trim (alias_line a)) = Some rest"
      "\<forall>ps. parse_alias ps (trim (alias_line a)) rest = Inr a"
    using parse_alias_text(1)[of a] Cons.prems by auto
  then show ?case
    using Cons.prems parse_alias_text(2,3)[of a] Cons.IH[of _ "aliases @ [a]"]
    by (subst parse_layout_loop.simps) (auto intro!: reads_and_then[OF reads_skip_expect])
qed

lemma fold_place:
  "n + length xs \<le> length r \<Longrightarrow>
   fold (\<lambda>(i, us) result. result[i := us]) (enumerate n xs) r = take n r @ xs @ drop (n + length xs) r"
proof (induction xs arbitrary: n r)
  case (Cons x xs)
  have "take (Suc n) (r[n := x]) = take n r @ [x]"
    using Cons.prems by (simp add: take_Suc_conv_app_nth)
  then show ?case using Cons by simp
qed simp

lemma place_slots_enumerate: "place_slots (enumerate 0 xs) = xs"
proof (cases "xs = []")
  case False
  have "sorted (map fst (enumerate 0 xs))" by (simp add: enumerate_eq_zip)
  then have "sort_key fst (enumerate 0 xs) = enumerate 0 xs" by (simp add: sort_key_id_if_sorted)
  moreover have "Max (set (map fst (enumerate 0 xs))) + 1 = length xs"
  proof -
    have "set (map fst (enumerate 0 xs)) = {0..<length xs}" by (simp add: enumerate_eq_zip)
    moreover have "Max {0..<length xs} = length xs - 1" using False by (intro Max_eqI) auto
    ultimately show ?thesis using False by simp
  qed
  moreover have "enumerate 0 xs \<noteq> []" using False by (cases xs) simp_all
  ultimately show ?thesis
    using fold_place[of 0 xs "replicate (length xs) []"] by (simp add: place_slots_def Let_def)
qed (simp add: place_slots_def)

lemma reads_processor_step:
  assumes "dropWhile (\<lambda>l. trim l = []) (rest_lines ps) = l # ls" "trim l = t" "t \<noteq> ''}''"
    and "\<And>ps'. rest_lines ps' = ls \<Longrightarrow> reads (parse_processor_line ps' t p) p' ls'"
    and "\<And>ps'. rest_lines ps' = ls' \<Longrightarrow> reads (parse_processor_loop ps' p') q ls''"
  shows "reads (parse_processor_loop ps p) q ls''"
proof -
  have "reads (and_then (parse_processor_line ps' t p) (\<lambda>(p', ps''). parse_processor_loop ps'' p')) q ls''"
    if "rest_lines ps' = ls" for ps'
    using assms(5) by (intro reads_and_then[OF assms(4)[OF that]]) auto
  then show ?thesis
    using assms(2,3) by (subst parse_processor_loop.simps) (auto intro!: reads_and_then[OF reads_skip_expect[OF assms(1)]])
qed

lemma width_line:
  "trim (''  width '' @ show_nat n) = ''width '' @ show_nat n"
  "parse_processor_line ps (''width '' @ show_nat (unat w)) p = Inr (p\<lparr>width := w\<rparr>, ps)"
  using ident_tight[OF ident_show_nat, of n]
  by (simp add: tight_def) (simp add: parse_processor_line_def)

lemma inline_inner:
  assumes "tight t"
  shows "trim (trim_end_matches ((=) (CHR ''}'')) (CHR '' '' # t @ '' }'')) = t"
proof -
  have "trim_end_matches ((=) (CHR ''}'')) ((CHR '' '' # t @ '' '') @ ''}'') = CHR '' '' # t @ '' ''"
    by (subst trim_end_append_spaces) (auto intro: trim_end_tight)
  then show ?thesis using trim_append_spaces[of "'' ''" t] assms by simp
qed

lemma topology_line:
  "trim (''  topology { cpus '' @ show_nat n @ '' }'') = ''topology { cpus '' @ show_nat n @ '' }''"
  "parse_processor_line ps (''topology { cpus '' @ show_nat (unat w) @ '' }'') p = Inr (p\<lparr>topology := \<lparr>cpus = w\<rparr>\<rparr>, ps)"
proof -
  show "trim (''  topology { cpus '' @ show_nat n @ '' }'') = ''topology { cpus '' @ show_nat n @ '' }''"
    by (simp add: tight_def)
  have "tight (''cpus '' @ show_nat (unat w))"
    using ident_tight[OF ident_show_nat, of "unat w"] by (simp add: tight_def)
  moreover have "trim ('' { cpus '' @ show_nat (unat w) @ '' }'') = ''{ cpus '' @ show_nat (unat w) @ '' }''"
    by (simp add: tight_def)
  ultimately have "parse_topology_inline (''topology { cpus '' @ show_nat (unat w) @ '' }'') = Some \<lparr>cpus = w\<rparr>"
    using inline_inner[of "''cpus '' @ show_nat (unat w)"] by (simp add: parse_topology_inline_def)
  then show "parse_processor_line ps (''topology { cpus '' @ show_nat (unat w) @ '' }'') p = Inr (p\<lparr>topology := \<lparr>cpus = w\<rparr>\<rparr>, ps)"
    by (simp add: parse_processor_line_def starts_with_def)
qed

lemma memory_line:
  assumes "unat m < 2 ^ 63"
  shows "trim (''  memory { size '' @ show_hex n @ '' }'') = ''memory { size '' @ show_hex n @ '' }''"
    and "parse_processor_line ps (''memory { size '' @ show_hex (unat m) @ '' }'') p = Inr (p\<lparr>memory_size := m\<rparr>, ps)"
proof -
  show "trim (''  memory { size '' @ show_hex n @ '' }'') = ''memory { size '' @ show_hex n @ '' }''"
    by (simp add: tight_def)
  have "tight (''size '' @ show_hex (unat m))"
    using ident_tight[OF ident_show_hex, of "unat m"] by (simp add: tight_def is_space_def)
  moreover have "trim ('' { size '' @ show_hex (unat m) @ '' }'') = ''{ size '' @ show_hex (unat m) @ '' }''"
    by (simp add: tight_def)
  ultimately have "parse_memory_inline (''memory { size '' @ show_hex (unat m) @ '' }'') = Some m"
    using inline_inner[of "''size '' @ show_hex (unat m)"] parse_hex_text[OF assms]
    by (simp add: parse_memory_inline_def)
  then show "parse_processor_line ps (''memory { size '' @ show_hex (unat m) @ '' }'') p = Inr (p\<lparr>memory_size := m\<rparr>, ps)"
    by (simp add: parse_processor_line_def starts_with_def)
qed

lemma reads_hardware_line:
  assumes "processor_ok q" "rest_lines ps = map unit_line (proc_units q) @ ''  }'' # ls"
  shows "reads (parse_processor_line ps ''hardware {'' p) (p\<lparr>proc_units := proc_units q\<rparr>) ls"
  using reads_hardware_loop[OF assms(2), of "[]"] assms(1)
  by (auto simp: processor_ok_def parse_processor_line_def parse_hardware_def reads_def)

lemma reads_layout_line:
  assumes "processor_ok q"
    and "rest_lines ps = map alias_line (slot_aliases q) @ '''' # map slot_decl_line (enumerate 0 (slot_units q)) @ ''  }'' # ls"
  shows "reads (parse_processor_line ps ''layout slots {'' p)
    (p\<lparr>slot_aliases := slot_aliases q, slot_units := slot_units q\<rparr>) ls"
  using reads_layout_loop[OF assms(2), of "[]"] assms(1)
  by (auto simp: processor_ok_def parse_processor_line_def parse_layout_def reads_def place_slots_enumerate)

lemma trim_fixed [simp]:
  "trim ''hardware {'' = ''hardware {''" "trim ''layout slots {'' = ''layout slots {''"
  "trim ''cache { }'' = ''cache { }''" "trim ''}'' = ''}''" "trim ''{'' = ''{''" "trim ''.processor {'' = ''.processor {''"
  by (simp_all add: tight_def)

lemma reads_processor_tail:
  assumes "dropWhile (\<lambda>l. trim l = []) (rest_lines ps) =
      [''  cache { }'', ''  topology { cpus '' @ show_nat (unat w) @ '' }'', ''}''] @ ls"
  shows "reads (parse_processor_loop ps p) (p\<lparr>topology := \<lparr>cpus = w\<rparr>\<rparr>) ls"
proof -
  have close: "reads (parse_processor_loop ps p) p ls" if "rest_lines ps = ''}'' # ls" for ps p
    using that by (subst parse_processor_loop.simps) (auto intro!: reads_and_then[OF reads_skip_expect] intro: readsI)
  have topo: "reads (parse_processor_loop ps p) (p\<lparr>topology := \<lparr>cpus = w\<rparr>\<rparr>) ls"
    if "rest_lines ps = (''  topology { cpus '' @ show_nat (unat w) @ '' }'') # ''}'' # ls" for ps p
    by (rule reads_processor_step[OF _ topology_line(1) _ readsI[OF topology_line(2)] close])
      (use that topology_line(1)[of "unat w"] in simp_all)
  show ?thesis
    by (rule reads_processor_step[of ps "''  cache { }''" _ "''cache { }''" _ p, OF _ _ _ readsI topo])
      (use assms in \<open>simp_all add: parse_processor_line_def starts_with_def\<close>)
qed

lemma reads_processor:
  assumes "processor_ok q" "rest_lines ps = header_lines q @ ls"
  shows "reads (parse_processor ps) q ls"
proof -
  let ?tail = "[''  cache { }'', ''  topology { cpus '' @ show_nat (unat (cpus (topology q))) @ '' }'', ''}''] @ ls"
  let ?p1 = "initial_processor\<lparr>width := width q\<rparr>"
  let ?p2 = "?p1\<lparr>proc_units := proc_units q\<rparr>"
  let ?p3 = "?p2\<lparr>slot_aliases := slot_aliases q, slot_units := slot_units q\<rparr>"
  have m: "unat (memory_size q) < 2 ^ 63" using assms(1) by (simp add: processor_ok_def)
  have q: "?p3\<lparr>memory_size := memory_size q, topology := \<lparr>cpus = cpus (topology q)\<rparr>\<rparr> = q"
    by (simp add: initial_processor_def)
  let ?memory = "''  memory { size '' @ show_hex (unat (memory_size q)) @ '' }''"
  have tail: "reads (parse_processor_loop ps ?p3) q ls" if "rest_lines ps = '''' # memory_lines q @ ?tail" for ps
  proof (cases "memory_size q = DEFAULT_MEMORY_SIZE")
    case True
    then have "?p3\<lparr>topology := \<lparr>cpus = cpus (topology q)\<rparr>\<rparr> = q" by (simp add: initial_processor_def)
    then show ?thesis
      using reads_processor_tail[of ps "cpus (topology q)" ls ?p3] that True by (simp add: memory_lines_def)
  next
    case False
    have "reads (parse_processor_loop ps' (?p3\<lparr>memory_size := memory_size q\<rparr>)) q ls" if "rest_lines ps' = ?tail" for ps'
      using reads_processor_tail[of ps' "cpus (topology q)" ls "?p3\<lparr>memory_size := memory_size q\<rparr>", unfolded q] that
      by simp
    note step = reads_processor_step[of ps ?memory ?tail, OF _ memory_line(1)[OF m] _ readsI[OF memory_line(2)[OF m]] this]
    show ?thesis
      by (rule step) (use that False memory_line(1)[OF m, of "unat (memory_size q)"] in \<open>auto simp: memory_lines_def\<close>)
  qed
  have layout: "reads (parse_processor_loop ps ?p2) q ls"
    if "rest_lines ps = '''' # ''  layout slots {'' # map alias_line (slot_aliases q) @ '''' #
        map slot_decl_line (enumerate 0 (slot_units q)) @ ''  }'' # '''' # memory_lines q @ ?tail" for ps
    by (rule reads_processor_step[OF _ _ _ reads_layout_line[OF assms(1)] tail]) (use that in auto)
  have hardware: "reads (parse_processor_loop ps ?p1) q ls"
    if "rest_lines ps = '''' # ''  hardware {'' # map unit_line (proc_units q) @ ''  }'' # '''' # ''  layout slots {'' #
        map alias_line (slot_aliases q) @ '''' #
        map slot_decl_line (enumerate 0 (slot_units q)) @ ''  }'' # '''' # memory_lines q @ ?tail" for ps
    by (rule reads_processor_step[OF _ _ _ reads_hardware_line[OF assms(1)] layout]) (use that in auto)
  have "reads (parse_processor_loop ps initial_processor) q ls"
    if "''.processor {'' # rest_lines ps = header_lines q @ ls" for ps
    by (rule reads_processor_step[OF _ width_line(1) _ readsI[OF width_line(2)] hardware])
      (use that width_line(1) in \<open>auto simp: header_lines_def\<close>)
  moreover have "\<exists>ls'. header_lines q @ ls = ''.processor {'' # ls'" by (simp add: header_lines_def)
  ultimately show ?thesis
    using assms(2) by (auto simp: parse_processor_def intro!: reads_and_then[OF reads_expect])
qed

section \<open>Bundles, items and programs\<close>

definition normal_slot :: "asm_syllable option \<Rightarrow> asm_syllable option" where
  "normal_slot content =
     (case content of Some syl \<Rightarrow> if syl = new_syllable ''nop'' [] then None else Some syl | None \<Rightarrow> None)"

definition normal_bundle :: "processor \<Rightarrow> asm_bundle \<Rightarrow> asm_bundle" where
  "normal_bundle p b = \<lparr>slots = map (\<lambda>i. normal_slot (slot_syllable b i)) [0..<width_of p]\<rparr>"

definition normal_item :: "processor \<Rightarrow> item \<Rightarrow> item" where
  "normal_item p it = (case it of LabelItem l \<Rightarrow> LabelItem l | BundleItem b \<Rightarrow> BundleItem (normal_bundle p b))"

definition normal_program :: "program \<Rightarrow> program" where
  "normal_program prog = prog\<lparr>items := map (normal_item (processor prog)) (items prog)\<rparr>"

definition content_ok :: "asm_syllable option \<Rightarrow> bool" where
  "content_ok content = (case content of Some syl \<Rightarrow> syllable_ok syl | None \<Rightarrow> True)"

definition item_ok :: "item \<Rightarrow> bool" where
  "item_ok it = (case it of LabelItem l \<Rightarrow> ident l | BundleItem b \<Rightarrow> (\<forall>content \<in> set (slots b). content_ok content))"

definition program_ok :: "program \<Rightarrow> bool" where
  "program_ok prog \<longleftrightarrow> processor_ok (processor prog) \<and> (\<forall>it \<in> set (items prog). item_ok it)"

definition slot_text :: "asm_syllable option \<Rightarrow> string" where
  "slot_text content = (case content of None \<Rightarrow> ''nop'' | Some syl \<Rightarrow> show_asm_syllable syl)"

lemma tight_nop [simp]: "tight ''nop''"
  by (simp add: tight_def is_space_def)

lemma tight_append: "tight s \<Longrightarrow> tight t \<Longrightarrow> tight (s @ u @ t)"
  by (auto simp: tight_def)

lemma show_asm_syllable_tight: "syllable_ok syl \<Longrightarrow> tight (show_asm_syllable syl)"
  using operands_text_tight[of syl] tight_append[of "syl_opcode syl" _ "'' ''"]
  by (auto simp: show_asm_syllable_def syllable_ok_def)

lemma slot_text_tight: "content_ok content \<Longrightarrow> tight (slot_text content)"
  by (auto simp: content_ok_def slot_text_def show_asm_syllable_tight split: option.splits)

lemma show_asm_syllable_nop:
  assumes "syllable_ok syl"
  shows "show_asm_syllable syl = ''nop'' \<longleftrightarrow> syl = new_syllable ''nop'' []"
proof
  assume nop: "show_asm_syllable syl = ''nop''"
  then have "CHR '' '' \<notin> set (show_asm_syllable syl)" by simp
  then have "syl_operands syl = []" by (auto simp: show_asm_syllable_def split: if_splits)
  then show "syl = new_syllable ''nop'' []" using nop by (simp add: show_asm_syllable_def new_syllable_def)
qed (simp add: show_asm_syllable_def)

lemma slot_name_cases:
  assumes "processor_ok p" "i < width_of p"
  obtains nm n where "slot_display_names p ! i = pad_right n nm" "tight nm" "CHR '':'' \<notin> set nm" "newline \<notin> set nm" "CHR 0x0D \<notin> set nm"
    "(case find (\<lambda>a. alias_name a = nm) (slot_aliases p) of Some a \<Rightarrow> alias_slot a | None \<Rightarrow> i) = i"
proof (cases "find (\<lambda>a. alias_slot a = i) (slot_aliases p)")
  case None
  have "find (\<lambda>a. alias_name a = ''??'') (slot_aliases p) = None"
    using assms(1) by (auto simp: processor_ok_def find_None_iff)
  then show ?thesis
    using that[of _ "''??''"] None assms(2)
    by (auto simp: slot_display_names_def Let_def tight_def is_space_def newline_def)
next
  case (Some a)
  then have a: "a \<in> set (slot_aliases p)" "alias_slot a = i" using find_SomeD by fastforce+
  then have name: "ident (alias_name a)" using assms(1) by (simp add: processor_ok_def)
  have "alias_slot b = i" if "find (\<lambda>b. alias_name b = alias_name a) (slot_aliases p) = Some b" for b
  proof -
    have "b \<in> set (slot_aliases p)" "alias_name b = alias_name a" using find_SomeD[OF that] by auto
    then have "b = a" using assms(1) a(1) by (auto simp: processor_ok_def distinct_map inj_on_def)
    then show ?thesis using a(2) by simp
  qed
  then show ?thesis
    using that[of _ "alias_name a"] Some assms(2) name ident_chars(3,8,9)[OF name]
    by (auto simp: slot_display_names_def Let_def split: option.splits)
qed

lemma parse_slot_line:
  assumes "processor_ok p" "i < width_of p" "content_ok content"
  shows "parse_slot ps p i (trim (slot_line (slot_display_names p ! i, content))) = Inr (i, normal_slot content)"
    and "trim (slot_line (slot_display_names p ! i, content)) \<noteq> ''}''"
proof -
  obtain nm n where nm: "slot_display_names p ! i = pad_right n nm" "tight nm" "CHR '':'' \<notin> set nm"
      "(case find (\<lambda>a. alias_name a = nm) (slot_aliases p) of Some a \<Rightarrow> alias_slot a | None \<Rightarrow> i) = i"
    using slot_name_cases[OF assms(1,2)] by metis
  let ?b = "replicate (n - length nm) (CHR '' '')"
  have "tight (nm @ (?b @ '': '') @ slot_text content)"
    using nm(2) slot_text_tight[OF assms(3)] by (rule tight_append)
  then have line: "trim (slot_line (slot_display_names p ! i, content)) = (nm @ ?b) @ '':'' @ ('' '' @ slot_text content)"
    unfolding nm(1) slot_line_def slot_text_def[symmetric] by (simp add: pad_right_def slot_text_def)
  have split: "split_once '':'' ((nm @ ?b) @ '':'' @ ('' '' @ slot_text content)) = Some (nm @ ?b, '' '' @ slot_text content)"
    using nm(3) by (intro split_once_append) auto
  have name: "trim (nm @ ?b) = nm" using nm(2) by (intro trim_append_spaces) auto
  have body: "if slot_text content = ''nop'' then normal_slot content = None
      else parse_syllable (slot_text content) = normal_slot content \<and> normal_slot content \<noteq> None"
    using assms(3) show_asm_syllable_nop parse_show_syllable
    by (auto simp: slot_text_def normal_slot_def content_ok_def split: option.splits)
  show "parse_slot ps p i (trim (slot_line (slot_display_names p ! i, content))) = Inr (i, normal_slot content)"
    unfolding line parse_slot_def split using name nm(4) slot_text_tight[OF assms(3)] body
    by (auto simp: Let_def split: if_splits)
  show "trim (slot_line (slot_display_names p ! i, content)) \<noteq> ''}''"
    unfolding line by (cases "nm @ ?b"; cases "slot_text content") auto
qed

lemma reads_bundle_loop:
  assumes "processor_ok p" "rest_lines ps = map slot_line (drop i (zip (slot_display_names p) contents)) @ ''}'' # ls"
    and "length contents = width_of p" "\<forall>content \<in> set contents. content_ok content" "i \<le> width_of p"
  shows "reads (parse_bundle_loop ps p (take i (map normal_slot contents) @ replicate (width_of p - i) None) i)
    (map normal_slot contents) ls"
  using assms(2,5)
proof (induction "width_of p - i" arbitrary: ps i)
  case 0
  then show ?case
    using assms(3) by (subst parse_bundle_loop.simps) (auto intro!: reads_and_then[OF reads_expect] intro: readsI)
next
  case (Suc k)
  then have i: "i < width_of p" by simp
  let ?line = "slot_line (slot_display_names p ! i, contents ! i)"
  let ?ss = "take i (map normal_slot contents) @ replicate (width_of p - i) None"
  have lines: "rest_lines ps = ?line # map slot_line (drop (Suc i) (zip (slot_display_names p) contents)) @ ''}'' # ls"
    using Suc.prems(1) i assms(3) by (simp add: Cons_nth_drop_Suc[symmetric])
  have ok: "content_ok (contents ! i)" using assms(3,4) i by simp
  have upd: "?ss[i := normal_slot (contents ! i)] = take (Suc i) (map normal_slot contents) @ replicate (width_of p - Suc i) None"
    using i assms(3) by (simp add: list_update_append take_Suc_conv_app_nth Suc_diff_Suc[symmetric])
  have len: "i < length ?ss" using i assms(3) by simp
  show ?case
    using parse_slot_line[OF assms(1) i ok] upd len Suc.hyps(1)[of "Suc i"] Suc.hyps(2) i
    by (subst parse_bundle_loop.simps) (auto intro!: reads_and_then[OF reads_expect[OF lines]] simp del: take_map)
qed

lemma set_slot_syllable: "slot_syllable b i = Some syl \<Longrightarrow> Some syl \<in> set (slots b)"
  by (auto simp: slot_syllable_Some in_set_conv_nth)

lemma reads_bundle:
  assumes "processor_ok p" "item_ok (BundleItem b)" "rest_lines ps = bundle_lines p b @ ls"
  shows "reads (parse_bundle ps p) (normal_bundle p b) ls"
proof -
  let ?contents = "map (slot_syllable b) [0..<width_of p]"
  have ok: "\<forall>content \<in> set ?contents. content_ok content"
    using assms(2) set_slot_syllable by (fastforce simp: item_ok_def content_ok_def split: option.splits)
  have "reads (parse_bundle_loop ps' p (replicate (width_of p) None) 0) (map normal_slot ?contents) ls"
    if "rest_lines ps' = map slot_line (zip (slot_display_names p) ?contents) @ ''}'' # ls" for ps'
    using reads_bundle_loop[OF assms(1) _ _ ok, of ps' 0 ls] that by simp
  then have "reads (and_then (parse_bundle_loop ps' p (replicate (width_of p) None) 0)
      (\<lambda>(ss, ps''). Inr (\<lparr>slots = ss\<rparr>, ps''))) (normal_bundle p b) ls"
    if "rest_lines ps' = map slot_line (zip (slot_display_names p) ?contents) @ ''}'' # ls" for ps'
    using that by (fastforce simp: reads_def normal_bundle_def comp_def)
  moreover have "rest_lines ps = ''{'' # map slot_line (zip (slot_display_names p) ?contents) @ ''}'' # ls"
    using assms(3) by (simp add: bundle_lines_def)
  ultimately show ?thesis
    unfolding parse_bundle_def by (auto intro!: reads_and_then[OF reads_expect])
qed

lemma peek_rest: "peek ps = first (rest_lines ps)"
  by (simp add: peek_def rest_lines_def first_def get_def)

lemma rest_advance: "rest_lines (ps\<lparr>pos := Suc (pos ps)\<rparr>) = tl (rest_lines ps)"
  by (simp add: rest_lines_def tl_drop drop_Suc)

lemma label_line:
  assumes "ident l"
  shows "trim (l @ '':'') = l @ '':''" "l @ '':'' \<noteq> ''{''" "strip_suffix '':'' (l @ '':'') = Some l"
proof -
  have "tight (l @ '':'')" using ident_tight[OF assms] by (simp add: tight_def)
  then show "trim (l @ '':'') = l @ '':''" by (rule trim_tight)
  show "l @ '':'' \<noteq> ''{''" by (cases l) auto
  show "strip_suffix '':'' (l @ '':'') = Some l" by (rule strip_suffix_append)
qed

lemma first_item_line:
  "\<forall>it \<in> set its. item_ok it \<Longrightarrow>
   dropWhile (\<lambda>l. trim l = []) (concat (map (item_lines p) its)) = concat (map (item_lines p) its)"
  using label_line(1) by (cases its) (auto simp: item_lines_def bundle_lines_def item_ok_def split: item.splits)

lemma reads_items:
  assumes "processor_ok p" "dropWhile (\<lambda>l. trim l = []) (rest_lines ps) = concat (map (item_lines p) its)"
    and "\<forall>it \<in> set its. item_ok it"
  shows "reads (parse_items_loop ps p acc) (acc @ map (normal_item p) its) []"
  using assms(2,3)
proof (induction its arbitrary: ps acc)
  case Nil
  have "rest_lines (skip_blank ps) = []" unfolding rest_skip_blank Nil(1) by simp
  then show ?case by (subst parse_items_loop.simps) (simp add: Let_def readsI peek_rest)
next
  case (Cons it its)
  let ?rest = "concat (map (item_lines p) its)"
  have IH: "reads (parse_items_loop ps' p (acc @ [normal_item p it])) (acc @ map (normal_item p) (it # its)) []"
    if "rest_lines ps' = ?rest" for ps'
    using Cons.IH[of ps' "acc @ [normal_item p it]"] first_item_line[of its p] that Cons.prems(2) by simp
  have lines: "rest_lines (skip_blank ps) = item_lines p it @ ?rest"
    using Cons.prems(1) by (simp add: rest_skip_blank)
  show ?case
  proof (cases it)
    case (LabelItem l)
    then have l: "ident l" using Cons.prems(2) by (simp add: item_ok_def)
    have peek: "peek (skip_blank ps) = Some (l @ '':'')"
      using lines LabelItem by (simp add: peek_rest item_lines_def)
    have "rest_lines (skip_blank ps\<lparr>pos := pos (skip_blank ps) + 1\<rparr>) = ?rest"
      using lines LabelItem by (simp add: rest_advance item_lines_def)
    then show ?thesis
      using IH[of "skip_blank ps\<lparr>pos := pos (skip_blank ps) + 1\<rparr>"] label_line[OF l] LabelItem
      by (subst parse_items_loop.simps) (simp add: Let_def peek normal_item_def)
  next
    case (BundleItem b)
    have "peek (skip_blank ps) = Some ''{''"
      using lines BundleItem by (simp add: peek_rest item_lines_def bundle_lines_def)
    moreover have "reads (parse_bundle (skip_blank ps) p) (normal_bundle p b) ?rest"
      using reads_bundle[OF assms(1)] lines Cons.prems(2) BundleItem by (simp add: item_lines_def)
    ultimately show ?thesis
      using IH BundleItem
      by (subst parse_items_loop.simps) (auto simp: Let_def normal_item_def intro!: reads_and_then)
  qed
qed

text \<open>No printed line contains a line break.\<close>

definition plain :: "string \<Rightarrow> bool" where
  "plain l \<longleftrightarrow> newline \<notin> set l \<and> CHR 0x0D \<notin> set l"

lemma plain_simps [simp]:
  "plain []" "plain (c # s) \<longleftrightarrow> c \<noteq> CHR 0x0A \<and> c \<noteq> CHR 0x0D \<and> plain s" "plain (s @ t) \<longleftrightarrow> plain s \<and> plain t"
  by (auto simp: plain_def newline_def)

lemma ident_plain: "ident s \<Longrightarrow> plain s"
  using ident_chars(8,9) by (simp add: plain_def)

lemma plain_numbers [simp]: "plain (show_nat n)" "plain (show_hex n)"
  by (simp_all add: ident_plain)

lemma plain_join: "plain sep \<Longrightarrow> \<forall>x \<in> set xs. plain x \<Longrightarrow> plain (join sep xs)"
  using set_join[of sep xs] by (force simp: plain_def)

lemma plain_header_lines:
  assumes "processor_ok p" "l \<in> set (header_lines p)"
  shows "plain l"
proof -
  have "plain (unit_line u)" if "u \<in> set (proc_units p)" for u
    using assms(1) that by (simp add: unit_line_def processor_ok_def ident_plain)
  moreover have "plain (alias_line a)" if "a \<in> set (slot_aliases p)" for a
    using assms(1) that by (simp add: alias_line_def processor_ok_def ident_plain)
  moreover have "plain (slot_decl_line d)" if "d \<in> set (enumerate 0 (slot_units p))" for d
  proof -
    have "snd d \<in> set (slot_units p)" using that by (metis in_set_zip set_zip_rightD enumerate_eq_zip prod.collapse)
    then have "plain (join '', '' (snd d))"
      using assms(1) by (intro plain_join) (auto simp: processor_ok_def ident_plain)
    then show ?thesis by (simp add: slot_decl_line_def split_def)
  qed
  moreover have "plain l" if "l \<in> set (memory_lines p)" for l
    using that by (auto simp: memory_lines_def split: if_splits)
  ultimately show ?thesis using assms(2) by (auto simp: header_lines_def)
qed

lemma plain_slot_text: "content_ok content \<Longrightarrow> plain (slot_text content)"
  using show_operand_text(2,3)
  by (auto simp: content_ok_def slot_text_def show_asm_syllable_def syllable_ok_def ident_plain
      split: option.splits intro!: plain_join) (auto simp: plain_def)

lemma plain_bundle_lines:
  assumes "processor_ok p" "item_ok (BundleItem b)" "l \<in> set (bundle_lines p b)"
  shows "plain l"
proof -
  have "plain (slot_line (slot_display_names p ! i, slot_syllable b i))" if i: "i < width_of p" for i
  proof -
    obtain nm n where "slot_display_names p ! i = pad_right n nm" "plain nm"
      using slot_name_cases[OF assms(1) i] unfolding plain_def by metis
    moreover have "content_ok (slot_syllable b i)"
      using assms(2) set_slot_syllable by (fastforce simp: item_ok_def content_ok_def split: option.splits)
    ultimately show ?thesis
      using plain_slot_text[of "slot_syllable b i"]
      by (auto simp: slot_line_def slot_text_def[symmetric] pad_right_def plain_def newline_def)
  qed
  then show ?thesis using assms(3) by (auto simp: bundle_lines_def set_zip)
qed

lemma plain_lines:
  assumes "program_ok prog"
  shows "\<forall>l \<in> set (program_lines prog). plain l"
proof -
  have "plain l" if "it \<in> set (items prog)" "l \<in> set (item_lines (processor prog) it)" for it l
    using assms that plain_bundle_lines[of "processor prog"]
    by (cases it) (auto simp: program_ok_def item_lines_def item_ok_def ident_plain)
  then show ?thesis using assms plain_header_lines by (auto simp: program_lines_def program_ok_def)
qed

lemma parse_emit_normal:
  assumes "program_ok prog"
  shows "parse (emit prog) = Inr (normal_program prog)"
proof -
  let ?p = "processor prog" and ?its = "concat (map (item_lines (processor prog)) (items prog))"
  have ok: "processor_ok ?p" "\<forall>it \<in> set (items prog). item_ok it" using assms by (simp_all add: program_ok_def)
  have "lines (emit prog) = program_lines prog"
    using lines_concat[OF plain_lines[OF assms, unfolded plain_def]]
    by (simp add: emit_program_lines writeln_def cong: map_cong)
  then have start: "rest_lines (parser_new (emit prog)) = header_lines ?p @ '''' # ?its"
    by (simp add: parser_new_def rest_lines_def program_lines_def)
  then have "rest_lines (skip_blank (parser_new (emit prog))) = header_lines ?p @ '''' # ?its"
    by (simp add: rest_skip_blank header_lines_def)
  from reads_processor[OF ok(1) this] obtain ps' where ps':
      "parse_processor (skip_blank (parser_new (emit prog))) = Inr (?p, ps')" "rest_lines ps' = '''' # ?its"
    by (auto simp: reads_def)
  then show ?thesis
    using reads_items[OF ok(1) _ ok(2), of ps' "[]"] first_item_line[OF ok(2)]
    by (auto simp: parse_def parse_program_def reads_def normal_program_def)
qed

section \<open>Properties\<close>

text \<open>
  C7: the parser is the inverse of the emitter.  For every program with well-formed names (no
  whitespace or punctuation of the format, distinct aliases other than \<open>??\<close>, label operands that do
  not read as registers or numbers), whose memory size is below \<open>2^63\<close> and whose address offsets are
  not the least \<open>i64\<close>, parsing the emitted text returns the program, with each bundle as wide as the
  processor and \<open>nop\<close> for an empty slot.
\<close>

theorem parse_emit:
  assumes "program_ok prog"
  shows "parse (emit prog) = Inr (normal_program prog)"
  using assms by (rule parse_emit_normal)

definition sample_program :: program where
  "sample_program =
     \<lparr>processor = default_processor\<lparr>memory_size := 0x20000\<rparr>,
      items =
        [LabelItem ''entry'',
         BundleItem \<lparr>slots = [Some (new_syllable ''movi'' [Reg 1, Imm (- 6)])]\<rparr>,
         BundleItem empty_bundle,
         BundleItem \<lparr>slots = [None, None, Some (new_syllable ''std'' [MemAddr 0 0x100, Reg 3]),
                             Some (new_syllable ''br'' [Pred 1, Label ''entry''])]\<rparr>]\<rparr>"

lemma default_processor_ok: "processor_ok default_processor"
  by (simp add: processor_ok_def default_processor_def DEFAULT_MEMORY_SIZE_def ident_def ident_char_def is_space_def)

lemma sample_program_ok: "program_ok sample_program"
proof -
  have "processor_ok (processor sample_program)"
    by (simp add: sample_program_def processor_ok_def default_processor_def ident_def ident_char_def is_space_def)
  moreover have "\<forall>it \<in> set (items sample_program). item_ok it"
    by (simp add: sample_program_def item_ok_def content_ok_def syllable_ok_def operand_ok_def empty_bundle_def
        label_operand_def ident_def ident_char_def is_space_def try_parse_reg_def try_parse_pred_def
        starts_with_def is_ascii_digit_def)
  ultimately show ?thesis by (simp add: program_ok_def)
qed

theorem parse_emit_witness: "parse (emit sample_program) = Inr (normal_program sample_program)"
  using sample_program_ok by (rule parse_emit)

text \<open>What the parser returns is in normal form, whatever the text.\<close>

lemma parse_syllable_not_nop:
  assumes "parse_syllable (trim s) = Some syl" "trim s \<noteq> ''nop''"
  shows "syl \<noteq> new_syllable ''nop'' []"
proof (cases "split_once '' '' (trim s)")
  case None
  then show ?thesis using assms by (auto simp: parse_syllable_def new_syllable_def)
next
  case (Some ab)
  obtain a b where ab: "ab = (a, b)" by force
  have s: "trim s = a @ '' '' @ b" using split_once_eq[of "'' ''"] Some ab by simp
  have "b \<noteq> []" using s trim_last[of s] by (cases b) auto
  then have "trim b \<noteq> []" using s trim_last[of s] by (auto simp: trim_eq_Nil)
  then have "parse_operands (trim b) = Some (syl_operands syl)"
    using assms(1) Some ab by (auto simp: parse_syllable_def bind_eq_Some_conv)
  moreover have "parse_operands_from d cur acc t = Some oprs \<Longrightarrow> oprs \<noteq> []" for d cur acc t oprs
    by (induction d cur acc t rule: parse_operands_from.induct) (auto simp: bind_eq_Some_conv split: if_splits)
  ultimately have "syl_operands syl \<noteq> []" unfolding parse_operands_def by blast
  then show ?thesis by (auto simp: new_syllable_def)
qed

lemma parse_slot_normal: "parse_slot ps p i t = Inr (k, syl) \<Longrightarrow> normal_slot syl = syl"
  using parse_syllable_not_nop
  by (auto simp: parse_slot_def result_simps normal_slot_def Let_def split: if_splits option.splits)

lemma parse_bundle_loop_normal:
  assumes "parse_bundle_loop ps proc ss i = Inr (ss', ps'')" "\<forall>c \<in> set ss. normal_slot c = c"
  shows "\<forall>c \<in> set ss'. normal_slot c = c"
  using assms
proof (induction ps proc ss i rule: parse_bundle_loop.induct)
  case (1 ps proc ss i)
  from "1.prems"(1) obtain line ps' where line: "expect_line ps = Inr (line, ps')"
    by (subst (asm) parse_bundle_loop.simps) (auto simp: result_simps)
  note unfold = "1.prems"(1)[unfolded parse_bundle_loop.simps[of ps] line, simplified, unfolded Let_def]
  show ?case
  proof (cases "trim line = ''}''")
    case True
    then show ?thesis using unfold "1.prems"(2) by auto
  next
    case False
    then obtain k syl where k: "parse_slot ps' proc i (trim line) = Inr (k, syl)"
        "parse_bundle_loop ps' proc (if k < length ss then ss[k := syl] else ss) (i + 1) = Inr (ss', ps'')"
      using unfold by (auto simp: result_simps)
    have "\<forall>c \<in> set (if k < length ss then ss[k := syl] else ss). normal_slot c = c"
      using "1.prems"(2) parse_slot_normal[OF k(1)] set_update_subset_insert[of ss k syl] by auto
    then show ?thesis using "1.IH"[OF line refl refl False k(1) refl k(2)] by blast
  qed
qed

lemma parse_bundle_normal:
  assumes "parse_bundle ps p = Inr (b, ps')"
  shows "normal_bundle p b = b"
proof -
  have len: "length (slots b) = width_of p" using parse_bundle_props(1)[OF assms] .
  have "\<forall>c \<in> set (slots b). normal_slot c = c"
    using assms parse_bundle_loop_normal[of _ p "replicate (width_of p) None" 0]
    by (fastforce simp: parse_bundle_def result_simps normal_slot_def)
  then have "map (\<lambda>i. normal_slot (slot_syllable b i)) [0..<width_of p] = slots b"
    using len by (intro nth_equalityI) (auto simp: slot_syllable_def get_def)
  then show ?thesis by (simp add: normal_bundle_def)
qed

lemma parse_items_loop_normal:
  assumes "parse_items_loop ps p its = Inr (its', ps')" "\<forall>it \<in> set its. normal_item p it = it"
  shows "\<forall>it \<in> set its'. normal_item p it = it"
  using assms
proof (induction ps p its rule: parse_items_loop.induct)
  case (1 ps p its)
  note unfold = "1.prems"(1)[unfolded parse_items_loop.simps[of ps] Let_def]
  show ?case
  proof (cases "peek (skip_blank ps)")
    case None
    then show ?thesis using unfold "1.prems"(2) by simp
  next
    case line: (Some line)
    show ?thesis
    proof (cases "trim line = ''{''")
      case True
      then obtain b ps2 where b: "parse_bundle (skip_blank ps) p = Inr (b, ps2)"
          "parse_items_loop ps2 p (its @ [BundleItem b]) = Inr (its', ps')"
        using unfold line by (auto simp: result_simps)
      have "\<forall>it \<in> set (its @ [BundleItem b]). normal_item p it = it"
        using "1.prems"(2) parse_bundle_normal[OF b(1)] by (simp add: normal_item_def)
      then show ?thesis using "1.IH"(1)[OF refl line refl True b(1) refl b(2)] by blast
    next
      case False
      then obtain l where l: "strip_suffix '':'' (trim line) = Some l"
        using unfold line by (cases "strip_suffix '':'' (trim line)") auto
      then have "parse_items_loop (skip_blank ps\<lparr>pos := pos (skip_blank ps) + 1\<rparr>) p (its @ [LabelItem l]) = Inr (its', ps')"
        using unfold line False by simp
      moreover have "\<forall>it \<in> set (its @ [LabelItem l]). normal_item p it = it"
        using "1.prems"(2) by (simp add: normal_item_def)
      ultimately show ?thesis using "1.IH"(2)[OF refl line refl False l] by blast
    qed
  qed
qed

text \<open>
  C32: parsed programs are well-shaped.  Whatever text is parsed, if \<open>parse\<close> succeeds every bundle of
  the program has exactly as many slots as the declared width, and an empty slot is never a \<open>nop\<close>
  syllable: the program is its own normal form, which is what printing and parsing it again
  restores.
\<close>

theorem parse_normal:
  assumes "parse s = Inr prog"
  shows "normal_program prog = prog \<and>
    (\<forall>b. BundleItem b \<in> set (items prog) \<longrightarrow> length (slots b) = width_of (processor prog))"
proof -
  obtain p ps' its ps2 where parts: "prog = \<lparr>processor = p, items = its\<rparr>" "parse_items_loop ps' p [] = Inr (its, ps2)"
    using assms by (auto simp: parse_def parse_program_def result_simps)
  then have "\<forall>it \<in> set its. normal_item p it = it" using parse_items_loop_normal by fastforce
  moreover from this have "length (slots b) = width_of p" if "BundleItem b \<in> set its" for b
    using that by (force simp: normal_item_def normal_bundle_def dest: arg_cong[of _ _ "\<lambda>b. length (slots b)"])
  ultimately show ?thesis using parts(1) by (simp add: normal_program_def map_idI)
qed

theorem parse_normal_witness:
  "\<exists>prog. parse (emit sample_program) = Inr prog \<and> normal_program prog = prog \<and> length (items prog) = 4"
proof -
  have "parse (emit sample_program) = Inr (normal_program sample_program)"
    using sample_program_ok by (rule parse_emit_normal)
  moreover have "length (items (normal_program sample_program)) = 4"
    by (simp add: normal_program_def sample_program_def)
  ultimately show ?thesis using parse_normal by blast
qed

end
