(* ===== verification/Compile.thy ===== *)
theory Compile
  imports Frontend Shape Roundtrip
begin

text \<open>
  The compile pipeline as a whole: after the front end and instruction selection have accepted a
  module, no later pass can fail, and what is printed is a program that the verifier accepts.
\<close>

section \<open>The back end\<close>

lemma lower_all_functions_shaped:
  assumes "lower_all_functions entry_iter m msize = Inr fns" "f \<in> set fns"
  shows "shaped_blocks (blocks f)"
proof -
  obtain lf where "lower_function entry_iter lf msize = Inr f"
    using assms(1) list_all2_origin[OF _ assms(2)] unfolding lower_all_functions_def try_map_eq_Inr by blast
  then show ?thesis by (rule lower_function_shaped)
qed

lemma allocate_all_total:
  assumes "hash_order_ok hash_iter" "\<forall>f \<in> set fns. shaped_blocks (blocks f)"
  shows "\<exists>afns. try_map (\<lambda>f. allocate_registers hash_iter f msize) fns = Inr afns \<and>
    (\<forall>f \<in> set afns. emittable f) \<and> function_labels afns = function_labels fns"
proof -
  have "\<exists>afns. list_all2 (\<lambda>f f'. allocate_registers hash_iter f msize = Inr f' \<and> emittable f' \<and> fname f' = fname f \<and>
      map label (blocks f') = map label (blocks f)) fns afns"
    using assms(2)
  proof (induction fns)
    case (Cons f fns)
    obtain f' where f': "allocate_registers hash_iter f msize = Inr f'" "emittable f'" "fname f' = fname f"
        "list_all2 rewritten_block (blocks f) (blocks f')"
      using allocate_registers_emittable[OF assms(1)] Cons.prems by force
    have "map label (blocks f') = map label (blocks f)"
      using f'(4) by (induction rule: list_all2_induct) (auto simp: rewritten_block_def)
    then show ?case using Cons f' by auto
  qed (rule exI[of _ "[]"], simp)
  then obtain afns where afns: "list_all2 (\<lambda>f f'. allocate_registers hash_iter f msize = Inr f' \<and> emittable f' \<and>
      fname f' = fname f \<and> map label (blocks f') = map label (blocks f)) fns afns" by blast
  then have "try_map (\<lambda>f. allocate_registers hash_iter f msize) fns = Inr afns"
    unfolding try_map_eq_Inr by (rule list_all2_mono) blast
  moreover have "\<forall>f \<in> set afns. emittable f" using list_all2_origin[OF afns] by blast
  moreover have "function_labels afns = function_labels fns"
    by (rule same_labels, rule list_all2_mono[OF afns]) blast
  ultimately show ?thesis by blast
qed

definition good_output :: "mir_function list \<Rightarrow> processor \<Rightarrow> program \<Rightarrow> bool" where
  "good_output fns p prog \<longleftrightarrow>
     processor prog = p \<and> verify_program prog = Inr () \<and> program_labels (items prog) = function_labels fns"

text \<open>The program issues the lowered syllables of the functions in order.\<close>

definition carries_code :: "mir_function list \<Rightarrow> program \<Rightarrow> bool" where
  "carries_code fns prog \<longleftrightarrow> (\<exists>evss. list_all2 function_events fns evss \<and> in_order (concat evss) (items prog))"

lemma item_events_concat: "item_events (concat parts) = concat (map item_events parts)"
  by (induction parts) simp_all

lemma scalar_program_events:
  assumes "scalar_program fns p = Inr prog"
  shows "\<exists>evss. list_all2 function_events fns evss \<and> concat evss = item_events (items prog)"
proof -
  obtain parts where "items prog = concat parts" "list_all2 (function_code p) fns parts"
    using scalar_program_code[OF assms] by blast
  then show ?thesis
    by (intro exI[of _ "map item_events parts"]) (auto simp: item_events_concat list_all2_map2 function_code_def elim: list_all2_mono)
qed

definition scheduled_as :: "schedule \<Rightarrow> mir_function list \<Rightarrow> mir_function list \<Rightarrow> bool" where
  "scheduled_as sched fns gfns \<longleftrightarrow>
     (case sched of ScalarS \<Rightarrow> gfns = fns | PackS \<Rightarrow> list_all2 (\<lambda>f g. list_schedule_function f = Inr g) fns gfns)"

lemma scalar_output:
  assumes "capable p" "\<forall>f \<in> set fns. emittable f"
  shows "\<exists>prog. emit_scalar_vliw_module fns p = Inr (emit prog) \<and> good_output fns p prog \<and> carries_code fns prog"
proof -
  obtain prog where prog: "scalar_program fns p = Inr prog" using scalar_program_total[OF assms] by blast
  have "processor prog = p" using scalar_program_code[OF prog] by blast
  moreover have "carries_code fns prog"
    using scalar_program_events[OF prog] in_order_self unfolding carries_code_def by metis
  ultimately show ?thesis
    using prog scalar_program_verifies[OF prog] scalar_program_labels[OF prog]
    by (auto simp: emit_scalar_vliw_module_def verified_def good_output_def)
qed

lemma packed_output:
  assumes "capable p" "\<forall>f \<in> set fns. emittable f"
  shows "\<exists>prog gfns. emit_packed_vliw_module fns p = Inr (emit prog) \<and> good_output fns p prog \<and>
    scheduled_as PackS fns gfns \<and> carries_code gfns prog"
proof -
  have "\<forall>f. \<exists>f'. list_schedule_function f = Inr f' \<and> fname f' = fname f \<and> map label (blocks f') = map label (blocks f)"
  proof
    fix f
    obtain f' where f': "list_schedule_function f = Inr f'" "fname f' = fname f"
        "list_all2 (\<lambda>b b'. label b' = label b \<and> terminator b' = terminator b \<and> set (syllables b') = set (syllables b))
          (blocks f) (blocks f')"
      using list_schedule_function_keeps by blast
    have "map label (blocks f') = map label (blocks f)" using f'(3) by (induction rule: list_all2_induct) auto
    then show "\<exists>f'. list_schedule_function f = Inr f' \<and> fname f' = fname f \<and> map label (blocks f') = map label (blocks f)"
      using f'(1,2) by blast
  qed
  from choice[OF this] obtain g where g: "list_schedule_function f = Inr (g f)" "fname (g f) = fname f"
      "map label (blocks (g f)) = map label (blocks f)" for f
    by blast
  have emit: "\<forall>f \<in> set (map g fns). emittable f" using assms(2) scheduled_emittable[OF g(1)] by auto
  then obtain prog where prog: "scalar_program (map g fns) p = Inr prog"
    using scalar_program_total[OF assms(1)] by blast
  then have sched: "scheduled_program fns p = Inr prog" using scheduled_program_scalar[OF g(1)] by simp
  have free: "\<forall>f \<in> set fns. control_free f" using assms(2) shaped_control_free by (auto simp: emittable_def)
  have items: "processor prog = p" "\<forall>it \<in> set (items prog). packable_item (processor prog) it"
    using scheduled_program_items[OF sched free] by auto
  obtain prog' where prog': "pack_scalar_program prog = Some prog'" "well_packed prog prog'"
    using pack_scalar_program_ok[OF items(2)] by blast
  have "function_labels (map g fns) = function_labels fns"
    by (intro same_labels) (simp add: list_all2_conv_all_nth g(2,3))
  moreover have "program_labels (items prog') = program_labels (items prog)"
    using prog'(2) in_order_marks[of "item_events (items prog)" "items prog'"] by (simp add: well_packed_def marks_items)
  ultimately have "good_output fns p prog'"
    using prog'(2) well_packed_verifies items(1) scalar_program_labels[OF prog] by (auto simp: good_output_def well_packed_def)
  moreover have "emit_packed_vliw_module fns p = Inr (emit prog')"
    using sched prog' well_packed_verifies by (auto simp: emit_packed_vliw_module_def verified_def)
  moreover have "carries_code (map g fns) prog'"
    using scalar_program_events[OF prog] prog'(2) unfolding carries_code_def well_packed_def by metis
  moreover have "scheduled_as PackS fns (map g fns)" by (simp add: scheduled_as_def list_all2_conv_all_nth g(1))
  ultimately show ?thesis by blast
qed

lemma back_end_code:
  assumes "hash_order_ok hash_iter" "capable p" "lower_all_functions entry_iter m (memory_size p) = Inr fns"
  shows "\<exists>prog afns gfns. back_end entry_iter hash_iter sched p m = Inr (emit prog) \<and> good_output fns p prog \<and>
    try_map (\<lambda>f. allocate_registers hash_iter f (memory_size p)) fns = Inr afns \<and>
    scheduled_as sched afns gfns \<and> carries_code gfns prog"
proof -
  have "\<forall>f \<in> set fns. shaped_blocks (blocks f)" using lower_all_functions_shaped[OF assms(3)] by blast
  from allocate_all_total[OF assms(1) this] obtain afns where
    afns: "try_map (\<lambda>f. allocate_registers hash_iter f (memory_size p)) fns = Inr afns"
      "\<forall>f \<in> set afns. emittable f" "function_labels afns = function_labels fns" by blast
  have "\<exists>prog gfns. (case sched of ScalarS \<Rightarrow> emit_scalar_vliw_module afns p | PackS \<Rightarrow> emit_packed_vliw_module afns p) = Inr (emit prog) \<and>
      good_output afns p prog \<and> scheduled_as sched afns gfns \<and> carries_code gfns prog"
    using scalar_output[OF assms(2) afns(2)] packed_output[OF assms(2) afns(2)]
    by (cases sched) (simp_all add: scheduled_as_def)
  then show ?thesis using assms(3) afns(1,3) by (auto simp: back_end_def good_output_def)
qed

lemma back_end_total:
  assumes "hash_order_ok hash_iter" "capable p" "lower_all_functions entry_iter m (memory_size p) = Inr fns"
  shows "\<exists>prog. back_end entry_iter hash_iter sched p m = Inr (emit prog) \<and> good_output fns p prog"
  using back_end_code[OF assms] by blast

section \<open>Properties\<close>

text \<open>
  C5: after instruction selection nothing can fail.  Take a processor that has a slot for every opcode
  the compiler selects and an \<open>X\<close> slot for control transfers.  If LLVM parses and optimises the text,
  the subset check passes and instruction selection returns functions, then for both schedules
  \<open>compile_for_processor\<close> returns the text of a program for that processor; the verifier accepts the
  program, and its labels are exactly the functions' names and block labels, in order.
\<close>

theorem compile_total_after_selection:
  assumes "hash_order_ok hash_iter" "capable p" "front_end L ir level = Inr m"
    and "lower_all_functions entry_iter m (memory_size p) = Inr fns"
  shows "\<exists>prog. compile_for_processor L entry_iter hash_iter ir level sched p = Inr (emit prog) \<and>
    processor prog = p \<and> verify_program prog = Inr () \<and>
    program_labels (items prog) = function_labels fns"
  using back_end_total[OF assms(1,2,4), of sched] assms(3) by (auto simp: compile_for_processor_def good_output_def)

text \<open>An LLVM that parses every text to the counting loop and does not optimise.\<close>

definition loop_module :: llvm_module where
  "loop_module = \<lparr>module_functions = [count_loop]\<rparr>"

definition fixed_llvm :: "(unit, unit) llvm_api" where
  "fixed_llvm =
     \<lparr>create_module_from_ir = \<lambda>_. Inr loop_module, print_to_string = \<lambda>_. None, initialize_native = Inl [],
      target_from_triple = Inl [], create_target_machine = \<lambda>_ _. None, run_passes = \<lambda>_ _ _. Inl []\<rparr>"

lemma loop_module_front_end: "front_end fixed_llvm ir NoneL = Inr loop_module"
proof -
  have "check_module loop_module = Inr ()" by code_simp
  then show ?thesis by (simp add: front_end_def parse_ir_def fixed_llvm_def run_opt_pipeline_def passes_for_def)
qed

lemma loop_module_selected: "\<exists>fns. lower_all_functions id loop_module (memory_size default_processor) = Inr fns"
proof -
  have "case lower_all_functions id loop_module (memory_size default_processor) of Inl _ \<Rightarrow> False | Inr _ \<Rightarrow> True"
    by code_simp
  then show ?thesis by (auto split: sum.splits)
qed

theorem compile_total_after_selection_witness:
  "\<exists>prog. compile_for_processor fixed_llvm id id ''define'' NoneL PackS default_processor = Inr (emit prog) \<and>
     verify_program prog = Inr ()"
proof -
  have "hash_order_ok id" by (simp add: hash_order_ok_def)
  moreover obtain fns where "lower_all_functions id loop_module (memory_size default_processor) = Inr fns"
    using loop_module_selected by blast
  ultimately show ?thesis
    using compile_total_after_selection[OF _ default_capable loop_module_front_end] by blast
qed

text \<open>
  C19: where compile errors come from.  On such a processor \<open>compile_for_processor\<close> returns an error
  exactly when the front end or instruction selection does, and it is that error; in particular the
  allocator never reports \<open>OutOfRegisters\<close> and the verifier never rejects the generated code.
\<close>

theorem compile_errors_from_selection:
  assumes "hash_order_ok hash_iter" "capable p"
  shows "compile_for_processor L entry_iter hash_iter ir level sched p = Inl e \<longleftrightarrow>
    front_end L ir level = Inl e \<or>
    (\<exists>m. front_end L ir level = Inr m \<and> lower_all_functions entry_iter m (memory_size p) = Inl e)"
proof (cases "front_end L ir level")
  case (Inr m)
  show ?thesis
  proof (cases "lower_all_functions entry_iter m (memory_size p)")
    case fns: (Inr fns)
    obtain prog where "back_end entry_iter hash_iter sched p m = Inr (emit prog)"
      using back_end_total[OF assms fns] by blast
    then show ?thesis using Inr fns by (simp add: compile_for_processor_def)
  qed (simp add: Inr compile_for_processor_def back_end_def)
qed (simp add: compile_for_processor_def)

theorem compile_errors_from_selection_witness:
  "compile_for_processor (fixed_llvm\<lparr>create_module_from_ir := \<lambda>_. Inl ''expected top-level entity''\<rparr>)
     id id ''x'' Less ScalarS default_processor = Inl (ParseFailure ''expected top-level entity'')"
proof -
  have "hash_order_ok id" by (simp add: hash_order_ok_def)
  moreover have "front_end (fixed_llvm\<lparr>create_module_from_ir := \<lambda>_. Inl ''expected top-level entity''\<rparr>) ''x'' Less =
      Inl (ParseFailure ''expected top-level entity'')"
    by (simp add: front_end_def parse_ir_def)
  ultimately show ?thesis using compile_errors_from_selection[OF _ default_capable] by blast
qed

end
