(* ===== verification/Driver.thy ===== *)
theory Driver
  imports Compile
begin

text \<open>
  Component \<open>vliwc/src/main.rs\<close>: the command line driver.  Parsing of the command line (\<open>clap\<close>) gives
  the record \<open>args\<close>; files and standard output belong to the operating system, whose operations are
  the argument \<open>os\<close>: reading a file looks at the world, a write changes it or fails.
\<close>

datatype schedule_arg = ScalarArg | PackArg

datatype emit_arg = Bundles | Demo

type_synonym path = string

record args =
  arg_input :: "path option"
  arg_output :: "path option"
  arg_emit :: emit_arg
  arg_demo :: bool
  arg_emit_mir :: bool
  arg_schedule :: schedule_arg
  arg_processor :: "path option"

record 'w os =
  read_to_string :: "path \<Rightarrow> 'w \<Rightarrow> string + string"
  write_stdout :: "string \<Rightarrow> 'w \<Rightarrow> string + 'w"
  write_file :: "path \<Rightarrow> string \<Rightarrow> 'w \<Rightarrow> string + 'w"

text \<open>\<open>anyhow::Error\<close>: a message, an I/O error, an I/O error with context, or a compile error.\<close>

datatype driver_error =
    Message string
  | IoError string
  | Context string string
  | CompileFailed compile_error

definition schedule_from :: "schedule_arg \<Rightarrow> schedule" where
  "schedule_from a = (case a of ScalarArg \<Rightarrow> ScalarS | PackArg \<Rightarrow> PackS)"

definition effective_emit :: "args \<Rightarrow> emit_arg" where
  "effective_emit a = (if arg_demo a then Demo else arg_emit a)"

definition validate_args :: "args \<Rightarrow> driver_error + unit" where
  "validate_args a = Inr ()"

definition show_parse_error :: "parse_error \<Rightarrow> string" where
  "show_parse_error e =
     (case e of
        UnexpectedEof \<Rightarrow> ''unexpected end of input''
      | Syntax line msg \<Rightarrow> ''parse error at line '' @ show_nat line @ '': '' @ msg)"

definition load_processor :: "'w os \<Rightarrow> 'w \<Rightarrow> path option \<Rightarrow> driver_error + processor" where
  "load_processor os w config_path =
     (case config_path of
        None \<Rightarrow> Inr default_processor
      | Some path \<Rightarrow>
          and_then (map_err (Context (''reading processor config '' @ path)) (read_to_string os path w)) (\<lambda>txt.
          and_then
            (map_err (\<lambda>e. Message (''processor config parse error in '' @ path @ '': '' @ show_parse_error e)) (parse txt))
            (\<lambda>prog. Inr (processor prog))))"

definition demo_syl :: "string \<Rightarrow> operand list \<Rightarrow> asm_syllable option" where
  "demo_syl op ops = Some (new_syllable op ops)"

definition demo_program :: program where
  "demo_program =
     \<lparr>processor = default_processor,
      items =
        [LabelItem ''entry'',
         BundleItem \<lparr>slots = [demo_syl ''movi'' [Reg 1, Imm 6], demo_syl ''movi'' [Reg 2, Imm 7], None, None]\<rparr>,
         BundleItem \<lparr>slots = [None, None, None, demo_syl ''mul'' [Reg 3, Reg 1, Reg 2]]\<rparr>,
         BundleItem empty_bundle,
         BundleItem empty_bundle,
         BundleItem \<lparr>slots = [None, None, demo_syl ''std'' [MemAddr 0 0x100, Reg 3], demo_syl ''ret'' []]\<rparr>]\<rparr>"

definition emit_demo :: string where
  "emit_demo = emit demo_program"

definition vliw_text ::
  "('t, 'm) llvm_api \<Rightarrow> entry_order \<Rightarrow> hash_order \<Rightarrow> 'w os \<Rightarrow> args \<Rightarrow> 'w \<Rightarrow> driver_error + string" where
  "vliw_text L entry_iter hash_iter os a w =
     (case effective_emit a of
        Demo \<Rightarrow> Inr (if arg_emit_mir a then emit_mir demo_mir else emit_demo)
      | Bundles \<Rightarrow>
          if arg_emit_mir a then
            and_then (ok_or (arg_input a) (Message ''INPUT is required with --emit-mir'')) (\<lambda>path.
            and_then (map_err (Context (''reading '' @ path)) (read_to_string os path w)) (\<lambda>ir.
            and_then (map_err CompileFailed (compile_to_mir L entry_iter ir NoneL)) (\<lambda>mir.
            Inr (emit_mir mir))))
          else
            and_then (ok_or (arg_input a) (Message ''INPUT is required unless --emit=demo is set'')) (\<lambda>path.
            and_then (map_err (Context (''reading '' @ path)) (read_to_string os path w)) (\<lambda>ir.
            and_then (load_processor os w (arg_processor a)) (\<lambda>p.
            map_err CompileFailed
              (compile_for_processor L entry_iter hash_iter ir Less (schedule_from (arg_schedule a)) p)))))"

definition write_output :: "'w os \<Rightarrow> path option \<Rightarrow> string \<Rightarrow> 'w \<Rightarrow> driver_error + 'w" where
  "write_output os dest txt w =
     (case dest of
        None \<Rightarrow> map_err IoError (write_stdout os txt w)
      | Some p \<Rightarrow> map_err (Context (''writing '' @ p)) (write_file os p txt w))"

definition driver_main ::
  "('t, 'm) llvm_api \<Rightarrow> entry_order \<Rightarrow> hash_order \<Rightarrow> 'w os \<Rightarrow> args \<Rightarrow> 'w \<Rightarrow> driver_error + 'w" where
  "driver_main L entry_iter hash_iter os a w =
     and_then (validate_args a) (\<lambda>_.
     and_then (vliw_text L entry_iter hash_iter os a w) (\<lambda>txt.
     write_output os (arg_output a) txt w))"

section \<open>Properties\<close>

lemma demo_program_ok: "program_ok demo_program"
proof -
  have "\<forall>it \<in> set (items demo_program). item_ok it"
    by (simp add: demo_program_def demo_syl_def item_ok_def content_ok_def syllable_ok_def operand_ok_def
        empty_bundle_def ident_def ident_char_def is_space_def)
  then show ?thesis using default_processor_ok by (simp add: program_ok_def demo_program_def)
qed

lemma load_processor_emitted:
  assumes "read_to_string os path w = Inr (emit conf)" "program_ok conf"
  shows "load_processor os w (Some path) = Inr (processor conf)"
  using assms parse_emit_normal[OF assms(2)] by (simp add: load_processor_def normal_program_def)

lemma write_output_cases:
  "write_output os dest txt w =
     (case dest of
        None \<Rightarrow> (case write_stdout os txt w of Inr w' \<Rightarrow> Inr w' | Inl e \<Rightarrow> Inl (IoError e))
      | Some p \<Rightarrow>
          (case write_file os p txt w of Inr w' \<Rightarrow> Inr w' | Inl e \<Rightarrow> Inl (Context (''writing '' @ p) e)))"
  by (simp add: write_output_def map_err_def split: option.split sum.split)

text \<open>
  C18: the driver end to end.  Run with an input file and a processor file that holds a program printed
  by the emitter, for a processor able to run compiled code, the driver hands the text of a program
  for exactly that processor to the operating system, provided the front end and instruction selection
  accept the input: the configuration survives printing and parsing, every later pass succeeds, the
  verifier accepts the program and its labels are those of the selected functions.  The text is written
  once: to standard output when no output is given, to the named file otherwise, and the run ends in the
  world after that write or in the error of the write, for a file with its name as context.  The output
  name \<open>-\<close> is left out: the option's help gives it to standard output and the code to a file.
\<close>

theorem driver_end_to_end:
  assumes "effective_emit a = Bundles" "\<not> arg_emit_mir a" "arg_input a = Some path" "arg_processor a = Some config"
    and "read_to_string os path w = Inr ir" "read_to_string os config w = Inr (emit conf)" "program_ok conf"
    and "capable (processor conf)" "hash_order_ok hash_iter"
    and "front_end L ir Less = Inr m" "lower_all_functions entry_iter m (memory_size (processor conf)) = Inr fns"
    and "arg_output a \<noteq> Some ''-''"
  shows "\<exists>prog. driver_main L entry_iter hash_iter os a w =
      (case arg_output a of
         None \<Rightarrow> (case write_stdout os (emit prog) w of Inr w' \<Rightarrow> Inr w' | Inl e \<Rightarrow> Inl (IoError e))
       | Some dest \<Rightarrow>
           (case write_file os dest (emit prog) w of
              Inr w' \<Rightarrow> Inr w' | Inl e \<Rightarrow> Inl (Context (''writing '' @ dest) e))) \<and>
    processor prog = processor conf \<and> verify_program prog = Inr () \<and>
    program_labels (items prog) = function_labels fns"
proof -
  obtain prog where "back_end entry_iter hash_iter (schedule_from (arg_schedule a)) (processor conf) m = Inr (emit prog)"
      "good_output fns (processor conf) prog"
    using back_end_total[OF assms(9,8,11)] by blast
  then show ?thesis
    using assms(1-6,10) load_processor_emitted[OF assms(6,7)]
    by (auto simp: driver_main_def validate_args_def vliw_text_def compile_for_processor_def good_output_def
        write_output_cases)
qed

text \<open>A world of files by name, one of which is standard output; an LLVM that optimises nothing.\<close>

definition file_os :: "(string \<rightharpoonup> string) os" where
  "file_os =
     \<lparr>read_to_string = \<lambda>p w. ok_or (w p) ''No such file or directory'',
      write_stdout = \<lambda>txt w. Inr (w(''stdout'' \<mapsto> txt)), write_file = \<lambda>p txt w. Inr (w(p \<mapsto> txt))\<rparr>"

definition idle_llvm :: "(unit, unit) llvm_api" where
  "idle_llvm = fixed_llvm\<lparr>initialize_native := Inr (), target_from_triple := Inr (),
     create_target_machine := \<lambda>_ _. Some (), run_passes := \<lambda>m _ _. Inr m\<rparr>"

lemma idle_front_end: "front_end idle_llvm ir level = Inr loop_module"
proof -
  have "check_module loop_module = Inr ()" by code_simp
  then show ?thesis
    by (cases level) (simp_all add: front_end_def parse_ir_def idle_llvm_def fixed_llvm_def run_opt_pipeline_def passes_for_def)
qed

definition loop_args :: args where
  "loop_args =
     \<lparr>arg_input = Some ''loop.ll'', arg_output = Some ''loop.vliw'', arg_emit = Bundles, arg_demo = False,
      arg_emit_mir = False, arg_schedule = PackArg, arg_processor = Some ''cpu.vliw''\<rparr>"

theorem driver_end_to_end_witness:
  "\<exists>prog w'. driver_main idle_llvm id id file_os loop_args [''loop.ll'' \<mapsto> ''define'', ''cpu.vliw'' \<mapsto> emit_demo] = Inr w' \<and>
     w' = [''loop.ll'' \<mapsto> ''define'', ''cpu.vliw'' \<mapsto> emit_demo, ''loop.vliw'' \<mapsto> emit prog] \<and> verify_program prog = Inr ()"
proof -
  let ?w = "[''loop.ll'' \<mapsto> ''define'', ''cpu.vliw'' \<mapsto> emit_demo]"
  obtain fns where fns: "lower_all_functions id loop_module (memory_size default_processor) = Inr fns"
    using loop_module_selected by blast
  have conf: "processor demo_program = default_processor" by (simp add: demo_program_def)
  have read: "read_to_string file_os ''loop.ll'' ?w = Inr ''define''" "read_to_string file_os ''cpu.vliw'' ?w = Inr (emit demo_program)"
    by (simp_all add: file_os_def emit_demo_def)
  obtain prog where "driver_main idle_llvm id id file_os loop_args ?w =
      (case arg_output loop_args of
         None \<Rightarrow> (case write_stdout file_os (emit prog) ?w of Inr w' \<Rightarrow> Inr w' | Inl e \<Rightarrow> Inl (IoError e))
       | Some dest \<Rightarrow>
           (case write_file file_os dest (emit prog) ?w of
              Inr w' \<Rightarrow> Inr w' | Inl e \<Rightarrow> Inl (Context (''writing '' @ dest) e)))" "verify_program prog = Inr ()"
    using driver_end_to_end[OF _ _ _ _ read demo_program_ok _ _ idle_front_end, 
        where a = loop_args and fns = fns and entry_iter = id and hash_iter = id]
    by (auto simp: loop_args_def effective_emit_def conf default_capable hash_order_ok_def fns)
  then show ?thesis by (auto simp: loop_args_def file_os_def)
qed

end
