(* ===== verification/ParseErrors.thy ===== *)
theory ParseErrors
  imports Parse "HOL-Library.Sublist"
begin

text \<open>
  Where the errors of \<open>vliw-asm/src/parse.rs\<close> point.  A syntax error carries a line number and a
  message that quotes the text it is about.  The lemmas show that the quoted text stands in the line
  the number stands for, and that this line and those before it decide the error: no later line can
  change it.
\<close>

section \<open>Reading an error\<close>

text \<open>
  The line an error is about, counted from one.  Every error is raised after its line is consumed and
  carries the count of consumed lines, except the one for a stray line between items: that one is
  raised before its line is consumed.
\<close>

definition error_line :: "nat \<Rightarrow> string \<Rightarrow> nat" where
  "error_line n msg = (if prefix ''unexpected: '' msg then n + 1 else n)"

text \<open>The messages that quote the whole line, blanks trimmed, and those that quote a part of it.\<close>

definition line_errors :: "string list" where
  "line_errors =
     [''expected 'unit ...': '', ''bad unit decl: '', ''bad alias: '', ''bad slot decl: '', ''bad topology: '',
      ''bad memory: '', ''unexpected in .processor: '', ''expected '.processor {', got: '', ''expected ':' in: '']"

definition part_errors :: "string list" where
  "part_errors = [''bad width: '', ''bad alias index: '', ''bad slot index: '', ''bad syllable: '']"

definition quotes :: "string \<Rightarrow> string \<Rightarrow> bool" where
  "quotes line msg \<longleftrightarrow>
     (\<exists>kind \<in> insert ''unexpected: '' (set line_errors). msg = kind @ trim line) \<or>
     (\<exists>kind \<in> set part_errors. \<exists>part. msg = kind @ part \<and> sublist part (trim line))"

definition blames :: "string list \<Rightarrow> nat \<Rightarrow> string \<Rightarrow> bool" where
  "blames ls n msg \<longleftrightarrow>
     0 < error_line n msg \<and> error_line n msg \<le> length ls \<and> quotes (ls ! (error_line n msg - 1)) msg"

section \<open>Errors quote the line they name\<close>

definition located :: "string list \<Rightarrow> parse_error + 'a \<Rightarrow> bool" where
  "located ls r \<longleftrightarrow> (\<forall>n msg. r = Inl (Syntax n msg) \<longrightarrow> blames ls n msg)"

lemma located_Inr [simp]: "located ls (Inr x)"
  by (simp add: located_def)

lemma located_and_then: "located ls r \<Longrightarrow> (\<And>x. r = Inr x \<Longrightarrow> located ls (f x)) \<Longrightarrow> located ls (and_then r f)"
  by (cases r) (auto simp: located_def)

lemma located_err: "blames (plines ps) (pos ps) msg \<Longrightarrow> located (plines ps) (Inl (err ps msg))"
  by (simp add: located_def err_def)

lemma located_ok_or:
  "blames (plines ps) (pos ps) msg \<Longrightarrow> (\<And>y. x = Some y \<Longrightarrow> located (plines ps) (f y))
     \<Longrightarrow> located (plines ps) (and_then (ok_or x (err ps msg)) f)"
  by (cases x) (simp_all add: located_err)

text \<open>The cursor stands behind a line, whose trimmed text is given.\<close>

definition at_line :: "parser \<Rightarrow> string \<Rightarrow> bool" where
  "at_line ps t \<longleftrightarrow> 0 < pos ps \<and> pos ps \<le> length (plines ps) \<and> t = trim (plines ps ! (pos ps - 1))"

lemma expect_at_line: "expect_line ps = Inr (l, ps') \<Longrightarrow> at_line ps' (trim l) \<and> plines ps' = plines ps"
  by (auto simp: expect_line_Inr at_line_def)

lemma skip_expect_at_line:
  "expect_line (skip_blank ps) = Inr (l, ps') \<Longrightarrow> at_line ps' (trim l) \<and> plines ps' = plines ps"
  using expect_at_line skip_blank_props by metis

lemma located_expect: "located ls (expect_line ps)"
  by (auto simp: located_def expect_line_Inl)

lemma not_stray: "kind \<in> set line_errors \<union> set part_errors \<Longrightarrow> error_line n (kind @ t) = n"
  by (auto simp: error_line_def line_errors_def part_errors_def)

lemma blames_line: "at_line ps t \<Longrightarrow> kind \<in> set line_errors \<Longrightarrow> blames (plines ps) (pos ps) (kind @ t)"
  by (auto simp: blames_def not_stray at_line_def quotes_def)

lemma blames_part:
  "at_line ps t \<Longrightarrow> sublist part t \<Longrightarrow> kind \<in> set part_errors \<Longrightarrow> blames (plines ps) (pos ps) (kind @ part)"
  by (auto simp: blames_def not_stray at_line_def quotes_def)

lemma line_kinds:
  "at_line ps t \<Longrightarrow> blames (plines ps) (pos ps) (''expected 'unit ...': '' @ t)"
  "at_line ps t \<Longrightarrow> blames (plines ps) (pos ps) (''bad unit decl: '' @ t)"
  "at_line ps t \<Longrightarrow> blames (plines ps) (pos ps) (''bad alias: '' @ t)"
  "at_line ps t \<Longrightarrow> blames (plines ps) (pos ps) (''bad slot decl: '' @ t)"
  "at_line ps t \<Longrightarrow> blames (plines ps) (pos ps) (''bad topology: '' @ t)"
  "at_line ps t \<Longrightarrow> blames (plines ps) (pos ps) (''bad memory: '' @ t)"
  "at_line ps t \<Longrightarrow> blames (plines ps) (pos ps) (''unexpected in .processor: '' @ t)"
  "at_line ps t \<Longrightarrow> blames (plines ps) (pos ps) (''expected '.processor {', got: '' @ t)"
  "at_line ps t \<Longrightarrow> blames (plines ps) (pos ps) (''expected ':' in: '' @ t)"
  by (rule blames_line, assumption, simp add: line_errors_def)+

lemma part_kinds:
  "at_line ps t \<Longrightarrow> sublist part t \<Longrightarrow> blames (plines ps) (pos ps) (''bad width: '' @ part)"
  "at_line ps t \<Longrightarrow> sublist part t \<Longrightarrow> blames (plines ps) (pos ps) (''bad alias index: '' @ part)"
  "at_line ps t \<Longrightarrow> sublist part t \<Longrightarrow> blames (plines ps) (pos ps) (''bad slot index: '' @ part)"
  "at_line ps t \<Longrightarrow> sublist part t \<Longrightarrow> blames (plines ps) (pos ps) (''bad syllable: '' @ part)"
  by (rule blames_part, assumption, assumption, simp add: part_errors_def)+

lemmas blames_intros =
  line_kinds[simplified append_Cons append_Nil] part_kinds[simplified append_Cons append_Nil]

text \<open>Prefixes, suffixes and trimmings stay parts of the line.\<close>

lemma strip_prefix_sublist: "strip_prefix p s = Some t \<Longrightarrow> sublist t s"
  by (simp add: strip_prefix_eq_Some)

lemma split_once_sublist: "split_once sep s = Some (a, b) \<Longrightarrow> sublist a s \<and> sublist b s"
  by (auto dest!: split_once_eq simp flip: append_assoc)

lemma trim_sublist: "sublist (trim s) s"
proof -
  have "sublist (trim_start_matches is_space s) s" for s
    unfolding trim_start_matches_def by (intro suffix_imp_sublist suffix_dropWhile)
  moreover have "sublist (trim_end_matches is_space s) s" for s
    unfolding trim_end_matches_def by (metis rev_rev_ident sublist_rev suffix_dropWhile suffix_imp_sublist)
  ultimately show ?thesis unfolding trim_def by (meson sublist_order.order.trans)
qed

lemma located_parse_unit: "at_line ps t \<Longrightarrow> located (plines ps) (parse_unit ps t)"
  unfolding parse_unit_def by (auto intro!: located_ok_or blames_intros)

lemma located_parse_alias:
  assumes "at_line ps t" "sublist rest t"
  shows "located (plines ps) (parse_alias ps t rest)"
proof -
  have "sublist b t" if "split_once '' = '' rest = Some (a, b)" for a b
    using split_once_sublist[OF that] assms(2) sublist_order.order.trans by blast
  then show ?thesis
    unfolding parse_alias_def using assms(1) by (auto intro!: located_ok_or blames_intros)
qed

lemma located_parse_slot_decl: "at_line ps t \<Longrightarrow> located (plines ps) (parse_slot_decl ps t)"
  unfolding parse_slot_decl_def
  by (auto simp: Let_def intro!: located_ok_or blames_intros dest: split_once_sublist)

lemma located_parse_slot:
  assumes "at_line ps t"
  shows "located (plines ps) (parse_slot ps proc i t)"
  unfolding parse_slot_def
proof (rule located_ok_or[OF line_kinds(9)[OF assms]])
  fix p assume "split_once '':'' t = Some p"
  moreover obtain a b where p: "p = (a, b)" by force
  ultimately have "sublist (trim b) t"
    using split_once_sublist trim_sublist sublist_order.order.trans by blast
  then have inner: "located (plines ps)
      (if trim b = ''nop'' then Inr None
       else and_then (ok_or (parse_syllable (trim b)) (err ps (''bad syllable: '' @ trim b))) (\<lambda>s. Inr (Some s)))"
    using assms by (auto intro!: located_ok_or blames_intros)
  show "located (plines ps) (case p of (before, after) \<Rightarrow>
      let slot_name = trim before; rest = trim after;
          slot_idx = (case find (\<lambda>a. alias_name a = slot_name) (slot_aliases proc) of
                        Some a \<Rightarrow> alias_slot a | None \<Rightarrow> i)
      in and_then (if rest = ''nop'' then Inr None
                   else and_then (ok_or (parse_syllable rest) (err ps (''bad syllable: '' @ rest))) (\<lambda>s.
                        Inr (Some s)))
           (\<lambda>syllable. Inr (slot_idx, syllable)))"
    unfolding p prod.case Let_def by (rule located_and_then[OF inner]) simp
qed

lemma located_hardware_loop: "located (plines ps) (parse_hardware_loop ps us)"
proof (induction ps us rule: parse_hardware_loop.induct)
  case (1 ps us)
  have "located (plines ps) (and_then (parse_unit ps' (trim l)) (\<lambda>u. parse_hardware_loop ps' (us @ [u])))"
    if "expect_line (skip_blank ps) = Inr (l, ps')" "trim l \<noteq> ''}''" for l ps'
    using skip_expect_at_line[OF that(1)] 1[OF that(1) refl refl that(2)] located_parse_unit[of ps' "trim l"]
    by (auto intro!: located_and_then)
  then show ?case
    by (subst parse_hardware_loop.simps) (auto simp: Let_def intro!: located_and_then[OF located_expect])
qed

lemma located_layout_loop: "located (plines ps) (parse_layout_loop ps aliases indexed)"
proof (induction ps aliases indexed rule: parse_layout_loop.induct)
  case (1 ps aliases indexed)
  have "located (plines ps) (case strip_prefix ''alias '' (trim l) of
         Some rest \<Rightarrow>
           and_then (parse_alias ps' (trim l) rest) (\<lambda>a. parse_layout_loop ps' (aliases @ [a]) indexed)
       | None \<Rightarrow>
           and_then (parse_slot_decl ps' (trim l)) (\<lambda>d. parse_layout_loop ps' aliases (indexed @ [d])))"
    if l: "expect_line (skip_blank ps) = Inr (l, ps')" "trim l \<noteq> ''}''" for l ps'
    using skip_expect_at_line[OF l(1)] 1(1)[OF l(1) refl refl l(2)] 1(2)[OF l(1) refl refl l(2)]
      located_parse_alias[of ps' "trim l"] located_parse_slot_decl[of ps' "trim l"]
    by (auto split: option.split intro!: located_and_then dest: strip_prefix_sublist)
  then show ?case
    by (subst parse_layout_loop.simps) (auto simp: Let_def intro!: located_and_then[OF located_expect])
qed

lemma located_if: "(c \<Longrightarrow> located ls x) \<Longrightarrow> (\<not> c \<Longrightarrow> located ls y) \<Longrightarrow> located ls (if c then x else y)"
  by simp

lemma located_processor_line:
  assumes "at_line ps t"
  shows "located (plines ps) (parse_processor_line ps t p)"
proof -
  have hw: "located (plines ps) (parse_hardware ps)"
    using located_hardware_loop by (simp add: parse_hardware_def)
  have lay: "located (plines ps) (parse_layout ps)"
    unfolding parse_layout_def by (rule located_and_then[OF located_layout_loop]) (simp split: prod.split)
  show ?thesis
  proof (cases "strip_prefix ''width '' t")
    case None
    show ?thesis
      unfolding parse_processor_line_def None option.case
      by (intro located_if located_and_then[OF hw] located_and_then[OF lay] located_ok_or located_err
          line_kinds[OF assms] located_Inr) (simp_all split: prod.split)
  next
    case (Some rest)
    show ?thesis
      unfolding parse_processor_line_def Some option.case
      by (intro located_ok_or part_kinds(1)[OF assms] strip_prefix_sublist[OF Some] located_Inr)
  qed
qed

lemma located_processor_loop: "located (plines ps) (parse_processor_loop ps p)"
proof (induction ps p rule: parse_processor_loop.induct)
  case (1 ps p)
  have rest: "located (plines ps) (and_then (parse_processor_line ps' (trim l) p) (\<lambda>(p', ps''). parse_processor_loop ps'' p'))"
    if l: "expect_line (skip_blank ps) = Inr (l, ps')" "trim l \<noteq> ''}''" for l ps'
  proof (rule located_and_then)
    have here: "at_line ps' (trim l)" "plines ps' = plines ps" using skip_expect_at_line[OF l(1)] by simp_all
    show "located (plines ps) (parse_processor_line ps' (trim l) p)"
      using located_processor_line[OF here(1)] here(2) by simp
    show "located (plines ps) (case x of (p', ps'') \<Rightarrow> parse_processor_loop ps'' p')"
      if x: "parse_processor_line ps' (trim l) p = Inr x" for x
    proof -
      obtain p' ps'' where x': "x = (p', ps'')" by force
      then have "plines ps'' = plines ps"
        using parse_processor_line_advanced[OF x[unfolded x']] here(2) by (simp add: advanced_def)
      then show ?thesis using 1[OF l(1) refl refl l(2) x x'[symmetric]] x' by simp
    qed
  qed
  show ?case
    by (subst parse_processor_loop.simps, rule located_and_then[OF located_expect]) (auto simp: Let_def rest)
qed

lemma located_processor: "located (plines ps) (parse_processor ps)"
  unfolding parse_processor_def
proof (rule located_and_then[OF located_expect])
  fix x assume x: "expect_line ps = Inr x"
  obtain l ps' where x': "x = (l, ps')" by force
  have here: "at_line ps' (trim l)" "plines ps = plines ps'" using expect_at_line x x' by auto
  show "located (plines ps) (case x of (line, ps') \<Rightarrow>
      if trim line \<noteq> ''.processor {'' then Inl (err ps' (''expected '.processor {', got: '' @ trim line))
      else parse_processor_loop ps' initial_processor)"
    unfolding x' prod.case here(2)
    by (intro located_if located_err line_kinds[OF here(1)] located_processor_loop)
qed

lemma located_bundle_loop: "located (plines ps) (parse_bundle_loop ps proc ss i)"
proof (induction ps proc ss i rule: parse_bundle_loop.induct)
  case (1 ps proc ss i)
  have rest: "located (plines ps) (and_then (parse_slot ps' proc i (trim l)) (\<lambda>(slot_idx, syllable).
        parse_bundle_loop ps' proc (if slot_idx < length ss then ss[slot_idx := syllable] else ss) (i + 1)))"
    if l: "expect_line ps = Inr (l, ps')" "trim l \<noteq> ''}''" for l ps'
  proof (rule located_and_then)
    have here: "at_line ps' (trim l)" "plines ps' = plines ps" using expect_at_line[OF l(1)] by simp_all
    show "located (plines ps) (parse_slot ps' proc i (trim l))"
      using located_parse_slot[OF here(1)] here(2) by metis
    show "located (plines ps) (case x of (slot_idx, syllable) \<Rightarrow>
        parse_bundle_loop ps' proc (if slot_idx < length ss then ss[slot_idx := syllable] else ss) (i + 1))"
      if x: "parse_slot ps' proc i (trim l) = Inr x" for x
      using 1[OF l(1) refl refl l(2) x] here(2) by (cases x) simp
  qed
  show ?case
    by (subst parse_bundle_loop.simps, rule located_and_then[OF located_expect])
      (use rest in \<open>auto simp: Let_def\<close>)
qed

lemma located_bundle: "located (plines ps) (parse_bundle ps proc)"
proof -
  have "located (plines ps) (parse_bundle_loop ps' proc ss i)" if "expect_line ps = Inr (l, ps')" for l ps' ss i
    using located_bundle_loop[of ps'] expect_at_line[OF that] by simp
  then show ?thesis
    unfolding parse_bundle_def
    by (intro located_and_then[OF located_expect]) (auto intro!: located_and_then)
qed

lemma blames_stray:
  "peek ps = Some line \<Longrightarrow> blames (plines ps) (pos ps) (''unexpected: '' @ trim line)"
  by (auto simp: blames_def error_line_def quotes_def peek_def get_def split: if_splits)

lemma located_items_loop: "located (plines ps) (parse_items_loop ps proc its)"
proof (induction ps proc its rule: parse_items_loop.induct)
  case (1 ps proc its)
  have same: "plines (skip_blank ps) = plines ps" using skip_blank_props by blast
  have block: "located (plines ps) (and_then (parse_bundle (skip_blank ps) proc)
      (\<lambda>(b, ps'). parse_items_loop ps' proc (its @ [BundleItem b])))"
    if "peek (skip_blank ps) = Some line" "trim line = ''{''" for line
  proof (rule located_and_then)
    show "located (plines ps) (parse_bundle (skip_blank ps) proc)" using located_bundle same by metis
    show "located (plines ps) (case x of (b, ps') \<Rightarrow> parse_items_loop ps' proc (its @ [BundleItem b]))"
      if x: "parse_bundle (skip_blank ps) proc = Inr x" for x
    proof -
      obtain b ps' where x': "x = (b, ps')" by force
      then have "plines ps' = plines ps"
        using sane_bundle[of "skip_blank ps" proc] x same by (simp add: advanced_def)
      then show ?thesis
        using 1(1)[OF refl \<open>peek (skip_blank ps) = Some line\<close> refl \<open>trim line = ''{''\<close> x x'[symmetric]] x' by simp
    qed
  qed
  have label: "located (plines ps) (parse_items_loop (skip_blank ps\<lparr>pos := pos (skip_blank ps) + 1\<rparr>) proc (its @ [LabelItem lbl]))"
    if "peek (skip_blank ps) = Some line" "trim line \<noteq> ''{''" "strip_suffix '':'' (trim line) = Some lbl" for line lbl
    using 1(2)[OF refl that(1) refl that(2,3)] same by simp
  have stray: "located (plines ps) (Inl (err (skip_blank ps) (''unexpected: '' @ trim line)))"
    if "peek (skip_blank ps) = Some line" for line
    using located_err[OF blames_stray[OF that]] same by metis
  show ?case
    by (subst parse_items_loop.simps) (use block label stray in \<open>auto simp: Let_def split: option.split\<close>)
qed

lemma located_parse: "located (lines s) (parse s)"
proof -
  have same: "plines (skip_blank (parser_new s)) = lines s"
    using skip_blank_props[of "parser_new s"] by (simp add: parser_new_def)
  have its: "located (lines s) (parse_items_loop ps' proc [])"
    if "parse_processor (skip_blank (parser_new s)) = Inr (proc, ps')" for proc ps'
    using sane_processor[of "skip_blank (parser_new s)"] that same located_items_loop[of ps']
    by (simp add: advanced_def)
  have "located (lines s) (parse_processor (skip_blank (parser_new s)))"
    using located_processor same by metis
  then show ?thesis
    unfolding parse_def parse_program_def
    by (rule located_and_then) (auto intro!: located_and_then its)
qed

section \<open>Later lines do not matter\<close>

text \<open>
  Two parsers agree up to line \<open>k\<close> if they stand at the same line and the first \<open>k\<close> lines are the
  same.  A result follows another up to \<open>k\<close> if it is the same error whenever that one is about one of
  these lines, and the same value whenever that one has consumed no other lines.
\<close>

definition agree :: "nat \<Rightarrow> parser \<Rightarrow> parser \<Rightarrow> bool" where
  "agree k ps ps' \<longleftrightarrow> pos ps' = pos ps \<and> take k (plines ps') = take k (plines ps)"

definition follows :: "nat \<Rightarrow> parse_error + 'a \<times> parser \<Rightarrow> parse_error + 'a \<times> parser \<Rightarrow> bool" where
  "follows k r r' \<longleftrightarrow>
     (\<forall>n msg. r = Inl (Syntax n msg) \<longrightarrow> error_line n msg \<le> k \<longrightarrow> r' = Inl (Syntax n msg)) \<and>
     (\<forall>x q. r = Inr (x, q) \<longrightarrow> pos q \<le> k \<longrightarrow> (\<exists>q'. r' = Inr (x, q') \<and> agree k q q'))"

lemma follows_Inr [simp]: "agree k q q' \<Longrightarrow> follows k (Inr (x, q)) (Inr (x, q'))"
  by (simp add: follows_def)

lemma follows_Inl [simp]: "follows k (Inl e) (Inl e)"
  by (simp add: follows_def)

lemma error_line_ge: "n \<le> error_line n msg"
  by (simp add: error_line_def)

lemma follows_late: "k < pos q \<Longrightarrow> sane q r \<Longrightarrow> follows k r r'"
  using error_line_ge order_trans by (fastforce simp: follows_def sane_def advanced_def)

lemma follows_and_then:
  assumes "follows k r r'" "\<And>x q. r = Inr (x, q) \<Longrightarrow> sane q (f (x, q))"
    and "\<And>x q q'. r = Inr (x, q) \<Longrightarrow> agree k q q' \<Longrightarrow> follows k (f (x, q)) (f (x, q'))"
  shows "follows k (and_then r f) (and_then r' f)"
proof (cases r)
  case (Inl e)
  then show ?thesis using assms(1) by (auto simp: follows_def)
next
  case (Inr xq)
  obtain x q where xq: "xq = (x, q)" by force
  show ?thesis
  proof (cases "pos q \<le> k")
    case True
    then obtain q' where "r' = Inr (x, q')" "agree k q q'"
      using assms(1) Inr xq unfolding follows_def by blast
    then show ?thesis using assms(3)[of x q q'] Inr xq by simp
  next
    case False
    then show ?thesis using assms(2)[of x q] Inr xq by (intro follows_late) simp_all
  qed
qed

lemma follows_pure: "(\<And>x. r = Inr x \<Longrightarrow> follows k (f x) (g x)) \<Longrightarrow> follows k (and_then r f) (and_then r g)"
  by (cases r) simp_all

lemma agree_get: "agree k ps ps' \<Longrightarrow> p < k \<Longrightarrow> get (plines ps') p = get (plines ps) p"
proof -
  assume a: "agree k ps ps'" "p < k"
  have "get xs p = get (take k xs) p" for xs :: "string list" using a(2) by (auto simp: get_def)
  then show ?thesis using a(1) unfolding agree_def by metis
qed

lemma agree_peek: "agree k ps ps' \<Longrightarrow> pos ps < k \<Longrightarrow> peek ps' = peek ps"
  using agree_get[of k ps ps' "pos ps"] by (simp add: peek_def agree_def)

lemma agree_skip_blank: "agree k ps ps' \<Longrightarrow> pos (skip_blank ps) < k \<Longrightarrow> agree k (skip_blank ps) (skip_blank ps')"
proof (induction ps arbitrary: ps' rule: skip_blank.induct)
  case (1 ps)
  have "pos ps < k" using "1.prems"(2) skip_blank_props[of ps] by linarith
  then have peek: "peek ps' = peek ps" by (rule agree_peek[OF "1.prems"(1)])
  show ?case
  proof (cases "case peek ps of Some l \<Rightarrow> trim l = [] | None \<Rightarrow> False")
    case True
    have "skip_blank ps = skip_blank (ps\<lparr>pos := pos ps + 1\<rparr>)" "skip_blank ps' = skip_blank (ps'\<lparr>pos := pos ps' + 1\<rparr>)"
      using True peek by (subst skip_blank.simps, simp)+
    moreover have "agree k (ps\<lparr>pos := pos ps + 1\<rparr>) (ps'\<lparr>pos := pos ps' + 1\<rparr>)"
      using "1.prems"(1) by (simp add: agree_def)
    ultimately show ?thesis using "1.IH"[OF True] "1.prems"(2) by metis
  next
    case False
    then have "skip_blank ps = ps" "skip_blank ps' = ps'" using peek by (subst skip_blank.simps, simp)+
    then show ?thesis using "1.prems"(1) by simp
  qed
qed

lemma follows_expect: "agree k ps ps' \<Longrightarrow> follows k (expect_line ps) (expect_line ps')"
  using agree_get[of k ps ps' "pos ps"]
  by (auto simp: follows_def expect_line_Inr expect_line_Inl agree_def get_def split: if_splits)

lemma follows_skip_expect: "agree k ps ps' \<Longrightarrow> follows k (expect_line (skip_blank ps)) (expect_line (skip_blank ps'))"
proof -
  assume a: "agree k ps ps'"
  show ?thesis
  proof (cases "pos (skip_blank ps) < k")
    case True
    then show ?thesis using agree_skip_blank[OF a] follows_expect by blast
  next
    case False
    then show ?thesis by (auto simp: follows_def expect_line_Inr expect_line_Inl)
  qed
qed

text \<open>The declarations of one line look at the cursor only to report it.\<close>

lemma agree_pos: "agree k ps ps' \<Longrightarrow> pos ps' = pos ps"
  by (simp add: agree_def)

lemma same_pos:
  assumes "pos ps' = pos ps"
  shows "parse_unit ps' t = parse_unit ps t" "parse_alias ps' t r = parse_alias ps t r"
    "parse_slot_decl ps' t = parse_slot_decl ps t" "parse_slot ps' proc i t = parse_slot ps proc i t"
    "err ps' msg = err ps msg"
  by (simp_all only: parse_unit_def parse_alias_def parse_slot_decl_def parse_slot_def err_def assms)

lemma follows_hardware_loop: "agree k ps ps' \<Longrightarrow> follows k (parse_hardware_loop ps us) (parse_hardware_loop ps' us)"
proof (induction ps us arbitrary: ps' rule: parse_hardware_loop.induct)
  case (1 ps us)
  show ?case
  proof (subst (1 2) parse_hardware_loop.simps, rule follows_and_then[OF follows_skip_expect[OF "1.prems"]], goal_cases)
    case (1 l q)
    show ?case by (auto simp: Let_def intro!: sane_parse_unit sane_hardware_loop)
  next
    case (2 l q q')
    show ?case
      using "1.IH"[OF 2(1) refl refl] 2(2)
      by (auto simp: Let_def same_pos[OF agree_pos[OF 2(2)]] intro!: follows_pure)
  qed
qed

lemma follows_layout_loop:
  "agree k ps ps' \<Longrightarrow> follows k (parse_layout_loop ps aliases indexed) (parse_layout_loop ps' aliases indexed)"
proof (induction ps aliases indexed arbitrary: ps' rule: parse_layout_loop.induct)
  case (1 ps aliases indexed)
  show ?case
  proof (subst (1 2) parse_layout_loop.simps, rule follows_and_then[OF follows_skip_expect[OF "1.prems"]], goal_cases)
    case (1 l q)
    show ?case
      by (auto simp: Let_def split: option.split intro!: sane_parse_alias sane_parse_slot_decl sane_layout_loop)
  next
    case (2 l q q')
    show ?case
      using "1.IH"(1)[OF 2(1) refl refl] "1.IH"(2)[OF 2(1) refl refl] 2(2)
      by (auto simp: Let_def same_pos[OF agree_pos[OF 2(2)]] split: option.split intro!: follows_pure)
  qed
qed

lemma follows_layout: "agree k ps ps' \<Longrightarrow> follows k (parse_layout ps) (parse_layout ps')"
  unfolding parse_layout_def by (rule follows_and_then[OF follows_layout_loop]) auto

lemma follows_processor_line:
  assumes "agree k ps ps'"
  shows "follows k (parse_processor_line ps t p) (parse_processor_line ps' t p)"
proof -
  have hw: "follows k (and_then (parse_hardware ps) f) (and_then (parse_hardware ps') f)"
    if "\<And>x q. sane q (f (x, q))" "\<And>x q q'. agree k q q' \<Longrightarrow> follows k (f (x, q)) (f (x, q'))"
    for f :: "unit_decl list \<times> parser \<Rightarrow> parse_error + processor \<times> parser"
    unfolding parse_hardware_def by (rule follows_and_then[OF follows_hardware_loop[OF assms]]) (auto intro: that)
  have lay: "follows k (and_then (parse_layout ps) f) (and_then (parse_layout ps') f)"
    if "\<And>x q. sane q (f (x, q))" "\<And>x q q'. agree k q q' \<Longrightarrow> follows k (f (x, q)) (f (x, q'))"
    for f :: "(slot_alias list \<times> string list list) \<times> parser \<Rightarrow> parse_error + processor \<times> parser"
    by (rule follows_and_then[OF follows_layout[OF assms]]) (auto intro: that)
  show ?thesis
    using assms unfolding parse_processor_line_def same_pos(5)[OF agree_pos[OF assms]]
    by (auto simp del: append.simps split: option.split intro!: hw lay follows_pure)
qed

lemma follows_processor: "agree k ps ps' \<Longrightarrow> follows k (parse_processor ps) (parse_processor ps')"
proof -
  have loop: "agree k ps ps' \<Longrightarrow> follows k (parse_processor_loop ps p) (parse_processor_loop ps' p)" for ps ps' p
  proof (induction ps p arbitrary: ps' rule: parse_processor_loop.induct)
    case (1 ps p)
    show ?case
    proof (subst (1 2) parse_processor_loop.simps, rule follows_and_then[OF follows_skip_expect[OF "1.prems"]], goal_cases)
      case (1 l q)
      show ?case by (auto simp: Let_def intro!: sane_and_then[OF sane_processor_line] sane_processor_loop)
    next
      case (2 l q q')
      show ?case
        using "1.IH"[OF 2(1) refl refl] 2(2)
        by (auto simp: Let_def intro!: follows_and_then[OF follows_processor_line] sane_processor_loop)
    qed
  qed
  assume a: "agree k ps ps'"
  show ?thesis
    unfolding parse_processor_def
  proof (rule follows_and_then[OF follows_expect[OF a]], goal_cases)
    case (1 l q)
    show ?case by (auto simp: sane_processor_loop)
  next
    case (2 l q q')
    show ?case using 2(2) by (auto simp: same_pos(5)[OF agree_pos[OF 2(2)]] loop)
  qed
qed

lemma follows_bundle_loop:
  "agree k ps ps' \<Longrightarrow> follows k (parse_bundle_loop ps proc ss i) (parse_bundle_loop ps' proc ss i)"
proof (induction ps proc ss i arbitrary: ps' rule: parse_bundle_loop.induct)
  case (1 ps proc ss i)
  show ?case
  proof (subst (1 2) parse_bundle_loop.simps, rule follows_and_then[OF follows_expect[OF "1.prems"]], goal_cases)
    case (1 l q)
    show ?case by (auto simp: Let_def intro!: sane_parse_slot sane_bundle_loop)
  next
    case (2 l q q')
    have "follows k (parse_bundle_loop q proc ss' (i + 1)) (parse_bundle_loop q' proc ss' (i + 1))"
      if "trim l \<noteq> ''}''" "parse_slot q proc i (trim l) = Inr (j, s)" "ss' = (if j < length ss then ss[j := s] else ss)" for j s ss'
      using "1.IH"[OF 2(1) refl refl that(1,2) refl] 2(2) that(3) by simp
    then show ?case
      using 2(2) by (auto simp: Let_def same_pos[OF agree_pos[OF 2(2)]] intro!: follows_pure)
  qed
qed

lemma follows_bundle: "agree k ps ps' \<Longrightarrow> follows k (parse_bundle ps proc) (parse_bundle ps' proc)"
  unfolding parse_bundle_def
  by (rule follows_and_then[OF follows_expect])
    (auto intro!: sane_and_then[OF sane_bundle_loop] follows_and_then[OF follows_bundle_loop])

text \<open>
  The item loop ends well only at the end of the text, so that its value depends on all lines; its
  errors do not.
\<close>

lemma expect_beyond:
  assumes "\<And>l ps'. sane ps' (f (l, ps'))"
  shows "and_then (expect_line ps) f = Inl (Syntax n msg) \<Longrightarrow> pos ps < n"
    "and_then (expect_line ps) f = Inr (x, q) \<Longrightarrow> pos ps < pos q"
proof -
  assume "and_then (expect_line ps) f = Inl (Syntax n msg)"
  then obtain l ps' where "expect_line ps = Inr (l, ps')" "f (l, ps') = Inl (Syntax n msg)"
    by (cases "expect_line ps") (auto simp: expect_line_Inl)
  then show "pos ps < n" using assms[of ps' l] by (auto simp: sane_def expect_line_Inr)
next
  assume "and_then (expect_line ps) f = Inr (x, q)"
  then obtain l ps' where "expect_line ps = Inr (l, ps')" "f (l, ps') = Inr (x, q)"
    by (cases "expect_line ps") auto
  then show "pos ps < pos q" using assms[of ps' l] by (auto simp: advanced_def expect_line_Inr)
qed

lemma bundle_beyond:
  shows "parse_bundle ps proc = Inl (Syntax n msg) \<Longrightarrow> pos ps < n"
    "parse_bundle ps proc = Inr (b, ps') \<Longrightarrow> pos ps < pos ps'"
  unfolding parse_bundle_def by (erule expect_beyond[rotated], auto intro!: sane_and_then[OF sane_bundle_loop])+

lemma processor_beyond:
  shows "parse_processor ps = Inl (Syntax n msg) \<Longrightarrow> pos ps < n"
    "parse_processor ps = Inr (p, ps') \<Longrightarrow> pos ps < pos ps'"
  unfolding parse_processor_def by (erule expect_beyond[rotated], auto intro!: sane_processor_loop)+

lemma items_error_beyond:
  assumes "parse_items_loop ps proc its = Inl (Syntax n msg)"
  shows "pos (skip_blank ps) < error_line n msg"
proof -
  have later: "pos q \<le> error_line n msg" if "parse_items_loop q proc its' = Inl (Syntax n msg)" for q its'
    using sane_items_loop[of q proc its'] that error_line_ge[of n msg] by (simp add: sane_def)
  have block: "pos q < error_line n msg"
    if "and_then (parse_bundle q proc) (\<lambda>(b, ps'). parse_items_loop ps' proc (its @ [BundleItem b])) = Inl (Syntax n msg)" for q
    using that bundle_beyond[of q proc] later error_line_ge[of n msg]
    by (cases "parse_bundle q proc") fastforce+
  have label: "pos q < error_line n msg"
    if "parse_items_loop (q\<lparr>pos := Suc (pos q)\<rparr>) proc its' = Inl (Syntax n msg)" for q its'
    using later[OF that] by simp
  show ?thesis
    using assms
    by (subst (asm) parse_items_loop.simps)
      (auto simp: Let_def err_def error_line_def[of _ "''unexpected: '' @ _", simplified] intro: block label
        split: option.splits if_splits)
qed

lemma items_loop_error:
  assumes "agree k ps ps'" "parse_items_loop ps proc its = Inl (Syntax n msg)" "error_line n msg \<le> k"
  shows "parse_items_loop ps' proc its = Inl (Syntax n msg)"
  using assms
proof (induction ps proc its arbitrary: ps' rule: parse_items_loop.induct)
  case (1 ps proc its)
  let ?q = "skip_blank ps" and ?q' = "skip_blank ps'"
  have reached: "pos ?q < k" using items_error_beyond[OF "1.prems"(2)] "1.prems"(3) by simp
  have agree: "agree k ?q ?q'" by (rule agree_skip_blank[OF "1.prems"(1) reached])
  obtain line where line: "peek ?q = Some line"
    using "1.prems"(2) by (subst (asm) parse_items_loop.simps) (auto simp: Let_def split: option.splits)
  have line': "peek ?q' = Some line" using agree_peek[OF agree reached] line by simp
  consider (block) "trim line = ''{''"
    | (label) l where "trim line \<noteq> ''{''" "strip_suffix '':'' (trim line) = Some l"
    | (stray) "trim line \<noteq> ''{''" "strip_suffix '':'' (trim line) = None" by blast
  then show ?case
  proof cases
    case block
    let ?k = "\<lambda>(b, ps'). parse_items_loop ps' proc (its @ [BundleItem b])"
    have unf: "parse_items_loop ps proc its = and_then (parse_bundle ?q proc) ?k"
        "parse_items_loop ps' proc its = and_then (parse_bundle ?q' proc) ?k"
      using block line line' by (subst parse_items_loop.simps, simp)+
    note foll = follows_bundle[OF agree, of proc]
    show ?thesis
    proof (cases "parse_bundle ?q proc")
      case (Inl e)
      then show ?thesis using unf foll "1.prems"(2,3) by (auto simp: follows_def)
    next
      case (Inr bq)
      obtain b r where bq: "bq = (b, r)" by force
      have err: "parse_items_loop r proc (its @ [BundleItem b]) = Inl (Syntax n msg)"
        using unf(1) Inr bq "1.prems"(2) by simp
      then have "pos r \<le> k" using items_error_beyond[OF err] skip_blank_props[of r] "1.prems"(3) by linarith
      then obtain r' where "parse_bundle ?q' proc = Inr (b, r')" "agree k r r'"
        using foll Inr bq unfolding follows_def by blast
      then show ?thesis
        using unf(2) "1.IH"(1)[OF refl line refl block Inr bq[symmetric] _ err "1.prems"(3)] by simp
    qed
  next
    case (label l)
    have unf: "parse_items_loop ps proc its = parse_items_loop (?q\<lparr>pos := pos ?q + 1\<rparr>) proc (its @ [LabelItem l])"
        "parse_items_loop ps' proc its = parse_items_loop (?q'\<lparr>pos := pos ?q' + 1\<rparr>) proc (its @ [LabelItem l])"
      using label line line' by (simp_all add: Let_def parse_items_loop.simps[of ps] parse_items_loop.simps[of ps'])
    have "agree k (?q\<lparr>pos := pos ?q + 1\<rparr>) (?q'\<lparr>pos := pos ?q' + 1\<rparr>)" using agree by (simp add: agree_def)
    then show ?thesis using unf "1.IH"(2)[OF refl line refl label] "1.prems"(2,3) by simp
  next
    case stray
    then show ?thesis
      using "1.prems"(2) line line' same_pos(5)[OF agree_pos[OF agree]]
      by (subst (asm) parse_items_loop.simps, subst parse_items_loop.simps) (simp add: Let_def)
  qed
qed

lemma parse_error_stable:
  assumes "parse s = Inl (Syntax n msg)" "take (error_line n msg) (lines s') = take (error_line n msg) (lines s)"
  shows "parse s' = Inl (Syntax n msg)"
proof -
  let ?k = "error_line n msg" and ?q = "skip_blank (parser_new s)" and ?q' = "skip_blank (parser_new s')"
  have start: "agree ?k (parser_new s) (parser_new s')" using assms(2) by (simp add: agree_def parser_new_def)
  show ?thesis
  proof (cases "parse_processor ?q")
    case (Inl e)
    then have e: "e = Syntax n msg" using assms(1) by (simp add: parse_def parse_program_def)
    have "pos ?q < ?k" using processor_beyond(1)[OF Inl[unfolded e]] error_line_ge[of n msg] by simp
    then have "follows ?k (parse_processor ?q) (parse_processor ?q')"
      by (intro follows_processor agree_skip_blank[OF start])
    then show ?thesis using Inl e by (simp add: follows_def parse_def parse_program_def)
  next
    case (Inr pr)
    obtain proc r where pr: "pr = (proc, r)" by force
    have err: "parse_items_loop r proc [] = Inl (Syntax n msg)"
      using assms(1) Inr pr by (auto simp: parse_def parse_program_def result_simps)
    have r: "pos r \<le> ?k" using items_error_beyond[OF err] skip_blank_props[of r] by linarith
    moreover have "pos ?q < ?k" using processor_beyond(2)[OF Inr[unfolded pr]] r by simp
    ultimately obtain r' where "parse_processor ?q' = Inr (proc, r')" "agree ?k r r'"
      using follows_processor[OF agree_skip_blank[OF start]] Inr pr unfolding follows_def by blast
    then show ?thesis using items_loop_error[OF _ err] by (simp add: parse_def parse_program_def)
  qed
qed

text \<open>
  C33: a syntax error points at the line it is about.  The line is the one the error names, counted from
  one, except for a stray line between items (\<open>unexpected: ...\<close>), where it is the line after the one
  named.  It is a line of the text; the message quotes it, whole and trimmed or, for a width, an alias or slot
  index and a syllable, the part at fault; and it is the line that decides: every text that begins with
  the same lines up to and including this one fails with the same error, whatever comes after.
\<close>

theorem parse_error_located:
  assumes "parse s = Inl (Syntax n msg)"
  shows "0 < error_line n msg \<and> error_line n msg \<le> length (lines s) \<and>
    quotes (lines s ! (error_line n msg - 1)) msg \<and>
    (\<forall>s'. take (error_line n msg) (lines s') = take (error_line n msg) (lines s) \<longrightarrow> parse s' = Inl (Syntax n msg))"
proof -
  let ?k = "error_line n msg"
  have "blames (lines s) n msg" using located_parse[of s] assms by (simp add: located_def)
  moreover have "parse s' = Inl (Syntax n msg)" if "take ?k (lines s') = take ?k (lines s)" for s'
    using parse_error_stable[OF assms that] .
  ultimately show ?thesis by (simp add: blames_def)
qed

text \<open>A stray line after the header, and a line that belongs in no header: both errors carry the number 2.\<close>

definition stray_line :: string where
  "stray_line = ''.processor {'' @ [newline] @ ''}'' @ [newline] @ ''stray'' @ [newline]"

definition bad_header :: string where
  "bad_header = ''.processor {'' @ [newline] @ ''stray'' @ [newline]"

theorem parse_error_located_witness:
  "parse stray_line = Inl (Syntax 2 ''unexpected: stray'') \<and> quotes (lines stray_line ! 2) ''unexpected: stray'' \<and>
   parse bad_header = Inl (Syntax 2 ''unexpected in .processor: stray'') \<and>
   quotes (lines bad_header ! 1) ''unexpected in .processor: stray'' \<and>
   parse (bad_header @ ''}'') = Inl (Syntax 2 ''unexpected in .processor: stray'')"
proof -
  have stray: "parse stray_line = Inl (Syntax 2 ''unexpected: stray'')" by code_simp
  have header: "parse bad_header = Inl (Syntax 2 ''unexpected in .processor: stray'')" by code_simp
  have line: "error_line 2 ''unexpected: stray'' = 3" "error_line 2 ''unexpected in .processor: stray'' = 2"
    by (simp_all add: error_line_def)
  have same: "take 2 (lines (bad_header @ ''}'')) = take 2 (lines bad_header)" by code_simp
  have "quotes (lines stray_line ! 2) ''unexpected: stray''"
    using parse_error_located[OF stray] unfolding line by simp
  moreover have "quotes (lines bad_header ! 1) ''unexpected in .processor: stray''"
    "parse (bad_header @ ''}'') = Inl (Syntax 2 ''unexpected in .processor: stray'')"
    using parse_error_located[OF header] same unfolding line by (simp_all del: append.simps)
  ultimately show ?thesis using stray header by blast
qed

end
