(* ===== verification/IselSsa.thy ===== *)
theory IselSsa
  imports Isel
begin

text \<open>
  Instruction selection hands out virtual registers in single assignment: until the phi copies are
  inserted no register has two definitions, and every register read has one.
\<close>

section \<open>Single assignment\<close>

definition syl_defs :: "mir_syllable list \<Rightarrow> u32 list" where
  "syl_defs ss = List.map_filter dst_vreg ss"

definition syl_uses :: "mir_syllable list \<Rightarrow> u32 set" where
  "syl_uses ss = (\<Union>s \<in> set ss. set (src_vregs s))"

definition block_uses :: "block \<Rightarrow> u32 set" where
  "block_uses b = syl_uses (syllables b) \<union> set_option (term_vreg (terminator b))"

definition param_vregs :: "nat \<Rightarrow> u32 list" where
  "param_vregs np = map of_nat [0..<np]"

text \<open>Every register handed out so far: for a parameter, by a syllable, or for a phi.\<close>

definition defs_of :: "nat \<Rightarrow> isel_cx \<Rightarrow> u32 list" where
  "defs_of np cx = param_vregs np @ concat (map (syl_defs \<circ> syllables) (mir_blocks cx)) @
     syl_defs (cur_syls cx) @ map phi_dst (pending_phis cx)"

definition uses_of :: "isel_cx \<Rightarrow> u32 set" where
  "uses_of cx = (\<Union>b \<in> set (mir_blocks cx). block_uses b) \<union> syl_uses (cur_syls cx) \<union> set_option (term_vreg (cur_term cx))"

definition ssa_inv :: "nat \<Rightarrow> isel_cx \<Rightarrow> bool" where
  "ssa_inv np cx \<longleftrightarrow> distinct (defs_of np cx) \<and> (\<forall>d \<in> set (defs_of np cx). d < next_vreg cx) \<and>
     known cx \<subseteq> set (defs_of np cx) \<and> uses_of cx \<subseteq> set (defs_of np cx)"

lemma syl_defs_append [simp]: "syl_defs (ss @ ts) = syl_defs ss @ syl_defs ts"
  by (simp add: syl_defs_def List.map_filter_def)

lemma syl_defs_simps [simp]:
  "syl_defs [] = []" "dst_vreg s = None \<Longrightarrow> syl_defs [s] = []" "dst_vreg s = Some n \<Longrightarrow> syl_defs [s] = [n]"
  by (simp_all add: syl_defs_def List.map_filter_simps)

lemma syl_uses_append [simp]: "syl_uses (ss @ ts) = syl_uses ss \<union> syl_uses ts"
  by (simp add: syl_uses_def)

lemma syl_uses_simps [simp]: "syl_uses [] = {}" "syl_uses [s] = set (src_vregs s)"
  by (simp_all add: syl_uses_def)

lemma set_syl_defs: "n \<in> set (syl_defs ss) \<longleftrightarrow> (\<exists>s \<in> set ss. dst_vreg s = Some n)"
  by (simp add: syl_defs_def set_map_filter)

lemma term_vreg_Branch: "set_option (term_vreg t) = {n. \<exists>l. t = BranchT (VReg n) l}"
  by (auto simp: term_vreg_def split: terminator.splits reg.splits)

lemma less_succ_word:
  assumes "unat (n :: u32) + 1 < 2 ^ 32"
  shows "d < n + 1 \<longleftrightarrow> d < n \<or> d = n" "unat (n + 1) = unat n + 1"
proof -
  show u: "unat (n + 1) = unat n + 1" using assms by (simp add: unat_word_ariths)
  show "d < n + 1 \<longleftrightarrow> d < n \<or> d = n"
    unfolding word_less_nat_alt u by (auto simp: less_Suc_eq word_unat_eq_iff)
qed

lemma isel_step_next: "isel_step n cx cx' \<Longrightarrow> unat (next_vreg cx) + n < 2 ^ 32 \<Longrightarrow> unat (next_vreg cx') = unat (next_vreg cx) + n"
  by (induction rule: isel_step.induct) (simp_all add: less_succ_word(2) start_continuation_def)

lemma isel_run_next:
  "isel_run n cx cx' \<Longrightarrow> unat (next_vreg cx) + n < 2 ^ 32 \<Longrightarrow> unat (next_vreg cx') = unat (next_vreg cx) + n"
  by (induction rule: isel_run.induct) (auto simp: isel_step_next)

lemma ssa_inv_keep:
  assumes "ssa_inv np cx" "defs_of np cx' = defs_of np cx" "next_vreg cx' = next_vreg cx"
    and "known cx' \<subseteq> known cx" "uses_of cx' \<subseteq> uses_of cx \<union> known cx"
  shows "ssa_inv np cx'"
  using assms unfolding ssa_inv_def by auto

lemma ran_update_subset: "n \<in> S \<Longrightarrow> ran m \<subseteq> S \<Longrightarrow> ran (m(k \<mapsto> n)) \<subseteq> S"
  by (auto simp: ran_def split: if_splits)

lemma ssa_inv_step:
  assumes "isel_step n cx cx'" "ssa_inv np cx" "unat (next_vreg cx) + n < 2 ^ 32"
  shows "ssa_inv np cx'"
  using assms
proof (induction rule: isel_step.induct)
  case (emits s cx)
  have "defs_of np (push_syl s cx) = defs_of np cx" using emits(1) by (simp add: defs_of_def)
  then show ?case using emits by (auto simp: ssa_inv_def uses_of_def known_push)
next
  case (defs s cx)
  have d: "dst_vreg s = Some (next_vreg cx)" using defs(1) by (simp add: dst_vreg_def)
  have set: "set (defs_of np (push_syl s (fresh_cx cx))) = insert (next_vreg cx) (set (defs_of np cx))"
    using d by (auto simp: defs_of_def)
  have "next_vreg cx \<notin> set (defs_of np cx)" using defs(3) by (auto simp: ssa_inv_def)
  then have "distinct (defs_of np (push_syl s (fresh_cx cx)))"
    using defs(3) d by (auto simp: ssa_inv_def defs_of_def)
  then show ?case
    using defs d less_succ_word(1)[of "next_vreg cx"] unfolding ssa_inv_def set
    by (auto simp: uses_of_def known_push)
next
  case (binds m cx k)
  have "ran ((vreg_map cx)(k \<mapsto> m)) \<subseteq> known cx"
    using binds(1) by (intro ran_update_subset) (auto simp: known_def)
  then show ?case
    using binds(2) by (elim ssa_inv_keep) (auto simp: defs_of_def uses_of_def known_def)
next
  case (adds_phi p cx k)
  let ?cx' = "(fresh_cx cx)\<lparr>vreg_map := (vreg_map cx)(k \<mapsto> next_vreg cx), pending_phis := pending_phis cx @ [p]\<rparr>"
  have defs: "defs_of np ?cx' = defs_of np cx @ [next_vreg cx]" using adds_phi(1) by (simp add: defs_of_def)
  have "next_vreg cx \<notin> set (defs_of np cx)" using adds_phi(2) by (auto simp: ssa_inv_def)
  moreover have "known ?cx' \<subseteq> insert (next_vreg cx) (known cx)" "uses_of ?cx' = uses_of cx"
    by (auto simp: known_def ran_def uses_of_def split: if_splits)
  ultimately show ?case
    using adds_phi less_succ_word(1)[of "next_vreg cx"] unfolding ssa_inv_def defs by auto
next
  case (folds_gep base cx k off)
  have "known (cx\<lparr>gep_map := (gep_map cx)(k \<mapsto> (base, off))\<rparr>) \<subseteq> known cx"
    using folds_gep(1) by (auto simp: known_def split: if_splits)
  then show ?case
    using folds_gep(2) by (elim ssa_inv_keep) (auto simp: defs_of_def uses_of_def)
next
  case (ends t cx f tr)
  then show ?case
    by (elim ssa_inv_keep) (auto simp: defs_of_def uses_of_def known_def term_vreg_Branch)
next
  case (calls cont cx target)
  then show ?case
    by (elim ssa_inv_keep) (auto simp: defs_of_def uses_of_def known_def start_continuation_def block_uses_def term_vreg_def)
qed

lemma ssa_inv_run:
  "isel_run n cx cx' \<Longrightarrow> ssa_inv np cx \<Longrightarrow> unat (next_vreg cx) + n < 2 ^ 32 \<Longrightarrow> ssa_inv np cx'"
proof (induction rule: isel_run.induct)
  case (step m cx cx' n cx'')
  have "unat (next_vreg cx') = unat (next_vreg cx) + m" using isel_run_next[OF step.hyps(1)] step.prems(2) by simp
  then show ?case using step ssa_inv_step[OF step.hyps(2)] by simp
qed

lemma ssa_inv_enter: "ssa_inv np cx \<Longrightarrow> cur_syls cx = [] \<Longrightarrow> ssa_inv np (enter_block lbl cx)"
  by (erule ssa_inv_keep) (auto simp: enter_block_def defs_of_def uses_of_def known_def term_vreg_def)

lemma finish_block_sel [simp]:
  "next_vreg (finish_block lbl cx) = next_vreg cx" "vreg_map (finish_block lbl cx) = vreg_map cx"
  "gep_map (finish_block lbl cx) = gep_map cx" "pending_phis (finish_block lbl cx) = pending_phis cx"
  "cur_syls (finish_block lbl cx) = []" "cur_term (finish_block lbl cx) = ReturnT"
  by (simp_all add: finish_block_def Let_def split: option.splits)

lemma finish_block_blocks:
  "\<exists>latch. mir_blocks (finish_block lbl cx) =
     mir_blocks cx @ [\<lparr>label = cur_label cx, syllables = cur_syls cx, terminator = cur_term cx\<rparr>] @ latch \<and>
     (latch = [] \<or> (\<exists>fl. false_succ cx = Some fl \<and> fl \<in> set (visited cx) \<and>
        latch = [\<lparr>label = lbl @ ''__latch__'' @ fl, syllables = [], terminator = JumpT fl\<rparr>]))"
  by (simp add: finish_block_def Let_def split: option.splits)

lemma ssa_inv_finish: "ssa_inv np cx \<Longrightarrow> ssa_inv np (finish_block lbl cx)"
proof -
  assume inv: "ssa_inv np cx"
  obtain latch where bs: "mir_blocks (finish_block lbl cx) =
      mir_blocks cx @ [\<lparr>label = cur_label cx, syllables = cur_syls cx, terminator = cur_term cx\<rparr>] @ latch"
      "latch = [] \<or> (\<exists>fl. latch = [\<lparr>label = lbl @ ''__latch__'' @ fl, syllables = [], terminator = JumpT fl\<rparr>])"
    using finish_block_blocks by metis
  show ?thesis
    using inv bs by (elim ssa_inv_keep) (auto simp: defs_of_def uses_of_def known_def block_uses_def term_vreg_def)
qed

lemma lower_block_ssa:
  assumes "lower_block msize label_of lbl bb cx = Inr cx'" "ssa_inv np cx" "cur_syls cx = []"
    and "unat (next_vreg cx) + 4 * length (instructions bb) < 2 ^ 32"
  shows "ssa_inv np cx'" "unat (next_vreg cx') \<le> unat (next_vreg cx) + 4 * length (instructions bb)" "cur_syls cx' = []"
proof -
  obtain cx1 where cx1: "try_fold (lower_instr msize label_of lbl) (enter_block lbl cx) (instructions bb) = Inr cx1"
      "cx' = finish_block lbl cx1"
    using assms by (auto simp: lower_block_def result_simps)
  obtain n where n: "n \<le> 4 * length (instructions bb)" "isel_run n (enter_block lbl cx) cx1"
    using lower_instrs_run[OF cx1(1)] by blast
  have next_enter: "next_vreg (enter_block lbl cx) = next_vreg cx" by (simp add: enter_block_def)
  show "ssa_inv np cx'"
    using ssa_inv_finish ssa_inv_run[OF n(2) ssa_inv_enter[OF assms(2,3)]] n(1) assms(4) cx1(2) next_enter by simp
  show "unat (next_vreg cx') \<le> unat (next_vreg cx) + 4 * length (instructions bb)" "cur_syls cx' = []"
    using isel_run_next[OF n(2)] n(1) assms(4) cx1(2) next_enter by simp_all
qed

text \<open>The instructions of the blocks already lowered bound the registers handed out.\<close>

text \<open>The weight of the blocks visited so far is at most that of all blocks, for any weight of a block.\<close>

definition lowered_weight :: "(llvm_block \<Rightarrow> nat) \<Rightarrow> (string \<times> llvm_block) list \<Rightarrow> string list \<Rightarrow> nat" where
  "lowered_weight w bb_of ls = (\<Sum>l \<in> set ls. w (the (map_of bb_of l)))"

definition total_weight :: "(llvm_block \<Rightarrow> nat) \<Rightarrow> (string \<times> llvm_block) list \<Rightarrow> nat" where
  "total_weight w bb_of = sum_list (map (w \<circ> snd) bb_of)"

abbreviation lowered_size :: "(string \<times> llvm_block) list \<Rightarrow> string list \<Rightarrow> nat" where
  "lowered_size \<equiv> lowered_weight (length \<circ> instructions)"

abbreviation total_size :: "(string \<times> llvm_block) list \<Rightarrow> nat" where
  "total_size \<equiv> total_weight (length \<circ> instructions)"

lemma lowered_weight_le: "set ls \<subseteq> dom (map_of bb_of) \<Longrightarrow> lowered_weight w bb_of ls \<le> total_weight w bb_of"
proof (induction bb_of arbitrary: ls)
  case (Cons e bb_of)
  obtain l bb where e: "e = (l, bb)" by force
  let ?rest = "removeAll l ls"
  have "lowered_weight w (e # bb_of) ?rest = lowered_weight w bb_of ?rest"
    unfolding lowered_weight_def e by (intro sum.cong) auto
  also have "\<dots> \<le> total_weight w bb_of"
    using Cons.prems e by (intro Cons.IH) (auto simp: subset_iff dom_def split: if_splits)
  finally have rest: "lowered_weight w (e # bb_of) ?rest \<le> total_weight w bb_of" .
  have "lowered_weight w (e # bb_of) ls \<le> w bb + lowered_weight w (e # bb_of) ?rest"
  proof (cases "l \<in> set ls")
    case True
    then show ?thesis
      using sum.remove[of "set ls" l "\<lambda>l. w (the (map_of (e # bb_of) l))"]
      by (simp add: lowered_weight_def e)
  next
    case False
    then show ?thesis by (simp add: removeAll_id)
  qed
  then show ?case using rest by (simp add: total_weight_def e)
qed (simp add: lowered_weight_def)

lemma lowered_weight_Cons:
  "l \<notin> set ls \<Longrightarrow> map_of bb_of l = Some bb \<Longrightarrow> lowered_weight w bb_of (l # ls) = w bb + lowered_weight w bb_of ls"
  by (simp add: lowered_weight_def)

definition worklist_inv :: "nat \<Rightarrow> (string \<times> llvm_block) list \<Rightarrow> isel_cx \<Rightarrow> bool" where
  "worklist_inv np bb_of cx \<longleftrightarrow> ssa_inv np cx \<and> cur_syls cx = [] \<and> set (visited cx) \<subseteq> dom (map_of bb_of) \<and>
     unat (next_vreg cx) \<le> np + 4 * lowered_size bb_of (visited cx)"

lemma worklist_inv_block:
  assumes "lower_block msize label_of l bb (cx\<lparr>worklist := wl\<rparr>) = Inr cx'" "worklist_inv np bb_of cx"
    and "l \<notin> set (visited cx)" "map_of bb_of l = Some bb" "np + 4 * total_size bb_of < 2 ^ 32"
  shows "worklist_inv np bb_of cx'"
proof -
  let ?cx = "cx\<lparr>worklist := wl\<rparr>"
  have vis: "visited cx' = l # visited cx" using lower_block_visited[OF assms(1)] by simp
  have size: "lowered_size bb_of (l # visited cx) = length (instructions bb) + lowered_size bb_of (visited cx)"
    using lowered_weight_Cons[OF assms(3,4)] by simp
  have dom: "set (l # visited cx) \<subseteq> dom (map_of bb_of)" using assms(2,4) by (auto simp: worklist_inv_def)
  have room: "unat (next_vreg cx) + 4 * length (instructions bb) < 2 ^ 32"
    using assms(2,5) lowered_weight_le[OF dom, of "length \<circ> instructions"] size by (simp add: worklist_inv_def)
  have "ssa_inv np ?cx"
    using assms(2) by (auto simp: worklist_inv_def elim!: ssa_inv_keep simp: defs_of_def uses_of_def known_def)
  from lower_block_ssa[OF assms(1) this] show ?thesis
    using room assms(2) vis size dom by (simp add: worklist_inv_def)
qed

lemma lower_worklist_inv:
  assumes "lower_worklist msize label_of bb_of cx = Inr cx'" "worklist_inv np bb_of cx"
    and "np + 4 * total_size bb_of < 2 ^ 32"
  shows "worklist_inv np bb_of cx'"
proof -
  have "worklist_inv np bb_of cx' \<and> worklist cx' = []"
    using assms(1,2)
  proof (rule lower_worklist_invariant)
    fix cx l wl
    assume "worklist_inv np bb_of cx"
    then show "worklist_inv np bb_of (cx\<lparr>worklist := wl\<rparr>)"
      by (auto simp: worklist_inv_def elim!: ssa_inv_keep simp: defs_of_def uses_of_def known_def)
  qed (rule worklist_inv_block[OF _ _ _ _ assms(3)])
  then show ?thesis by blast
qed

lemma param_vregs_Suc: "param_vregs (Suc np) = param_vregs np @ [of_nat np]"
  by (simp add: param_vregs_def)

lemma add_params_inv:
  assumes "try_fold add_param cx vs = Inr cx'" "cur_syls cx = [] \<and> mir_blocks cx = [] \<and> pending_phis cx = []"
    and "known cx \<subseteq> set (param_vregs np)" "next_vreg cx = of_nat np" "cur_term cx = ReturnT"
    and "np + length vs < 2 ^ 32" "gep_map cx = Map.empty"
  shows "known cx' \<subseteq> set (param_vregs (np + length vs)) \<and> next_vreg cx' = of_nat (np + length vs) \<and>
    cur_syls cx' = [] \<and> mir_blocks cx' = [] \<and> pending_phis cx' = [] \<and> cur_term cx' = ReturnT \<and> visited cx' = visited cx"
  using assms
proof (induction vs arbitrary: cx np)
  case (Cons v vs)
  then obtain cx1 where cx1: "add_param cx v = Inr cx1" "try_fold add_param cx1 vs = Inr cx'"
    by (auto simp: result_simps)
  then obtain k where k: "try_fold add_param
      (cx\<lparr>vreg_map := (vreg_map cx)(k \<mapsto> next_vreg cx), next_vreg := next_vreg cx + 1\<rparr>) vs = Inr cx'"
    by (auto simp: add_param_def result_simps)
  have "ran ((vreg_map cx)(k \<mapsto> next_vreg cx)) \<subseteq> set (param_vregs (Suc np))"
    using Cons.prems(3,4) by (intro ran_update_subset) (auto simp: param_vregs_Suc known_def)
  then show ?case
    using Cons.IH[OF k, of "Suc np"] Cons.prems by (auto simp: known_def add.commute)
qed simp

lemma distinct_param_vregs: "np < 2 ^ 32 \<Longrightarrow> distinct (param_vregs np)"
  by (auto simp: param_vregs_def distinct_map inj_on_def word_of_nat_eq_iff take_bit_nat_eq_self)

lemma param_vregs_below: "np < 2 ^ 32 \<Longrightarrow> d \<in> set (param_vregs np) \<Longrightarrow> d < of_nat np"
  by (auto simp: param_vregs_def word_less_nat_alt unat_of_nat)

lemma select_blocks_inv:
  assumes "select_blocks msize f = Inr cx" "length (params f) + 4 * total_size (make_bb_of (basic_blocks f)) < 2 ^ 32"
  shows "worklist_inv (length (params f)) (make_bb_of (basic_blocks f)) cx"
proof -
  let ?bb_of = "make_bb_of (basic_blocks f)" and ?np = "length (params f)"
  obtain cx0 l where cx0: "try_fold add_param isel_cx_new (params f) = Inr cx0"
      "lower_worklist msize (make_label_of (basic_blocks f)) ?bb_of (cx0\<lparr>worklist := [l]\<rparr>) = Inr cx"
    using assms(1) by (auto simp: select_blocks_def result_simps Let_def)
  have np: "?np < 2 ^ 32" using assms(2) by simp
  have init: "known cx0 \<subseteq> set (param_vregs ?np)" "next_vreg cx0 = of_nat ?np" "cur_syls cx0 = []"
      "mir_blocks cx0 = []" "pending_phis cx0 = []" "cur_term cx0 = ReturnT" "visited cx0 = []"
    using add_params_inv[OF cx0(1), of 0] np by (auto simp: isel_cx_new_def known_def)
  have "worklist_inv ?np ?bb_of (cx0\<lparr>worklist := [l]\<rparr>)"
    using init distinct_param_vregs[OF np] param_vregs_below[OF np] np
    by (auto simp: worklist_inv_def ssa_inv_def defs_of_def uses_of_def known_def term_vreg_def lowered_weight_def unat_of_nat)
  then show ?thesis using lower_worklist_inv[OF cx0(2)] assms(2) by blast
qed

lemma total_weight_make_bb_of: "total_weight w (make_bb_of bbs) = sum_list (map w bbs)"
proof -
  have "map (w \<circ> snd) (map (\<lambda>(idx, bb). (block_label idx bb, bb)) (enumerate n bbs)) = map w bbs" for n
    by (induction bbs arbitrary: n) simp_all
  then show ?thesis by (simp add: total_weight_def make_bb_of_def rev_map flip: rev_map)
qed

section \<open>Phi copies\<close>

lemma set_add_copy:
  "(l', cs) \<in> set (add_copy l c entries) \<Longrightarrow> x \<in> set cs \<Longrightarrow> x = c \<or> (\<exists>cs'. (l', cs') \<in> set entries \<and> x \<in> set cs')"
  by (induction l c entries rule: add_copy.induct) (auto split: if_splits)

definition copy_known :: "isel_cx \<Rightarrow> phi_copy \<Rightarrow> bool" where
  "copy_known cx c \<longleftrightarrow> copy_dst c \<in> phi_dst ` set (pending_phis cx) \<and>
     (\<forall>n. copy_src c = VRegSrc n \<longrightarrow> n \<in> ran (vreg_map cx))"

lemma phi_edge_copy_known:
  assumes "phi_edge_copy cx phi entries edge = Inr entries'" "phi \<in> set (pending_phis cx)"
    and "\<forall>(l, cs) \<in> set entries. \<forall>c \<in> set cs. copy_known cx c"
  shows "\<forall>(l, cs) \<in> set entries'. \<forall>c \<in> set cs. copy_known cx c"
proof -
  obtain l src where entries': "entries' = add_copy l \<lparr>copy_dst = phi_dst phi, copy_src = src\<rparr> entries"
      and src: "\<forall>n. src = VRegSrc n \<longrightarrow> n \<in> ran (vreg_map cx)"
    using assms(1) by (fastforce simp: phi_edge_copy_def Let_def result_simps expect_some_def ran_def
        split: prod.splits raw_phi_val.splits)
  have new: "copy_known cx \<lparr>copy_dst = phi_dst phi, copy_src = src\<rparr>" using assms(2) src by (auto simp: copy_known_def)
  show ?thesis
    unfolding entries' using new assms(3) set_add_copy by fastforce
qed

lemma collect_copies_known:
  assumes "collect_copies cx = Inr entries"
  shows "\<forall>(l, cs) \<in> set entries. \<forall>c \<in> set cs. copy_known cx c"
  using assms unfolding collect_copies_def
proof (rule try_fold_invariant)
  fix entries phi entries'
  assume inv: "\<forall>(l, cs) \<in> set entries. \<forall>c \<in> set cs. copy_known cx c" and phi: "phi \<in> set (pending_phis cx)"
    and fold: "try_fold (phi_edge_copy cx phi) entries (phi_edges phi) = Inr entries'"
  show "\<forall>(l, cs) \<in> set entries'. \<forall>c \<in> set cs. copy_known cx c"
    using fold inv by (rule try_fold_invariant) (rule phi_edge_copy_known[OF _ phi])
qed simp

lemma collect_copies_below:
  assumes "ssa_inv np cx" "collect_copies cx = Inr entries" "(l, cs) \<in> set entries"
  shows "below (copy_pairs cs) (next_vreg cx)"
proof -
  have "copy_dst c < next_vreg cx \<and> (\<forall>n. copy_src c = VRegSrc n \<longrightarrow> n < next_vreg cx)" if "c \<in> set cs" for c
  proof -
    have "copy_known cx c" using collect_copies_known[OF assms(2)] assms(3) that by blast
    then have "copy_dst c \<in> set (defs_of np cx)" "\<forall>n. copy_src c = VRegSrc n \<longrightarrow> n \<in> set (defs_of np cx)"
      using assms(1) by (auto simp: copy_known_def ssa_inv_def defs_of_def known_def)
    then show ?thesis using assms(1) by (auto simp: ssa_inv_def)
  qed
  then show ?thesis by (auto simp: below_def copy_pairs_def)
qed

section \<open>Properties\<close>

text \<open>
  C12: instruction selection produces single-assignment code.  When the blocks of a function are
  selected, no virtual register is handed out twice, to parameters, syllables or phis; every
  register that a syllable or a branch reads has a definition; all numbers are below \<open>next_vreg\<close>,
  and so are the registers of every phi copy, so that the temporaries of phi lowering are fresh.
  The register counter does not wrap for functions of fewer than \<open>2^30\<close> instructions.
\<close>

theorem isel_single_assignment:
  assumes "select_blocks msize f = Inr cx"
    and "length (params f) + 4 * sum_list (map (length \<circ> instructions) (basic_blocks f)) < 2 ^ 32"
  defines "defined \<equiv> param_vregs (length (params f)) @ concat (map (syl_defs \<circ> syllables) (mir_blocks cx)) @
    map phi_dst (pending_phis cx)"
  shows "distinct defined \<and> (\<forall>d \<in> set defined. d < next_vreg cx) \<and>
    (\<forall>b \<in> set (mir_blocks cx). block_uses b \<subseteq> set defined) \<and>
    (\<forall>entries. collect_copies cx = Inr entries \<longrightarrow>
       (\<forall>(l, cs) \<in> set entries. below (copy_pairs cs) (next_vreg cx)))"
proof -
  let ?np = "length (params f)"
  have inv: "ssa_inv ?np cx" "cur_syls cx = []"
    using select_blocks_inv[OF assms(1)] assms(2) by (simp_all add: worklist_inv_def total_weight_make_bb_of)
  then have "defs_of ?np cx = defined" by (simp add: defs_of_def defined_def)
  then show ?thesis using inv collect_copies_below[OF inv(1)] by (auto simp: ssa_inv_def uses_of_def)
qed

theorem isel_single_assignment_witness:
  "\<exists>cx. select_blocks 0x10000 count_loop = Inr cx \<and> (\<forall>d \<in> set (map phi_dst (pending_phis cx)). d < next_vreg cx)"
proof -
  obtain cx where cx: "select_blocks 0x10000 count_loop = Inr cx" using count_loop_selected by blast
  then show ?thesis using isel_single_assignment[OF cx] by (auto simp: count_loop_size)
qed

end
