(* ===== verification/IselLayout.thy ===== *)
theory IselLayout
  imports Isel "HOL-Library.Sublist"
begin

text \<open>
  The order and the control flow of the blocks that instruction selection emits.  A conditional
  branch has one explicit target; its other target, and the continuation of a call, is whatever
  block comes next in the list.  The lemmas show that the worklist places the right block there.
\<close>

section \<open>What must come next\<close>

definition terminated :: "llvm_block \<Rightarrow> bool" where
  "terminated bb \<longleftrightarrow> instructions bb \<noteq> [] \<and> get_opcode (last (instructions bb)) \<in> {BrI, ReturnI} \<and>
     (\<forall>i \<in> set (butlast (instructions bb)). get_opcode i \<notin> {BrI, ReturnI})"

text \<open>The block labelled \<open>lbl\<close> ends in a conditional branch to \<open>t\<close> when true and \<open>fl\<close> when false.\<close>

definition cond_branch :: "labels \<Rightarrow> (string \<times> llvm_block) list \<Rightarrow> string \<Rightarrow> string \<Rightarrow> string \<Rightarrow> bool" where
  "cond_branch label_of bb_of lbl t fl \<longleftrightarrow>
     (\<exists>bb br. map_of bb_of lbl = Some bb \<and> br = last (instructions bb) \<and> get_opcode br = BrI \<and>
        br_condition br \<noteq> None \<and> label_at label_of (get (br_successors br) 0) = Inr t \<and>
        label_at label_of (get (br_successors br) 1) = Inr fl)"

definition latch_block :: "string \<Rightarrow> string \<Rightarrow> block" where
  "latch_block lbl fl = \<lparr>label = lbl @ ''__latch__'' @ fl, syllables = [], terminator = JumpT fl\<rparr>"

definition next_label_ok :: "labels \<Rightarrow> (string \<times> llvm_block) list \<Rightarrow> block \<Rightarrow> string \<Rightarrow> bool" where
  "next_label_ok label_of bb_of b l =
     (case terminator b of
        BranchT _ t \<Rightarrow> \<exists>lbl. prefix lbl (label b) \<and> cond_branch label_of bb_of lbl t l
      | DirectCallT _ cont \<Rightarrow> l = cont
      | _ \<Rightarrow> True)"

definition follows :: "labels \<Rightarrow> (string \<times> llvm_block) list \<Rightarrow> block \<Rightarrow> block \<Rightarrow> bool" where
  "follows label_of bb_of b b' \<longleftrightarrow> next_label_ok label_of bb_of b (label b') \<or>
     (\<exists>lbl c t fl. terminator b = BranchT c t \<and> prefix lbl (label b) \<and> cond_branch label_of bb_of lbl t fl \<and>
        b' = latch_block lbl fl)"

text \<open>A terminator that does not name all its successors leaves one to the layout.\<close>

definition needs_next :: "terminator \<Rightarrow> bool" where
  "needs_next t = (case t of BranchT _ _ \<Rightarrow> True | DirectCallT _ _ \<Rightarrow> True | _ \<Rightarrow> False)"

definition expects :: "labels \<Rightarrow> (string \<times> llvm_block) list \<Rightarrow> block list \<Rightarrow> string \<Rightarrow> bool" where
  "expects label_of bb_of bs l \<longleftrightarrow> bs = [] \<or> next_label_ok label_of bb_of (last bs) l"

lemma settled_expects: "bs = [] \<or> \<not> needs_next (terminator (last bs)) \<Longrightarrow> expects label_of bb_of bs l"
  by (auto simp: expects_def next_label_ok_def needs_next_def split: terminator.splits)

section \<open>Inside a block\<close>

definition inside :: "labels \<Rightarrow> (string \<times> llvm_block) list \<Rightarrow> string \<Rightarrow> isel_cx \<Rightarrow> bool" where
  "inside label_of bb_of lbl cx \<longleftrightarrow> successively (follows label_of bb_of) (mir_blocks cx) \<and>
     expects label_of bb_of (mir_blocks cx) (cur_label cx) \<and> prefix lbl (cur_label cx) \<and>
     (cur_label cx = lbl \<or> lbl \<in> label ` set (mir_blocks cx))"

lemma inside_step: "isel_step n cx cx' \<Longrightarrow> inside label_of bb_of lbl cx \<Longrightarrow> inside label_of bb_of lbl cx'"
proof (induction rule: isel_step.induct)
  case (calls cont cx target)
  then show ?case
    by (auto simp: inside_def start_continuation_def successively_append_iff expects_def follows_def next_label_ok_def
        split: terminator.splits)
qed (simp_all add: inside_def)

lemma inside_run: "isel_run n cx cx' \<Longrightarrow> inside label_of bb_of lbl cx \<Longrightarrow> inside label_of bb_of lbl cx'"
  by (rule isel_run_invariant[where P = "inside label_of bb_of lbl"]) (auto intro: inside_step)

text \<open>Only the last instruction of a block sets its exits.\<close>

definition no_exit :: "isel_cx \<Rightarrow> bool" where
  "no_exit cx \<longleftrightarrow> cur_term cx = ReturnT \<and> false_succ cx = None \<and> true_succ cx = None"

lemma lower_operand_no_exit: "lower_operand opr cx = Inr (v, cx') \<Longrightarrow> no_exit cx' = no_exit cx"
  by (auto simp: no_exit_def lower_operand_def result_simps Let_def split: llvm_operand.splits llvm_type.splits if_splits)

lemma lower_two_operands_no_exit: "lower_two_operands ma mb instr cx = Inr (vs, cx') \<Longrightarrow> no_exit cx' = no_exit cx"
  by (auto simp: lower_two_operands_def result_simps dest!: lower_operand_no_exit)

lemma lower_args_no_exit: "try_fold lower_arg cx args = Inr cx' \<Longrightarrow> no_exit cx' = no_exit cx"
proof -
  have "lower_arg c arg = Inr c' \<Longrightarrow> no_exit c' = no_exit c" for c arg c'
    by (auto simp: no_exit_def lower_arg_def result_simps Let_def split: prod.splits option.splits)
  then show "no_exit cx' = no_exit cx" if "try_fold lower_arg cx args = Inr cx'"
    by (intro try_fold_invariant[OF that, where P = "\<lambda>c. no_exit c = no_exit cx"]) auto
qed

lemma no_exit_update [simp]:
  "no_exit (push_syl s cx) = no_exit cx" "no_exit (cx\<lparr>vreg_map := m\<rparr>) = no_exit cx"
  "no_exit (cx\<lparr>next_vreg := n\<rparr>) = no_exit cx" "no_exit (cx\<lparr>gep_map := g\<rparr>) = no_exit cx"
  "no_exit (cx\<lparr>pending_phis := ps\<rparr>) = no_exit cx"
  "no_exit cx \<Longrightarrow> no_exit (split_at_call msize target cx)"
  by (simp_all add: no_exit_def split_at_call_def Let_def)

lemma lower_instr_no_exit:
  assumes "lower_instr msize label_of lbl cx instr = Inr cx'" "get_opcode instr \<notin> {BrI, ReturnI}" "no_exit cx"
  shows "no_exit cx'"
  using assms
  by (auto simp: lower_instr_def lower_phi_def lower_call_def lower_icmp_def
      lower_binary_def lower_store_def lower_load_def lower_gep_def result_simps Let_def
      split: instruction_opcode.splits option.splits if_splits
      dest!: lower_two_operands_no_exit lower_operand_no_exit lower_args_no_exit)

definition exit_ok :: "labels \<Rightarrow> llvm_block \<Rightarrow> isel_cx \<Rightarrow> bool" where
  "exit_ok label_of bb cx =
     (let br = last (instructions bb) in
      case cur_term cx of
        BranchT _ t \<Rightarrow> get_opcode br = BrI \<and> br_condition br \<noteq> None \<and> true_succ cx = Some t \<and>
          label_at label_of (get (br_successors br) 0) = Inr t \<and>
          (\<exists>fl. false_succ cx = Some fl \<and> label_at label_of (get (br_successors br) 1) = Inr fl)
      | JumpT t \<Rightarrow> true_succ cx = Some t \<and> false_succ cx = None
      | ReturnT \<Rightarrow> true_succ cx = None \<and> false_succ cx = None
      | DirectCallT _ _ \<Rightarrow> False)"

lemma last_instr_exit:
  assumes "lower_instr msize label_of lbl cx (last (instructions bb)) = Inr cx'"
    and "get_opcode (last (instructions bb)) \<in> {BrI, ReturnI}" "no_exit cx"
  shows "exit_ok label_of bb cx'"
proof (cases "get_opcode (last (instructions bb)) = BrI")
  case True
  then show ?thesis
    using assms by (auto simp: lower_instr_def lower_br_def exit_ok_def no_exit_def result_simps Let_def split: option.splits)
next
  case False
  then have ret: "get_opcode (last (instructions bb)) = ReturnI" using assms(2) by simp
  show ?thesis
    using assms(1,3) by (auto simp: lower_instr_def ret lower_return_def exit_ok_def no_exit_def result_simps Let_def
        split: list.splits llvm_operand.splits llvm_type.splits if_splits)
qed

lemma lower_instrs_last:
  assumes "try_fold (lower_instr msize label_of lbl) (enter_block lbl cx) (instructions bb) = Inr cx'" "terminated bb"
  shows "\<exists>cx1. no_exit cx1 \<and> lower_instr msize label_of lbl cx1 (last (instructions bb)) = Inr cx'"
proof -
  have split: "instructions bb = butlast (instructions bb) @ [last (instructions bb)]"
    using assms(2) by (simp add: terminated_def)
  obtain cx1 where cx1: "try_fold (lower_instr msize label_of lbl) (enter_block lbl cx) (butlast (instructions bb)) = Inr cx1"
      "lower_instr msize label_of lbl cx1 (last (instructions bb)) = Inr cx'"
    using assms(1) by (subst (asm) split) (auto simp: try_fold_append result_simps)
  have "no_exit (enter_block lbl cx)" by (simp add: no_exit_def enter_block_def)
  then have "no_exit cx1"
    by (rule try_fold_invariant[OF cx1(1)]) (use assms(2) lower_instr_no_exit in \<open>auto simp: terminated_def\<close>)
  then show ?thesis using cx1(2) by blast
qed

lemma lower_instrs_exit:
  assumes "try_fold (lower_instr msize label_of lbl) (enter_block lbl cx) (instructions bb) = Inr cx'" "terminated bb"
  shows "exit_ok label_of bb cx'"
  using lower_instrs_last[OF assms] last_instr_exit assms(2) unfolding terminated_def by blast

section \<open>Between blocks\<close>

definition jump_targets :: "terminator \<Rightarrow> string set" where
  "jump_targets t = (case t of BranchT _ l \<Rightarrow> {l} | JumpT l \<Rightarrow> {l} | _ \<Rightarrow> {})"

text \<open>
  Either the last block needs no particular successor, or the block it falls through to is at the
  head of the worklist and not yet visited.  Every target of a jump is visited or waiting.
\<close>

definition between :: "labels \<Rightarrow> (string \<times> llvm_block) list \<Rightarrow> isel_cx \<Rightarrow> bool" where
  "between label_of bb_of cx \<longleftrightarrow> successively (follows label_of bb_of) (mir_blocks cx) \<and>
     ((mir_blocks cx = [] \<or> \<not> needs_next (terminator (last (mir_blocks cx)))) \<or>
      (\<exists>l wl. worklist cx = l # wl \<and> l \<notin> set (visited cx) \<and> expects label_of bb_of (mir_blocks cx) l)) \<and>
     (\<forall>b \<in> set (mir_blocks cx). jump_targets (terminator b) \<subseteq> set (visited cx) \<union> set (worklist cx)) \<and>
     set (visited cx) \<subseteq> label ` set (mir_blocks cx)"

lemma between_skip:
  "between label_of bb_of cx \<Longrightarrow> worklist cx = l # wl \<Longrightarrow> l \<in> set (visited cx) \<Longrightarrow> between label_of bb_of (cx\<lparr>worklist := wl\<rparr>)"
  by (auto simp: between_def)

lemma run_blocks_grow:
  "isel_run n cx cx' \<Longrightarrow> \<exists>new. mir_blocks cx' = mir_blocks cx @ new \<and> (\<forall>b \<in> set new. jump_targets (terminator b) = {})"
proof (induction rule: isel_run.induct)
  case (step m cx cx' n cx'')
  obtain new where new: "mir_blocks cx' = mir_blocks cx @ new" "\<forall>b \<in> set new. jump_targets (terminator b) = {}"
    using step.IH by blast
  from step.hyps(2) show ?case
  proof cases
    case (calls cont target)
    then show ?thesis
      using new by (intro exI[of _ "new @ [last (mir_blocks cx'')]"])
        (auto simp: start_continuation_def jump_targets_def)
  qed (use new in auto)
qed simp

lemma finish_block_worklist:
  "worklist (finish_block lbl cx) =
     (case false_succ cx of Some fl \<Rightarrow> if fl \<in> set (visited cx) then [] else [fl] | None \<Rightarrow> []) @ worklist cx @
     (case true_succ cx of Some t \<Rightarrow> if t \<in> set (visited cx) then [] else [t] | None \<Rightarrow> [])"
  by (simp add: finish_block_def Let_def split: option.splits)

lemma finish_block_layout:
  "mir_blocks (finish_block lbl cx) =
     mir_blocks cx @ [\<lparr>label = cur_label cx, syllables = cur_syls cx, terminator = cur_term cx\<rparr>] @
     (case false_succ cx of Some fl \<Rightarrow> if fl \<in> set (visited cx) then [latch_block lbl fl] else [] | None \<Rightarrow> [])"
  by (simp add: finish_block_def Let_def latch_block_def split: option.splits)

lemma between_finish:
  assumes "inside label_of bb_of lbl cx" "exit_ok label_of bb cx" "map_of bb_of lbl = Some bb"
    and "\<forall>b \<in> set (mir_blocks cx). jump_targets (terminator b) \<subseteq> set (visited cx) \<union> set (worklist cx)"
    and "set (visited cx) \<subseteq> insert lbl (label ` set (mir_blocks cx))"
  shows "between label_of bb_of (finish_block lbl cx)"
proof -
  let ?b = "\<lparr>label = cur_label cx, syllables = cur_syls cx, terminator = cur_term cx\<rparr>"
  have link: "successively (follows label_of bb_of) (mir_blocks cx @ [?b])"
    using assms(1) by (auto simp: inside_def successively_append_iff expects_def follows_def)
  have labels: "set (visited cx) \<subseteq> label ` set (mir_blocks (finish_block lbl cx))"
    using assms(1,5) by (auto simp: finish_block_layout inside_def)
  have targets: "\<forall>b \<in> set (mir_blocks (finish_block lbl cx)).
      jump_targets (terminator b) \<subseteq> set (visited cx) \<union> set (worklist (finish_block lbl cx))"
    using assms(2,4)
    by (auto simp: finish_block_layout finish_block_worklist exit_ok_def jump_targets_def latch_block_def Let_def
        split: terminator.splits option.splits if_splits)
  have pre: "prefix lbl (cur_label cx)" using assms(1) by (simp add: inside_def)
  show ?thesis
  proof (cases "false_succ cx")
    case None
    then have "\<not> needs_next (cur_term cx)"
      using assms(2) by (auto simp: exit_ok_def needs_next_def Let_def split: terminator.splits)
    then show ?thesis
      using link labels targets None
      by (auto simp: between_def finish_block_visited finish_block_layout)
  next
    case (Some fl)
    then obtain c t where branch: "cur_term cx = BranchT c t" "cond_branch label_of bb_of lbl t fl"
      using assms(2,3) by (auto simp: exit_ok_def cond_branch_def Let_def split: terminator.splits)
    then have ok: "next_label_ok label_of bb_of ?b fl" "follows label_of bb_of ?b (latch_block lbl fl)"
      using pre by (auto simp: next_label_ok_def follows_def)
    show ?thesis
    proof (cases "fl \<in> set (visited cx)")
      case True
      have "\<not> needs_next (terminator (latch_block lbl fl))" by (simp add: needs_next_def latch_block_def)
      then show ?thesis
        using link labels targets Some True ok(2)
        by (auto simp: between_def finish_block_visited finish_block_layout successively_append_iff)
    next
      case False
      then show ?thesis
        using link labels targets Some ok(1)
        by (auto simp: between_def finish_block_visited finish_block_layout finish_block_worklist expects_def)
    qed
  qed
qed

lemma between_block:
  assumes "between label_of bb_of cx" "worklist cx = l # wl" "l \<notin> set (visited cx)" "map_of bb_of l = Some bb"
    and "lower_block msize label_of l bb (cx\<lparr>worklist := wl\<rparr>) = Inr cx'" "terminated bb"
  shows "between label_of bb_of cx'"
proof -
  let ?cx0 = "enter_block l (cx\<lparr>worklist := wl\<rparr>)"
  obtain cx1 where cx1: "try_fold (lower_instr msize label_of l) ?cx0 (instructions bb) = Inr cx1"
      "cx' = finish_block l cx1"
    using assms(5) by (auto simp: lower_block_def result_simps)
  obtain n where run: "isel_run n ?cx0 cx1" using lower_instrs_run[OF cx1(1)] by blast
  have "inside label_of bb_of l ?cx0"
    using assms(1,2) by (auto simp: between_def inside_def enter_block_def intro: settled_expects)
  then have "inside label_of bb_of l cx1" by (rule inside_run[OF run])
  moreover have "exit_ok label_of bb cx1" by (rule lower_instrs_exit[OF cx1(1) assms(6)])
  moreover obtain new where "mir_blocks cx1 = mir_blocks cx @ new" "\<forall>b \<in> set new. jump_targets (terminator b) = {}"
    using run_blocks_grow[OF run] by (auto simp: enter_block_def)
  moreover have "visited cx1 = l # visited cx" "worklist cx1 = wl"
    using isel_run_lists[OF run] by (simp_all add: enter_block_def)
  ultimately show ?thesis
    unfolding cx1(2) using assms(1,2,4) by (intro between_finish) (auto simp: between_def)
qed

lemma select_blocks_between:
  assumes "select_blocks msize f = Inr cx" "\<forall>bb \<in> set (basic_blocks f). terminated bb"
  defines "label_of \<equiv> make_label_of (basic_blocks f)" and "bb_of \<equiv> make_bb_of (basic_blocks f)"
  shows "between label_of bb_of cx \<and> worklist cx = []"
proof -
  obtain cx0 l where cx0: "try_fold add_param isel_cx_new (params f) = Inr cx0"
      "lower_worklist msize label_of bb_of (cx0\<lparr>worklist := [l]\<rparr>) = Inr cx"
    using assms(1) by (auto simp: select_blocks_def result_simps Let_def label_of_def bb_of_def)
  have "mir_blocks cx0 = [] \<and> visited cx0 = []"
    by (rule try_fold_invariant[OF cx0(1)]) (auto simp: isel_cx_new_def add_param_def result_simps)
  then have "between label_of bb_of (cx0\<lparr>worklist := [l]\<rparr>)" by (simp add: between_def)
  moreover have "terminated bb" if "map_of bb_of l = Some bb" for l bb
  proof -
    have "bb \<in> set (basic_blocks f)"
      using map_of_SomeD[OF that] by (auto simp: bb_of_def make_bb_of_def enumerate_eq_zip dest: set_zip_rightD)
    then show ?thesis using assms(2) by blast
  qed
  ultimately show ?thesis
    using lower_worklist_invariant[OF cx0(2), where P = "between label_of bb_of"] between_skip between_block by blast
qed

section \<open>Properties\<close>

text \<open>
  C11: instruction selection lays blocks out so that falling through is right.  Take a function whose
  blocks end in their only terminator.  In the list of blocks selected for it, the block after one
  that ends in a conditional branch is the block of the branch's false target, or a latch block
  that jumps there; the block after one that ends in a call is the call's continuation; and every
  label that a jump or a branch names is the label of a selected block.
\<close>

theorem isel_layout_correct:
  assumes "select_blocks msize f = Inr cx" "\<forall>bb \<in> set (basic_blocks f). terminated bb"
  defines "bs \<equiv> mir_blocks cx"
  shows "(\<forall>i < length bs. case terminator (bs ! i) of
      BranchT _ t \<Rightarrow> Suc i < length bs \<and>
        (\<exists>lbl fl. prefix lbl (label (bs ! i)) \<and>
           cond_branch (make_label_of (basic_blocks f)) (make_bb_of (basic_blocks f)) lbl t fl \<and>
           (label (bs ! Suc i) = fl \<or> bs ! Suc i = latch_block lbl fl))
    | DirectCallT _ cont \<Rightarrow> Suc i < length bs \<and> label (bs ! Suc i) = cont
    | _ \<Rightarrow> True) \<and>
    (\<forall>b \<in> set bs. jump_targets (terminator b) \<subseteq> label ` set bs)"
proof -
  let ?R = "follows (make_label_of (basic_blocks f)) (make_bb_of (basic_blocks f))"
  have inv: "between (make_label_of (basic_blocks f)) (make_bb_of (basic_blocks f)) cx" "worklist cx = []"
    using select_blocks_between[OF assms(1,2)] by auto
  then have link: "successively ?R bs" and settled: "bs = [] \<or> \<not> needs_next (terminator (last bs))"
      and targets: "\<forall>b \<in> set bs. jump_targets (terminator b) \<subseteq> label ` set bs"
    by (auto simp: between_def bs_def)
  show ?thesis
  proof (rule conjI[OF _ targets], intro allI impI)
    fix i assume i: "i < length bs"
    show "case terminator (bs ! i) of
        BranchT _ t \<Rightarrow> Suc i < length bs \<and>
          (\<exists>lbl fl. prefix lbl (label (bs ! i)) \<and>
             cond_branch (make_label_of (basic_blocks f)) (make_bb_of (basic_blocks f)) lbl t fl \<and>
             (label (bs ! Suc i) = fl \<or> bs ! Suc i = latch_block lbl fl))
      | DirectCallT _ cont \<Rightarrow> Suc i < length bs \<and> label (bs ! Suc i) = cont
      | _ \<Rightarrow> True"
    proof (cases "Suc i < length bs")
      case True
      then have "?R (bs ! i) (bs ! Suc i)" using link by (simp add: successively_conv_nth)
      then show ?thesis using True by (auto simp: follows_def next_label_ok_def split: terminator.splits)
    next
      case False
      then have "bs \<noteq> []" "i = length bs - 1" using i by auto
      then have "bs ! i = last bs" "bs \<noteq> []" by (simp_all add: last_conv_nth)
      then show ?thesis using settled by (auto simp: needs_next_def split: terminator.splits)
    qed
  qed
qed

text \<open>Applied to the counting loop, whose header branches back to itself through a latch block.\<close>

theorem isel_layout_correct_witness:
  "\<exists>cx. select_blocks 0x10000 count_loop = Inr cx \<and> (\<forall>b \<in> set (mir_blocks cx). jump_targets (terminator b) \<subseteq> label ` set (mir_blocks cx))"
proof -
  obtain cx where cx: "select_blocks 0x10000 count_loop = Inr cx" using count_loop_selected by blast
  have "\<forall>bb \<in> set (basic_blocks count_loop). terminated bb"
    by (simp add: count_loop_def terminated_def jump_to_def plain_instr_def)
  then show ?thesis using cx isel_layout_correct[OF cx] by blast
qed

end
