(* ===== verification/IselSafe.thy ===== *)
theory IselSafe
  imports IselSsa IselLayout
begin

text \<open>
  Instruction selection on functions of a form it can select: it visits exactly the blocks that the
  entry reaches, and none of its lookups panics.  The form is LLVM's own well-formedness, with
  dominance stated on the block labels, and a list of limits beyond it; valid LLVM functions outside
  these limits can make the code panic.
\<close>

section \<open>Panic-free results\<close>

definition safe :: "compile_error + 'a \<Rightarrow> bool" where
  "safe r \<longleftrightarrow> (\<forall>msg. r \<noteq> Inl (Panic msg))"

lemma safe_simps [simp]: "safe (Inr x)" "safe (Inl (NotImplemented s))" "safe (Inl (UnsupportedFeature s))"
  by (simp_all add: safe_def)

lemma safe_and_then: "safe r \<Longrightarrow> (\<And>x. r = Inr x \<Longrightarrow> safe (g x)) \<Longrightarrow> safe (and_then r g)"
  by (cases r) (simp_all add: safe_def)

lemma safe_expect: "opt \<noteq> None \<Longrightarrow> safe (expect_some opt msg)"
  by (auto simp: expect_some_def)

lemma expect_Some [simp]: "expect_some (Some x) msg = Inr x"
  by (simp add: expect_some_def)

lemma safe_try_map: "(\<And>x. x \<in> set xs \<Longrightarrow> safe (g x)) \<Longrightarrow> safe (try_map g xs)"
  by (induction xs) (auto intro!: safe_and_then)

lemma safe_try_fold:
  assumes "P s" "\<And>s x. P s \<Longrightarrow> x \<in> set xs \<Longrightarrow> safe (g s x)"
    and "\<And>s x s'. P s \<Longrightarrow> x \<in> set xs \<Longrightarrow> g s x = Inr s' \<Longrightarrow> P s'"
  shows "safe (try_fold g s xs)"
  using assms
proof (induction xs arbitrary: s)
  case (Cons x xs)
  have "safe (try_fold g s' xs)" if "g s x = Inr s'" for s'
  proof (rule Cons.IH)
    show "P s'" using Cons.prems(3)[OF Cons.prems(1) _ that] by simp
    show "P t'" if "P t" "y \<in> set xs" "g t y = Inr t'" for t y t'
      using Cons.prems(3)[OF that(1) _ that(3)] that(2) by simp
  qed (use Cons.prems(2) in simp)
  then show ?case using Cons.prems(1,2) by (auto intro!: safe_and_then)
qed simp

section \<open>What an instruction needs and defines\<close>

definition operand_needs :: "llvm_operand \<Rightarrow> nat set" where
  "operand_needs opr =
     (case opr of
        ValueOp v \<Rightarrow> (case value_type v of IntType _ \<Rightarrow> if is_const v then {} else {value_key v} | _ \<Rightarrow> {})
      | BlockOp _ \<Rightarrow> {})"

definition is_binary :: "instruction_opcode \<Rightarrow> bool" where
  "is_binary op \<longleftrightarrow> binary_opcode op \<noteq> None"

definition needs :: "llvm_instr \<Rightarrow> nat set" where
  "needs instr =
     (case get_opcode instr of
        BrI \<Rightarrow> (case br_condition instr of Some c \<Rightarrow> {value_key c} | None \<Rightarrow> {})
      | CallI \<Rightarrow> value_key ` {v \<in> set (arg_operands instr). const_int v = None}
      | PhiI \<Rightarrow> {}
      | LoadI \<Rightarrow> {}
      | GetElementPtrI \<Rightarrow> {}
      | _ \<Rightarrow> \<Union> (operand_needs ` set (get_operands instr)))"

definition defines_vreg :: "llvm_instr \<Rightarrow> bool" where
  "defines_vreg instr \<longleftrightarrow>
     get_opcode instr \<in> {PhiI, ICmpI, LoadI} \<or> is_binary (get_opcode instr) \<or>
     get_opcode instr = CallI \<and> get_type instr \<noteq> VoidType"

definition int_operand :: "llvm_operand \<Rightarrow> bool" where
  "int_operand opr = (case opr of ValueOp v \<Rightarrow> (\<exists>w. value_type v = IntType w) | BlockOp _ \<Rightarrow> False)"

definition two_int_operands :: "llvm_instr \<Rightarrow> bool" where
  "two_int_operands instr \<longleftrightarrow> (\<exists>a b. get_operands instr = [a, b] \<and> int_operand a \<and> int_operand b)"

text \<open>The operands each kind of instruction has, and the blocks it names.\<close>

definition instr_ok :: "labels \<Rightarrow> llvm_instr \<Rightarrow> bool" where
  "instr_ok label_of instr \<longleftrightarrow>
     (get_opcode instr = PhiI \<longrightarrow> (\<forall>(v, k) \<in> set (phi_incoming instr). label_of k \<noteq> None)) \<and>
     (get_opcode instr = BrI \<longrightarrow> (\<forall>k \<in> set (br_successors instr). label_of k \<noteq> None) \<and>
        length (br_successors instr) = (if br_condition instr = None then 1 else 2)) \<and>
     (get_opcode instr = ICmpI \<longrightarrow> icmp_predicate instr \<noteq> None) \<and>
     (get_opcode instr = ICmpI \<or> is_binary (get_opcode instr) \<longrightarrow> two_int_operands instr) \<and>
     (get_opcode instr = StoreI \<longrightarrow> length (get_operands instr) = 2) \<and>
     (get_opcode instr \<in> {LoadI, GetElementPtrI} \<longrightarrow> get_operands instr \<noteq> [])"

section \<open>Lowering an instruction does not panic\<close>

lemma safe_lower_operand:
  "int_operand opr \<Longrightarrow> operand_needs opr \<subseteq> dom (vreg_map cx) \<Longrightarrow> safe (lower_operand opr cx)"
  by (auto simp: int_operand_def operand_needs_def lower_operand_def Let_def split: llvm_operand.splits
      intro!: safe_and_then safe_expect)

lemma lower_operand_vreg_map: "lower_operand opr cx = Inr (v, cx') \<Longrightarrow> vreg_map cx' = vreg_map cx"
  by (auto simp: lower_operand_def result_simps Let_def split: llvm_operand.splits llvm_type.splits if_splits)

lemma safe_lower_ptr: "safe (lower_ptr_operand opr cx)"
  by (auto simp: lower_ptr_operand_def split: llvm_operand.splits option.splits)

lemma safe_two_operands:
  assumes "two_int_operands instr" "\<Union> (operand_needs ` set (get_operands instr)) \<subseteq> dom (vreg_map cx)"
  shows "safe (lower_two_operands ma mb instr cx)"
  using assms
  by (auto simp: two_int_operands_def lower_two_operands_def split: prod.splits
      intro!: safe_and_then safe_expect safe_lower_operand dest!: lower_operand_vreg_map)

lemma safe_lower_phi:
  "\<forall>(v, k) \<in> set (phi_incoming instr). label_of k \<noteq> None \<Longrightarrow> safe (lower_phi label_of lbl instr cx)"
  by (auto simp: lower_phi_def Let_def raw_phi_edge_def label_at_def
      intro!: safe_and_then safe_try_map safe_expect split: prod.splits)

lemma safe_lower_br:
  assumes "\<forall>k \<in> set (br_successors instr). label_of k \<noteq> None"
    and "length (br_successors instr) = (if br_condition instr = None then 1 else 2)"
    and "\<And>c. br_condition instr = Some c \<Longrightarrow> value_key c \<in> dom (vreg_map cx)"
  shows "safe (lower_br label_of instr cx)"
proof -
  have "safe (label_at label_of (get (br_successors instr) i))" if "i < length (br_successors instr)" for i
    using that assms(1) by (auto simp: label_at_def get_def intro!: safe_expect)
  then show ?thesis
    using assms(2,3) by (auto simp: lower_br_def split: option.splits intro!: safe_and_then safe_expect)
qed

lemma safe_lower_return:
  assumes "\<Union> (operand_needs ` set (get_operands instr)) \<subseteq> dom (vreg_map cx)"
  shows "safe (lower_return instr cx)"
  using assms
  by (auto simp: lower_return_def operand_needs_def split: list.splits llvm_operand.splits llvm_type.splits
      intro!: safe_and_then safe_expect)

lemma lower_arg_vreg_map: "lower_arg cx arg = Inr cx' \<Longrightarrow> vreg_map cx' = vreg_map cx"
  by (auto simp: lower_arg_def result_simps Let_def split: prod.splits option.splits)

lemma safe_lower_args:
  assumes "value_key ` {v \<in> set args. const_int v = None} \<subseteq> dom (vreg_map cx)"
  shows "safe (try_fold lower_arg cx (enumerate 0 args))"
proof (rule safe_try_fold[where P = "\<lambda>c. vreg_map c = vreg_map cx"])
  fix c :: isel_cx and arg :: "nat \<times> llvm_value"
  assume c: "vreg_map c = vreg_map cx" and "arg \<in> set (enumerate 0 args)"
  then have "snd arg \<in> set args" using nth_mem by (fastforce simp: in_set_enumerate_eq)
  then have "value_key (snd arg) \<in> dom (vreg_map c)" if "const_int (snd arg) = None"
    using that assms unfolding c by blast
  then show "safe (lower_arg c arg)"
    by (auto simp: lower_arg_def Let_def split: prod.splits option.splits intro!: safe_and_then safe_expect)
qed (auto dest: lower_arg_vreg_map)

lemma safe_lower_call:
  assumes "value_key ` {v \<in> set (arg_operands instr). const_int v = None} \<subseteq> dom (vreg_map cx)"
  shows "safe (lower_call msize instr cx)"
  using safe_lower_args[OF assms] by (auto simp: lower_call_def Let_def intro!: safe_and_then)

lemma safe_lower_icmp:
  assumes "icmp_predicate instr \<noteq> None" "two_int_operands instr"
    and "\<Union> (operand_needs ` set (get_operands instr)) \<subseteq> dom (vreg_map cx)"
  shows "safe (lower_icmp instr cx)"
proof -
  have "safe (icmp_selection pred a b)" for pred a b by (cases pred) (simp_all add: icmp_selection_def)
  then show ?thesis
    using safe_two_operands[OF assms(2,3)] assms(1)
    by (auto simp: lower_icmp_def Let_def split: prod.splits intro!: safe_and_then safe_expect)
qed

lemma safe_lower_binary:
  assumes "two_int_operands instr" "\<Union> (operand_needs ` set (get_operands instr)) \<subseteq> dom (vreg_map cx)"
  shows "safe (lower_binary op instr cx)"
  using safe_two_operands[OF assms] by (auto simp: lower_binary_def Let_def split: prod.splits intro!: safe_and_then)

lemma store_opcode_int: "store_opcode opr = Inr op \<Longrightarrow> int_operand opr"
  by (auto simp: store_opcode_def int_operand_def split: llvm_operand.splits llvm_type.splits if_splits)

lemma safe_lower_store:
  assumes "length (get_operands instr) = 2" "\<Union> (operand_needs ` set (get_operands instr)) \<subseteq> dom (vreg_map cx)"
  shows "safe (lower_store instr cx)"
proof -
  obtain a b where ops: "get_operands instr = [a, b]"
    using assms(1) by (auto simp: length_Suc_conv numeral_2_eq_2)
  have "safe (store_opcode a)"
    by (auto simp: store_opcode_def split: llvm_operand.splits llvm_type.splits)
  then show ?thesis
    using assms(2) ops
    by (auto simp: lower_store_def safe_lower_ptr split: prod.splits intro!: safe_and_then safe_expect safe_lower_operand
        dest: store_opcode_int)
qed

lemma safe_lower_load: "get_operands instr \<noteq> [] \<Longrightarrow> safe (lower_load instr cx)"
proof -
  have "safe (load_opcode ty)" for ty by (auto simp: load_opcode_def split: llvm_type.splits)
  then show "get_operands instr \<noteq> [] \<Longrightarrow> safe (lower_load instr cx)"
    by (auto simp: lower_load_def Let_def get_def safe_lower_ptr split: prod.splits intro!: safe_and_then safe_expect)
qed

lemma safe_lower_gep: "get_operands instr \<noteq> [] \<Longrightarrow> safe (lower_gep instr cx)"
proof -
  have "safe (gep_index n off opr)" for n off opr
    by (auto simp: gep_index_def split: llvm_operand.splits llvm_type.splits)
  moreover have "safe (int_type_byte_size ty)" for ty by (auto simp: int_type_byte_size_def split: llvm_type.splits)
  ultimately show "get_operands instr \<noteq> [] \<Longrightarrow> safe (lower_gep instr cx)"
    by (auto simp: lower_gep_def get_def safe_lower_ptr split: prod.splits
        intro!: safe_and_then safe_expect safe_try_fold[where P = "\<lambda>_. True"])
qed

lemma safe_lower_instr:
  assumes "instr_ok label_of instr" "needs instr \<subseteq> dom (vreg_map cx)"
  shows "safe (lower_instr msize label_of lbl cx instr)"
proof (cases "binary_opcode (get_opcode instr)")
  case None
  then show ?thesis
    using assms unfolding lower_instr_def instr_ok_def needs_def
    by (cases "get_opcode instr")
      (auto simp: binary_opcode_def intro!: safe_lower_phi safe_lower_return safe_lower_br safe_lower_call
        safe_lower_icmp safe_lower_store safe_lower_load safe_lower_gep)
next
  case (Some op)
  then have "safe (lower_binary op instr cx)"
    using assms by (intro safe_lower_binary)
      (auto simp: instr_ok_def is_binary_def needs_def binary_opcode_def split: instruction_opcode.splits)
  then show ?thesis
    using Some by (auto simp: lower_instr_def binary_opcode_def split: instruction_opcode.splits)
qed

section \<open>Control flow\<close>

abbreviation label_map :: "llvm_function \<Rightarrow> labels" where
  "label_map f \<equiv> make_label_of (basic_blocks f)"

abbreviation block_map :: "llvm_function \<Rightarrow> (string \<times> llvm_block) list" where
  "block_map f \<equiv> make_bb_of (basic_blocks f)"

definition exits :: "labels \<Rightarrow> llvm_block \<Rightarrow> string set" where
  "exits label_of bb =
     (let br = last (instructions bb)
      in if get_opcode br = BrI then {l. \<exists>k \<in> set (br_successors br). label_of k = Some l} else {})"

text \<open>
  A path of the control-flow graph from the entry: the blocks passed, latest first, and the block
  it has arrived at.
\<close>

inductive cfg_path :: "llvm_function \<Rightarrow> string list \<Rightarrow> string \<Rightarrow> bool" for f where
  entry: "basic_blocks f \<noteq> [] \<Longrightarrow> label_map f (block_key (hd (basic_blocks f))) = Some l \<Longrightarrow> cfg_path f [] l"
| edge: "cfg_path f ls l \<Longrightarrow> map_of (block_map f) l = Some bb \<Longrightarrow> l' \<in> exits (label_map f) bb \<Longrightarrow> cfg_path f (l # ls) l'"

definition reachable :: "llvm_function \<Rightarrow> string \<Rightarrow> bool" where
  "reachable f l \<longleftrightarrow> (\<exists>ls. cfg_path f ls l)"

definition dominates :: "llvm_function \<Rightarrow> string \<Rightarrow> string \<Rightarrow> bool" where
  "dominates f a b \<longleftrightarrow> (\<forall>ls. cfg_path f ls b \<longrightarrow> a \<in> set ls)"

definition defs :: "llvm_instr list \<Rightarrow> nat set" where
  "defs instrs = value_ref ` {i \<in> set instrs. defines_vreg i}"

lemma defs_simps [simp]: "defs [] = {}" "defs (xs @ ys) = defs xs \<union> defs ys"
  by (auto simp: defs_def)

text \<open>
  The functions selection can handle.  From LLVM's verifier come: blocks end in their only
  terminator, instructions have as many operands as their kind asks for, the blocks they name exist,
  and a value is used only where a parameter, an earlier instruction of the block or a dominating
  block defines it.  The definition asks for more than the verifier does:
  every block, reachable or not, ends in \<open>br\<close> or \<open>ret\<close>;
  parameters are integers or pointers;
  comparisons and binary operations have integer operands, not pointers or vectors;
  a branch condition is a parameter or the result of an instruction, never a constant;
  a call argument is an integer constant, a parameter or the result of an instruction, never another
  constant such as a null pointer, \<open>undef\<close> or the address of a global;
  and the instructions whose results are used so are those that get a register: phi, comparison, load,
  binary operation and non-void call, not \<open>alloca\<close> or \<open>getelementptr\<close>.
\<close>

definition selectable :: "llvm_function \<Rightarrow> bool" where
  "selectable f \<longleftrightarrow>
     basic_blocks f \<noteq> [] \<and>
     (\<forall>v \<in> set (params f). value_type v = PointerType \<or> (\<exists>w. value_type v = IntType w)) \<and>
     (\<forall>bb \<in> set (basic_blocks f). terminated bb \<and> (\<forall>i \<in> set (instructions bb). instr_ok (label_map f) i)) \<and>
     (\<forall>l bb pre i post. reachable f l \<longrightarrow> map_of (block_map f) l = Some bb \<longrightarrow> instructions bb = pre @ i # post \<longrightarrow>
        needs i \<subseteq> value_key ` set (params f) \<union> defs pre \<union>
          {k. \<exists>a bb'. dominates f a l \<and> map_of (block_map f) a = Some bb' \<and> k \<in> defs (instructions bb')})"

lemma block_map_in: "map_of (block_map f) l = Some bb \<Longrightarrow> bb \<in> set (basic_blocks f)"
  by (drule map_of_SomeD) (auto simp: make_bb_of_def enumerate_eq_zip dest: set_zip_rightD)

lemma label_map_block: "label_map f k = Some l \<Longrightarrow> map_of (block_map f) l \<noteq> None"
  unfolding map_of_eq_None_iff make_label_of_def make_bb_of_def by (drule map_of_SomeD) force

lemma reachable_block: "reachable f l \<Longrightarrow> map_of (block_map f) l \<noteq> None"
  unfolding reachable_def
proof (elim exE)
  fix ls assume "cfg_path f ls l"
  then show "map_of (block_map f) l \<noteq> None"
    by cases (auto simp: exits_def Let_def split: if_splits dest: label_map_block)
qed

section \<open>Lowering a block\<close>

lemma isel_run_dom: "isel_run n cx cx' \<Longrightarrow> dom (vreg_map cx) \<subseteq> dom (vreg_map cx')"
proof (erule isel_run_invariant[where P = "\<lambda>c. dom (vreg_map cx) \<subseteq> dom (vreg_map c)"])
  fix n c c' assume "isel_step n c c'" "dom (vreg_map cx) \<subseteq> dom (vreg_map c)"
  then show "dom (vreg_map cx) \<subseteq> dom (vreg_map c')"
    by (induction rule: isel_step.induct) (auto simp: start_continuation_def)
qed simp

lemma lower_instr_defines:
  assumes "lower_instr msize label_of lbl cx i = Inr cx'"
  shows "dom (vreg_map cx) \<union> defs [i] \<subseteq> dom (vreg_map cx')"
proof -
  have "dom (vreg_map cx) \<subseteq> dom (vreg_map cx')" using lower_instr_run[OF assms] isel_run_dom by blast
  moreover have "value_ref i \<in> dom (vreg_map cx')" if "defines_vreg i"
  proof (cases "binary_opcode (get_opcode i)")
    case None
    then show ?thesis
      using that assms by (auto simp: defines_vreg_def is_binary_def lower_instr_def lower_phi_def lower_icmp_def lower_load_def
          lower_call_def result_simps Let_def split: if_splits)
  next
    case (Some op)
    then have "lower_binary op i cx = Inr cx'"
      using assms by (auto simp: lower_instr_def binary_opcode_def split: instruction_opcode.splits)
    then show ?thesis by (auto simp: lower_binary_def result_simps Let_def)
  qed
  ultimately show ?thesis by (auto simp: defs_def)
qed

lemma safe_lower_instrs:
  assumes "K \<subseteq> dom (vreg_map cx)"
    and "\<And>pre i post. instrs = pre @ i # post \<Longrightarrow> instr_ok label_of i \<and> needs i \<subseteq> K \<union> defs pre"
  shows "safe (try_fold (lower_instr msize label_of lbl) cx instrs) \<and>
    (\<forall>cx'. try_fold (lower_instr msize label_of lbl) cx instrs = Inr cx' \<longrightarrow> K \<union> defs instrs \<subseteq> dom (vreg_map cx'))"
  using assms
proof (induction instrs arbitrary: K cx)
  case (Cons i rest)
  have i: "instr_ok label_of i" "needs i \<subseteq> dom (vreg_map cx)"
    using Cons.prems(2)[of "[]" i rest] Cons.prems(1) by auto
  have rest: "instr_ok label_of j \<and> needs j \<subseteq> (K \<union> defs [i]) \<union> defs pre" if "rest = pre @ j # post" for pre j post
    using Cons.prems(2)[of "i # pre" j post] that by (auto simp: defs_def)
  have IH: "safe (try_fold (lower_instr msize label_of lbl) cx1 rest) \<and>
      (\<forall>cx'. try_fold (lower_instr msize label_of lbl) cx1 rest = Inr cx' \<longrightarrow> (K \<union> defs [i]) \<union> defs rest \<subseteq> dom (vreg_map cx'))"
    if "lower_instr msize label_of lbl cx i = Inr cx1" for cx1
  proof (rule Cons.IH)
    show "K \<union> defs [i] \<subseteq> dom (vreg_map cx1)" using lower_instr_defines[OF that] Cons.prems(1) by blast
  qed (rule rest)
  then have "safe (try_fold (lower_instr msize label_of lbl) cx (i # rest))"
    using safe_lower_instr[OF i] by (auto intro!: safe_and_then)
  moreover have "defs (i # rest) = defs [i] \<union> defs rest" using defs_simps(2)[of "[i]" rest] by simp
  ultimately show ?case using IH by (auto simp: result_simps)
qed simp

lemma last_exits:
  assumes "lower_instr msize label_of lbl cx (last (instructions bb)) = Inr cx'" "no_exit cx"
    and "get_opcode (last (instructions bb)) \<in> {BrI, ReturnI}" "instr_ok label_of (last (instructions bb))"
  shows "set_option (true_succ cx') \<union> set_option (false_succ cx') = exits label_of bb"
proof (cases "get_opcode (last (instructions bb)) = BrI")
  case True
  let ?br = "last (instructions bb)"
  have br: "lower_br label_of ?br cx = Inr cx'" using assms(1) True by (simp add: lower_instr_def)
  show ?thesis
  proof (cases "br_condition ?br")
    case None
    then obtain k where "br_successors ?br = [k]"
      using assms(4) True by (auto simp: instr_ok_def length_Suc_conv)
    then show ?thesis
      using br None True assms(2)
      by (auto simp: lower_br_def exits_def Let_def label_at_def expect_some_def result_simps no_exit_def get_def)
  next
    case (Some c)
    then obtain a b where "br_successors ?br = [a, b]"
      using assms(4) True by (auto simp: instr_ok_def length_Suc_conv numeral_2_eq_2)
    then show ?thesis
      using br Some True
      by (auto simp: lower_br_def exits_def Let_def label_at_def expect_some_def result_simps get_def)
  qed
next
  case False
  then have "lower_return (last (instructions bb)) cx = Inr cx'" using assms(1,3) by (simp add: lower_instr_def)
  then have "no_exit cx'"
    using assms(2) by (auto simp: lower_return_def result_simps no_exit_def
        split: list.splits llvm_operand.splits llvm_type.splits if_splits)
  then show ?thesis using False by (simp add: exits_def no_exit_def)
qed

section \<open>The worklist\<close>

text \<open>
  The invariant of the worklist: every block found lies on a path through visited blocks; the exits
  of visited blocks have been found; parameters and the values of visited blocks have registers.
\<close>

definition found :: "isel_cx \<Rightarrow> string set" where
  "found cx = set (visited cx) \<union> set (worklist cx)"

definition explored :: "llvm_function \<Rightarrow> isel_cx \<Rightarrow> bool" where
  "explored f cx \<longleftrightarrow>
     (\<forall>l \<in> found cx. \<exists>ls. cfg_path f ls l \<and> set ls \<subseteq> set (visited cx)) \<and>
     (\<forall>l \<in> set (visited cx). \<forall>bb. map_of (block_map f) l = Some bb \<longrightarrow>
        exits (label_map f) bb \<subseteq> found cx \<and> defs (instructions bb) \<subseteq> dom (vreg_map cx)) \<and>
     (\<forall>l. cfg_path f [] l \<longrightarrow> l \<in> found cx) \<and>
     value_key ` set (params f) \<subseteq> dom (vreg_map cx) \<and> distinct (visited cx)"

lemma explored_skip:
  assumes "explored f cx" "worklist cx = l # wl" "l \<in> set (visited cx)"
  shows "explored f (cx\<lparr>worklist := wl\<rparr>)"
proof -
  have "found (cx\<lparr>worklist := wl\<rparr>) = found cx" using assms(2,3) by (auto simp: found_def)
  then show ?thesis using assms(1) by (simp add: explored_def)
qed

lemma finish_block_vreg_map: "vreg_map (finish_block lbl cx) = vreg_map cx"
  by (simp add: finish_block_def Let_def split: option.splits)

lemma finish_block_found: "found (finish_block lbl cx) = found cx \<union> set_option (true_succ cx) \<union> set_option (false_succ cx)"
  by (auto simp: found_def finish_block_worklist finish_block_visited split: option.splits)

lemma block_instrs:
  assumes "selectable f" "explored f cx" "worklist cx = l # wl" "map_of (block_map f) l = Some bb"
    and "instructions bb = pre @ i # post"
  shows "instr_ok (label_map f) i \<and> needs i \<subseteq> dom (vreg_map cx) \<union> defs pre"
proof -
  obtain ls where ls: "cfg_path f ls l" "set ls \<subseteq> set (visited cx)"
    using assms(2,3) by (auto simp: explored_def found_def)
  have "i \<in> set (instructions bb)" using assms(5) by simp
  then have "instr_ok (label_map f) i" using assms(1) block_map_in[OF assms(4)] by (auto simp: selectable_def)
  moreover have "needs i \<subseteq> value_key ` set (params f) \<union> defs pre \<union>
      {k. \<exists>a bb'. dominates f a l \<and> map_of (block_map f) a = Some bb' \<and> k \<in> defs (instructions bb')}"
    using assms(1,4,5) ls(1) unfolding selectable_def reachable_def by blast
  moreover have "defs (instructions bb') \<subseteq> dom (vreg_map cx)" if "dominates f a l" "map_of (block_map f) a = Some bb'" for a bb'
  proof -
    have "a \<in> set (visited cx)" using that(1) ls by (auto simp: dominates_def)
    then show ?thesis using assms(2) that(2) by (simp add: explored_def)
  qed
  moreover have "value_key ` set (params f) \<subseteq> dom (vreg_map cx)" using assms(2) by (simp add: explored_def)
  ultimately show ?thesis by blast
qed

lemma lower_block_found:
  assumes "selectable f" "map_of (block_map f) l = Some bb" "lower_block msize (label_map f) l bb cx = Inr cx'"
  shows "found cx' = insert l (found cx) \<union> exits (label_map f) bb" "dom (vreg_map cx) \<subseteq> dom (vreg_map cx')"
proof -
  obtain cx1 where cx1: "try_fold (lower_instr msize (label_map f) l) (enter_block l cx) (instructions bb) = Inr cx1"
      "cx' = finish_block l cx1"
    using assms(3) by (auto simp: lower_block_def result_simps)
  have bb: "terminated bb" "instr_ok (label_map f) (last (instructions bb))"
    using assms(1) block_map_in[OF assms(2)] by (auto simp: selectable_def terminated_def)
  obtain cx0 where "no_exit cx0" "lower_instr msize (label_map f) l cx0 (last (instructions bb)) = Inr cx1"
    using lower_instrs_last[OF cx1(1) bb(1)] by blast
  then have "set_option (true_succ cx1) \<union> set_option (false_succ cx1) = exits (label_map f) bb"
    using bb last_exits by (simp add: terminated_def)
  moreover obtain n where run: "isel_run n (enter_block l cx) cx1" using lower_instrs_run[OF cx1(1)] by blast
  then have "found cx1 = insert l (found cx)" using isel_run_lists by (fastforce simp: found_def enter_block_def)
  ultimately show "found cx' = insert l (found cx) \<union> exits (label_map f) bb"
    unfolding cx1(2) finish_block_found by (simp add: Un_assoc)
  show "dom (vreg_map cx) \<subseteq> dom (vreg_map cx')"
    using isel_run_dom[OF run] unfolding cx1(2) finish_block_vreg_map by (simp add: enter_block_def)
qed

lemma safe_lower_block:
  assumes "selectable f" "explored f cx" "worklist cx = l # wl" "map_of (block_map f) l = Some bb"
  shows "safe (lower_block msize (label_map f) l bb (cx\<lparr>worklist := wl\<rparr>))"
    and "lower_block msize (label_map f) l bb (cx\<lparr>worklist := wl\<rparr>) = Inr cx' \<Longrightarrow>
      defs (instructions bb) \<subseteq> dom (vreg_map cx')"
proof -
  let ?cx = "enter_block l (cx\<lparr>worklist := wl\<rparr>)"
  have "dom (vreg_map cx) \<subseteq> dom (vreg_map ?cx)" by (simp add: enter_block_def)
  then have instrs: "safe (try_fold (lower_instr msize (label_map f) l) ?cx (instructions bb)) \<and>
    (\<forall>cx'. try_fold (lower_instr msize (label_map f) l) ?cx (instructions bb) = Inr cx' \<longrightarrow>
       dom (vreg_map cx) \<union> defs (instructions bb) \<subseteq> dom (vreg_map cx'))"
    by (rule safe_lower_instrs) (rule block_instrs[OF assms])
  then show "safe (lower_block msize (label_map f) l bb (cx\<lparr>worklist := wl\<rparr>))"
    by (auto simp: lower_block_def intro!: safe_and_then)
  show "defs (instructions bb) \<subseteq> dom (vreg_map cx')"
    if "lower_block msize (label_map f) l bb (cx\<lparr>worklist := wl\<rparr>) = Inr cx'"
    using that instrs by (auto simp: lower_block_def result_simps finish_block_vreg_map)
qed

lemma explored_block:
  assumes "selectable f" "explored f cx" "worklist cx = l # wl" "l \<notin> set (visited cx)" "map_of (block_map f) l = Some bb"
    and "lower_block msize (label_map f) l bb (cx\<lparr>worklist := wl\<rparr>) = Inr cx'"
  shows "explored f cx'"
proof -
  have vis: "visited cx' = l # visited cx" using lower_block_visited[OF assms(6)] by simp
  have found: "found cx' = found cx \<union> exits (label_map f) bb"
    using lower_block_found(1)[OF assms(1,5,6)] assms(3) by (auto simp: found_def)
  have dom: "dom (vreg_map cx) \<subseteq> dom (vreg_map cx')" using lower_block_found(2)[OF assms(1,5,6)] by simp
  have vals: "defs (instructions bb) \<subseteq> dom (vreg_map cx')" by (rule safe_lower_block(2)[OF assms(1-3,5,6)])
  obtain ls where ls: "cfg_path f ls l" "set ls \<subseteq> set (visited cx)"
    using assms(2,3) by (auto simp: explored_def found_def)
  have paths: "\<exists>ls. cfg_path f ls l' \<and> set ls \<subseteq> set (visited cx')" if "l' \<in> found cx'" for l'
  proof (cases "l' \<in> found cx")
    case True
    then show ?thesis using assms(2) vis unfolding explored_def by (metis set_subset_Cons subset_trans)
  next
    case False
    then have "cfg_path f (l # ls) l'" using that found cfg_path.edge[OF ls(1) assms(5)] by blast
    then show ?thesis using ls(2) vis by (intro exI[of _ "l # ls"]) auto
  qed
  have outs: "exits (label_map f) bb' \<subseteq> found cx' \<and> defs (instructions bb') \<subseteq> dom (vreg_map cx')"
    if "l' \<in> set (visited cx')" "map_of (block_map f) l' = Some bb'" for l' bb'
  proof (cases "l' = l")
    case True
    then show ?thesis using that(2) assms(5) found vals by auto
  next
    case False
    then have "exits (label_map f) bb' \<subseteq> found cx \<and> defs (instructions bb') \<subseteq> dom (vreg_map cx)"
      using that vis assms(2) by (simp add: explored_def)
    then show ?thesis using found dom by blast
  qed
  have rest: "cfg_path f [] l' \<Longrightarrow> l' \<in> found cx'" "value_key ` set (params f) \<subseteq> dom (vreg_map cx')" for l'
    using assms(2) found subset_trans[OF _ dom] by (simp_all add: explored_def)
  have "distinct (visited cx')" using assms(2,4) vis by (simp add: explored_def)
  with paths outs rest show ?thesis unfolding explored_def by (intro conjI ballI allI impI) auto
qed

lemma lower_worklist_safe:
  assumes "P cx"
    and skip: "\<And>cx l wl. P cx \<Longrightarrow> worklist cx = l # wl \<Longrightarrow> l \<in> set (visited cx) \<Longrightarrow> P (cx\<lparr>worklist := wl\<rparr>)"
    and known: "\<And>cx l wl. P cx \<Longrightarrow> worklist cx = l # wl \<Longrightarrow> map_of bb_of l \<noteq> None"
    and block: "\<And>cx l wl bb cx'. P cx \<Longrightarrow> worklist cx = l # wl \<Longrightarrow> l \<notin> set (visited cx) \<Longrightarrow>
      map_of bb_of l = Some bb \<Longrightarrow> lower_block msize label_of l bb (cx\<lparr>worklist := wl\<rparr>) = Inr cx' \<Longrightarrow> P cx'"
    and safe: "\<And>cx l wl bb. P cx \<Longrightarrow> worklist cx = l # wl \<Longrightarrow> map_of bb_of l = Some bb \<Longrightarrow>
      safe (lower_block msize label_of l bb (cx\<lparr>worklist := wl\<rparr>))"
  shows "safe (lower_worklist msize label_of bb_of cx)"
  using assms
proof (induction msize label_of bb_of cx rule: lower_worklist.induct)
  case (1 msize label_of bb_of cx)
  show ?case
  proof (cases "worklist cx")
    case (Cons l wl)
    show ?thesis
    proof (cases "l \<in> set (visited cx)")
      case True
      have "safe (lower_worklist msize label_of bb_of (cx\<lparr>worklist := wl\<rparr>))"
        by (rule "1.IH"(1)[OF Cons True "1.prems"(2)[OF "1.prems"(1) Cons True] "1.prems"(2-5)])
      then show ?thesis using Cons True by (simp add: lower_worklist.simps)
    next
      case False
      obtain bb where bb: "map_of bb_of l = Some bb" using "1.prems"(3)[OF "1.prems"(1) Cons] by blast
      then have e: "expect_some (map_of bb_of l) ''label not in bb_of'' = Inr bb" by simp
      have "safe (lower_worklist msize label_of bb_of cx')"
        if lb: "lower_block msize label_of l bb (cx\<lparr>worklist := wl\<rparr>) = Inr cx'" for cx'
        by (rule "1.IH"(2)[OF Cons False e lb "1.prems"(4)[OF "1.prems"(1) Cons False bb lb] "1.prems"(2-5)])
      then show ?thesis
        using Cons False bb "1.prems"(5)[OF "1.prems"(1) Cons bb]
        by (auto simp: lower_worklist.simps[of _ _ _ cx] intro!: safe_and_then)
    qed
  qed (simp add: lower_worklist.simps)
qed

section \<open>A function\<close>

lemma add_params:
  assumes "try_fold add_param cx vs = Inr cx'"
  shows "dom (vreg_map cx') = dom (vreg_map cx) \<union> value_key ` set vs \<and> visited cx' = visited cx"
  using assms
proof (induction vs arbitrary: cx)
  case (Cons v vs)
  then obtain cx1 where cx1: "add_param cx v = Inr cx1" "try_fold add_param cx1 vs = Inr cx'" by (auto simp: result_simps)
  then have "dom (vreg_map cx1) = insert (value_key v) (dom (vreg_map cx)) \<and> visited cx1 = visited cx"
    by (auto simp: add_param_def bve_key_def result_simps split: llvm_type.splits)
  then show ?case using Cons.IH[OF cx1(2)] by simp
qed simp

lemma entry_known:
  assumes "basic_blocks f \<noteq> []"
  shows "\<exists>l. label_map f (block_key (hd (basic_blocks f))) = Some l"
proof -
  have "(block_key (hd (basic_blocks f)), block_label 0 (hd (basic_blocks f))) \<in>
      set (map (\<lambda>(idx, bb). (block_key bb, block_label idx bb)) (enumerate 0 (basic_blocks f)))"
    using assms by (cases "basic_blocks f") auto
  then have "block_key (hd (basic_blocks f)) \<in> dom (label_map f)"
    unfolding make_label_of_def dom_map_of_conv_image_fst by force
  then show ?thesis by blast
qed

lemma explored_start:
  assumes "try_fold add_param isel_cx_new (params f) = Inr cx" "basic_blocks f \<noteq> []"
    and "label_map f (block_key (hd (basic_blocks f))) = Some l"
  shows "explored f (cx\<lparr>worklist := [l]\<rparr>)"
proof -
  have entry: "\<exists>ls. cfg_path f ls l \<and> set ls \<subseteq> {}"
    using cfg_path.entry[OF assms(2,3)] by (intro exI[of _ "[]"]) simp
  have only: "\<forall>l'. cfg_path f [] l' \<longrightarrow> l' \<in> found (cx\<lparr>worklist := [l]\<rparr>)"
    using assms(3) by (auto simp: found_def elim: cfg_path.cases)
  have "dom (vreg_map cx) = value_key ` set (params f)" "visited cx = []"
    using add_params[OF assms(1)] by (simp_all add: isel_cx_new_def)
  then show ?thesis unfolding explored_def using entry by (intro conjI only) (simp_all add: found_def)
qed

lemma select_blocks_explored:
  assumes "selectable f" "select_blocks msize f = Inr cx"
  shows "explored f cx \<and> worklist cx = []"
proof -
  obtain l cx0 where start: "basic_blocks f \<noteq> []" "label_map f (block_key (hd (basic_blocks f))) = Some l"
      "try_fold add_param isel_cx_new (params f) = Inr cx0"
      "lower_worklist msize (label_map f) (block_map f) (cx0\<lparr>worklist := [l]\<rparr>) = Inr cx"
    using assms(2)
    by (cases "basic_blocks f") (auto simp: select_blocks_def result_simps Let_def label_at_def expect_some_def)
  show ?thesis
    using lower_worklist_invariant[OF start(4), where P = "explored f"] explored_start[OF start(3,1,2)]
      explored_skip explored_block[OF assms(1)] by blast
qed

lemma select_blocks_safe:
  assumes "selectable f"
  shows "safe (select_blocks msize f)"
proof -
  have bbs: "basic_blocks f \<noteq> []" using assms by (simp add: selectable_def)
  obtain l where l: "label_map f (block_key (hd (basic_blocks f))) = Some l" using entry_known[OF bbs] by blast
  have "safe (add_param cx v)" if "v \<in> set (params f)" for cx v
    using that assms by (auto simp: add_param_def bve_key_def selectable_def intro!: safe_and_then)
  then have "safe (try_fold add_param isel_cx_new (params f))" by (intro safe_try_fold[where P = "\<lambda>_. True"]) simp_all
  moreover have "safe (lower_worklist msize (label_map f) (block_map f) (cx\<lparr>worklist := [l]\<rparr>))"
    if "try_fold add_param isel_cx_new (params f) = Inr cx" for cx
  proof (rule lower_worklist_safe[where P = "explored f"])
    show "explored f (cx\<lparr>worklist := [l]\<rparr>)" by (rule explored_start[OF that bbs l])
    show "map_of (block_map f) l' \<noteq> None" if "explored f c" "worklist c = l' # wl" for c l' wl
      using that by (intro reachable_block) (auto simp: explored_def found_def reachable_def)
  qed (use explored_skip explored_block[OF assms] safe_lower_block(1)[OF assms] in auto)
  moreover have "first (basic_blocks f) = Some (hd (basic_blocks f))" using bbs by (cases "basic_blocks f") simp_all
  ultimately show ?thesis
    using l by (auto simp: select_blocks_def Let_def label_at_def intro!: safe_and_then)
qed

lemma explored_visits:
  assumes "explored f cx" "worklist cx = []"
  shows "l \<in> set (visited cx) \<longleftrightarrow> reachable f l"
proof
  assume "reachable f l"
  then obtain ls where "cfg_path f ls l" by (auto simp: reachable_def)
  then show "l \<in> set (visited cx)"
  proof (induction rule: cfg_path.induct)
    case (entry l)
    then have "cfg_path f [] l" by (rule cfg_path.entry)
    then show ?case using assms by (simp add: explored_def found_def)
  next
    case (edge ls l bb l')
    then have "exits (label_map f) bb \<subseteq> set (visited cx)" using assms by (simp add: explored_def found_def)
    then show ?case using edge.hyps(3) by blast
  qed
next
  assume "l \<in> set (visited cx)"
  then show "reachable f l" using assms by (auto simp: explored_def found_def reachable_def)
qed

end
