(* ===== verification/IselPhis.thy ===== *)
theory IselPhis
  imports IselSafe
begin

text \<open>
  The phi nodes of a function: the copies collected from them after selection, where they go, and
  why lowering them cannot panic.
\<close>

section \<open>Pending phis\<close>

definition phi_weight :: "llvm_block \<Rightarrow> nat" where
  "phi_weight bb = sum_list (map (length \<circ> phi_incoming) (instructions bb))"

definition phi_from :: "labels \<Rightarrow> string \<Rightarrow> llvm_instr \<Rightarrow> pending_phi \<Rightarrow> bool" where
  "phi_from label_of lbl i p \<longleftrightarrow>
     get_opcode i = PhiI \<and> phi_block_label p = lbl \<and>
     try_map (raw_phi_edge label_of) (phi_incoming i) = Inr (phi_edges p)"

definition same_phis :: "isel_cx \<Rightarrow> isel_cx \<Rightarrow> bool" where
  "same_phis cx cx' \<longleftrightarrow> pending_phis cx' = pending_phis cx \<and> edge_remap cx' = edge_remap cx"

lemma same_phis_refl [simp]: "same_phis cx cx"
  by (simp add: same_phis_def)

lemma same_phis_update [simp]:
  "same_phis cx (push_syl s c) = same_phis cx c" "same_phis cx (c\<lparr>vreg_map := m\<rparr>) = same_phis cx c"
  "same_phis cx (c\<lparr>next_vreg := n\<rparr>) = same_phis cx c" "same_phis cx (c\<lparr>gep_map := g\<rparr>) = same_phis cx c"
  "same_phis cx (c\<lparr>cur_term := t\<rparr>) = same_phis cx c" "same_phis cx (c\<lparr>false_succ := l\<rparr>) = same_phis cx c"
  "same_phis cx (c\<lparr>true_succ := l\<rparr>) = same_phis cx c" "same_phis cx (split_at_call msize target c) = same_phis cx c"
  by (simp_all add: same_phis_def split_at_call_def Let_def)

lemma lower_operand_phis: "lower_operand opr c = Inr (v, cx') \<Longrightarrow> same_phis cx cx' = same_phis cx c"
  by (auto simp: lower_operand_def result_simps Let_def split: llvm_operand.splits llvm_type.splits if_splits)

lemma lower_two_operands_phis: "lower_two_operands ma mb instr c = Inr (vs, cx') \<Longrightarrow> same_phis cx cx' = same_phis cx c"
  by (auto simp: lower_two_operands_def result_simps dest!: lower_operand_phis)

lemma lower_args_phis: "try_fold lower_arg cx args = Inr cx' \<Longrightarrow> same_phis cx cx'"
  by (erule try_fold_invariant[where P = "same_phis cx"])
    (auto simp: lower_arg_def result_simps Let_def split: prod.splits option.splits)

lemma lower_instr_same_phis:
  assumes "lower_instr msize label_of lbl cx i = Inr cx'" "get_opcode i \<noteq> PhiI"
  shows "same_phis cx cx'"
  using assms
  by (auto simp: lower_instr_def lower_return_def lower_br_def lower_call_def lower_icmp_def lower_binary_def
      lower_store_def lower_load_def lower_gep_def result_simps Let_def
      split: instruction_opcode.splits option.splits if_splits list.splits llvm_operand.splits llvm_type.splits
      dest!: lower_two_operands_phis lower_operand_phis lower_args_phis)

lemma lower_instr_phis:
  assumes "lower_instr msize label_of lbl cx i = Inr cx'"
  shows "edge_remap cx' = edge_remap cx \<and>
    (\<exists>new. pending_phis cx' = pending_phis cx @ new \<and> (\<forall>p \<in> set new. phi_from label_of lbl i p) \<and>
      sum_list (map (length \<circ> phi_edges) new) \<le> length (phi_incoming i))"
proof (cases "get_opcode i = PhiI")
  case True
  then obtain edges where edges: "try_map (raw_phi_edge label_of) (phi_incoming i) = Inr edges"
      "pending_phis cx' = pending_phis cx @ [\<lparr>phi_block_label = lbl, phi_dst = next_vreg cx, phi_edges = edges\<rparr>]"
      "edge_remap cx' = edge_remap cx"
    using assms by (auto simp: lower_instr_def lower_phi_def result_simps Let_def)
  moreover have "length edges = length (phi_incoming i)"
    using edges(1) by (auto simp: try_map_eq_Inr dest: list_all2_lengthD)
  ultimately show ?thesis using True by (simp add: phi_from_def)
next
  case False
  then show ?thesis using lower_instr_same_phis[OF assms] by (simp add: same_phis_def)
qed

lemma lower_instrs_phis:
  assumes "try_fold (lower_instr msize label_of lbl) cx instrs = Inr cx'"
  shows "edge_remap cx' = edge_remap cx \<and>
    (\<exists>new. pending_phis cx' = pending_phis cx @ new \<and> (\<forall>p \<in> set new. \<exists>i \<in> set instrs. phi_from label_of lbl i p) \<and>
      sum_list (map (length \<circ> phi_edges) new) \<le> sum_list (map (length \<circ> phi_incoming) instrs))"
  using assms
proof (induction instrs arbitrary: cx)
  case (Cons i rest)
  then obtain cx1 where cx1: "lower_instr msize label_of lbl cx i = Inr cx1"
      "try_fold (lower_instr msize label_of lbl) cx1 rest = Inr cx'"
    by (auto simp: result_simps)
  obtain n1 where n1: "edge_remap cx1 = edge_remap cx" "pending_phis cx1 = pending_phis cx @ n1"
      "\<forall>p \<in> set n1. phi_from label_of lbl i p" "sum_list (map (length \<circ> phi_edges) n1) \<le> length (phi_incoming i)"
    using lower_instr_phis[OF cx1(1)] by blast
  obtain n2 where n2: "edge_remap cx' = edge_remap cx1" "pending_phis cx' = pending_phis cx1 @ n2"
      "\<forall>p \<in> set n2. \<exists>i \<in> set rest. phi_from label_of lbl i p"
      "sum_list (map (length \<circ> phi_edges) n2) \<le> sum_list (map (length \<circ> phi_incoming) rest)"
    using Cons.IH[OF cx1(2)] by blast
  show ?case
    using n1 n2 by (intro conjI exI[of _ "n1 @ n2"]) (auto simp: comp_def)
qed simp

definition latch_label :: "string \<Rightarrow> string \<Rightarrow> string" where
  "latch_label p l = p @ ''__latch__'' @ l"

text \<open>Where the copies of a phi for a predecessor go.\<close>

definition actual_pred :: "isel_cx \<Rightarrow> string \<Rightarrow> string \<Rightarrow> string" where
  "actual_pred cx p l = (case edge_remap cx (p, l) of Some latch \<Rightarrow> latch | None \<Rightarrow> p)"

definition phi_inv :: "llvm_function \<Rightarrow> isel_cx \<Rightarrow> bool" where
  "phi_inv f cx \<longleftrightarrow>
     (\<forall>p \<in> set (pending_phis cx). \<exists>l \<in> set (visited cx). \<exists>bb i. map_of (block_map f) l = Some bb \<and>
        i \<in> set (instructions bb) \<and> phi_from (label_map f) l i p) \<and>
     sum_list (map (length \<circ> phi_edges) (pending_phis cx)) \<le> lowered_weight phi_weight (block_map f) (visited cx) \<and>
     (\<forall>p l latch. edge_remap cx (p, l) = Some latch \<longrightarrow> latch = latch_label p l \<and> latch \<in> label ` set (mir_blocks cx))"

lemma finish_block_remap:
  "pending_phis (finish_block lbl cx) = pending_phis cx"
  "edge_remap (finish_block lbl cx) (p, l) = Some latch \<Longrightarrow>
     edge_remap cx (p, l) = Some latch \<or> latch = latch_label p l \<and> latch \<in> label ` set (mir_blocks (finish_block lbl cx))"
  by (auto simp: finish_block_def Let_def latch_label_def split: option.splits if_splits)

lemma phi_inv_block:
  assumes "phi_inv f cx" "worklist cx = l # wl" "l \<notin> set (visited cx)" "map_of (block_map f) l = Some bb"
    and "lower_block msize (label_map f) l bb (cx\<lparr>worklist := wl\<rparr>) = Inr cx'"
  shows "phi_inv f cx'"
proof -
  let ?cx = "enter_block l (cx\<lparr>worklist := wl\<rparr>)"
  obtain cx1 where cx1: "try_fold (lower_instr msize (label_map f) l) ?cx (instructions bb) = Inr cx1"
      "cx' = finish_block l cx1"
    using assms(5) by (auto simp: lower_block_def result_simps)
  obtain new where new: "edge_remap cx1 = edge_remap cx" "pending_phis cx1 = pending_phis cx @ new"
      "\<forall>p \<in> set new. \<exists>i \<in> set (instructions bb). phi_from (label_map f) l i p"
      "sum_list (map (length \<circ> phi_edges) new) \<le> phi_weight bb"
    using lower_instrs_phis[OF cx1(1)] by (auto simp: enter_block_def phi_weight_def)
  obtain n where run: "isel_run n ?cx cx1" using lower_instrs_run[OF cx1(1)] by blast
  obtain more where more: "mir_blocks cx1 = mir_blocks cx @ more"
    using run_blocks_grow[OF run] by (auto simp: enter_block_def)
  have vis: "visited cx' = l # visited cx" using lower_block_visited[OF assms(5)] by simp
  have weight: "sum_list (map (length \<circ> phi_edges) (pending_phis cx')) \<le> lowered_weight phi_weight (block_map f) (visited cx')"
    using assms(1) new(2,4) lowered_weight_Cons[OF assms(3,4), of phi_weight]
    unfolding vis by (simp add: phi_inv_def cx1(2) finish_block_remap)
  have remap: "latch = latch_label p t \<and> latch \<in> label ` set (mir_blocks cx')" if "edge_remap cx' (p, t) = Some latch" for p t latch
  proof -
    have "set (mir_blocks cx) \<subseteq> set (mir_blocks cx')" using more by (auto simp: cx1(2) finish_block_layout)
    moreover have "edge_remap cx (p, t) = Some latch \<Longrightarrow> latch = latch_label p t \<and> latch \<in> label ` set (mir_blocks cx)"
      using assms(1) by (simp add: phi_inv_def)
    ultimately show ?thesis
      using finish_block_remap(2)[OF that[unfolded cx1(2)]] new(1) by (auto simp: cx1(2))
  qed
  have "\<exists>l \<in> set (visited cx'). \<exists>bb i. map_of (block_map f) l = Some bb \<and> i \<in> set (instructions bb) \<and> phi_from (label_map f) l i p"
    if "p \<in> set (pending_phis cx')" for p
  proof (cases "p \<in> set new")
    case True
    then show ?thesis using new(3) assms(4) vis by auto
  next
    case False
    then have "p \<in> set (pending_phis cx)" using that new(2) by (simp add: cx1(2) finish_block_remap)
    then show ?thesis using assms(1) vis by (simp add: phi_inv_def)
  qed
  then show ?thesis unfolding phi_inv_def using weight remap by blast
qed

lemma select_blocks_phis:
  assumes "select_blocks msize f = Inr cx"
  shows "phi_inv f cx"
proof -
  obtain cx0 l where cx0: "try_fold add_param isel_cx_new (params f) = Inr cx0"
      "lower_worklist msize (label_map f) (block_map f) (cx0\<lparr>worklist := [l]\<rparr>) = Inr cx"
    using assms by (auto simp: select_blocks_def result_simps Let_def)
  have "pending_phis cx0 = [] \<and> edge_remap cx0 = Map.empty"
    by (rule try_fold_invariant[OF cx0(1)]) (auto simp: isel_cx_new_def add_param_def result_simps)
  then have "phi_inv f (cx0\<lparr>worklist := [l]\<rparr>)" by (simp add: phi_inv_def)
  moreover have "phi_inv f (c\<lparr>worklist := wl\<rparr>)" if "phi_inv f c" for c wl using that by (simp add: phi_inv_def)
  ultimately show ?thesis
    using lower_worklist_invariant[OF cx0(2), where P = "phi_inv f"] phi_inv_block by blast
qed

section \<open>Collecting the copies\<close>

definition copy_source :: "isel_cx \<Rightarrow> raw_phi_val \<Rightarrow> copy_src option" where
  "copy_source cx raw =
     (case raw of ConstPhi imm \<Rightarrow> Some (Const imm) | LlvmRef k \<Rightarrow> map_option VRegSrc (vreg_map cx k))"

lemma phi_edge_copy_eq:
  "copy_source cx raw = Some src \<Longrightarrow> phi_edge_copy cx phi entries (p, raw) =
     Inr (add_copy (actual_pred cx p (phi_block_label phi)) \<lparr>copy_dst = phi_dst phi, copy_src = src\<rparr> entries)"
  by (cases raw) (auto simp: copy_source_def phi_edge_copy_def Let_def actual_pred_def)

text \<open>Each copy comes from an edge of a phi and is in the entry of that edge's block.\<close>

definition copy_origin :: "isel_cx \<Rightarrow> string \<Rightarrow> phi_copy \<Rightarrow> bool" where
  "copy_origin cx l c \<longleftrightarrow> (\<exists>phi \<in> set (pending_phis cx). \<exists>(p, raw) \<in> set (phi_edges phi).
     l = actual_pred cx p (phi_block_label phi) \<and> copy_dst c = phi_dst phi \<and> copy_source cx raw = Some (copy_src c))"

definition entries_inv :: "isel_cx \<Rightarrow> (string \<times> phi_copy list) list \<Rightarrow> bool" where
  "entries_inv cx entries \<longleftrightarrow> (\<forall>(l, cs) \<in> set entries. cs \<noteq> [] \<and> (\<forall>c \<in> set cs. copy_origin cx l c))"

definition copy_count :: "(string \<times> phi_copy list) list \<Rightarrow> nat" where
  "copy_count entries = sum_list (map (length \<circ> snd) entries)"

lemma add_copy_inv: "entries_inv cx entries \<Longrightarrow> copy_origin cx l c \<Longrightarrow> entries_inv cx (add_copy l c entries)"
  by (induction l c entries rule: add_copy.induct) (auto simp: entries_inv_def)

lemma add_copy_count: "copy_count (add_copy l c entries) = copy_count entries + 1"
  by (induction l c entries rule: add_copy.induct) (auto simp: copy_count_def)

lemma collect_edges:
  assumes "phi \<in> set (pending_phis cx)" "set edges \<subseteq> set (phi_edges phi)"
    and "\<forall>(p, raw) \<in> set edges. copy_source cx raw \<noteq> None" "entries_inv cx entries"
  shows "\<exists>entries'. try_fold (phi_edge_copy cx phi) entries edges = Inr entries' \<and> entries_inv cx entries' \<and>
    copy_count entries' = copy_count entries + length edges"
  using assms(2-)
proof (induction edges arbitrary: entries)
  case (Cons e edges)
  obtain p raw where e: "e = (p, raw)" by force
  then obtain src where src: "copy_source cx raw = Some src" using Cons.prems(2) by auto
  let ?l = "actual_pred cx p (phi_block_label phi)" and ?c = "\<lparr>copy_dst = phi_dst phi, copy_src = src\<rparr>"
  have "copy_origin cx ?l ?c" using assms(1) Cons.prems(1) e src by (fastforce simp: copy_origin_def)
  then obtain entries' where "try_fold (phi_edge_copy cx phi) (add_copy ?l ?c entries) edges = Inr entries'"
      "entries_inv cx entries'" "copy_count entries' = copy_count entries + length (e # edges)"
    using Cons.IH[of "add_copy ?l ?c entries"] Cons.prems add_copy_inv by (auto simp: add_copy_count)
  then show ?case using phi_edge_copy_eq[OF src] e by simp
qed simp

lemma collect_copies_total:
  assumes "\<forall>phi \<in> set (pending_phis cx). \<forall>(p, raw) \<in> set (phi_edges phi). copy_source cx raw \<noteq> None"
  shows "\<exists>entries. collect_copies cx = Inr entries \<and> entries_inv cx entries \<and>
    copy_count entries = sum_list (map (length \<circ> phi_edges) (pending_phis cx))"
proof -
  have "\<exists>entries'. try_fold (\<lambda>entries phi. try_fold (phi_edge_copy cx phi) entries (phi_edges phi)) entries phis = Inr entries' \<and>
      entries_inv cx entries' \<and> copy_count entries' = copy_count entries + sum_list (map (length \<circ> phi_edges) phis)"
    if "set phis \<subseteq> set (pending_phis cx)" "entries_inv cx entries" for phis entries
    using that
  proof (induction phis arbitrary: entries)
    case (Cons phi phis)
    obtain e1 where "try_fold (phi_edge_copy cx phi) entries (phi_edges phi) = Inr e1" "entries_inv cx e1"
        "copy_count e1 = copy_count entries + length (phi_edges phi)"
      using collect_edges[of phi cx "phi_edges phi" entries] Cons.prems assms by auto
    then show ?case using Cons.IH[of e1] Cons.prems(1) by auto
  qed simp
  from this[of "pending_phis cx" "[]"] show ?thesis by (simp add: collect_copies_def entries_inv_def copy_count_def)
qed

section \<open>Lowering the copies\<close>

text \<open>
  What LLVM's verifier guarantees of the phis of reachable blocks, together with three limits of the
  lowering: incoming values are integer constants or values with a register, predecessors are
  reachable, and no block has a name that looks like a generated latch label.
\<close>

definition phis_ok :: "llvm_function \<Rightarrow> bool" where
  "phis_ok f \<longleftrightarrow>
     (\<forall>l bb i. reachable f l \<longrightarrow> map_of (block_map f) l = Some bb \<longrightarrow> i \<in> set (instructions bb) \<longrightarrow> get_opcode i = PhiI \<longrightarrow>
        (\<forall>(v, k) \<in> set (phi_incoming i).
           (\<exists>p. label_map f k = Some p \<and> reachable f p) \<and>
           (const_int v \<noteq> None \<or> value_key v \<in> value_key ` set (params f) \<or>
             (\<exists>a bb'. reachable f a \<and> map_of (block_map f) a = Some bb' \<and> value_key v \<in> defs (instructions bb'))) \<and>
           (\<forall>(v', k') \<in> set (phi_incoming i). label_map f k' = label_map f k \<longrightarrow> v' = v))) \<and>
     (\<forall>a b l. map_of (block_map f) l \<noteq> None \<longrightarrow> l \<noteq> latch_label a b)"

lemma phi_from_edge:
  assumes "phi_from label_of l i p" "(q, raw) \<in> set (phi_edges p)"
  shows "\<exists>v k. (v, k) \<in> set (phi_incoming i) \<and> label_of k = Some q \<and>
    raw = (case const_int v of Some n \<Rightarrow> ConstPhi n | None \<Rightarrow> LlvmRef (value_key v))"
proof -
  have "list_all2 (\<lambda>e r. raw_phi_edge label_of e = Inr r) (phi_incoming i) (phi_edges p)"
    using assms(1) by (simp add: phi_from_def try_map_eq_Inr)
  from list_all2_origin[OF this assms(2)] obtain v k where "(v, k) \<in> set (phi_incoming i)"
      "raw_phi_edge label_of (v, k) = Inr (q, raw)"
    by auto
  then show ?thesis by (intro exI[of _ v] exI[of _ k]) (auto simp: raw_phi_edge_def label_at_def expect_some_def result_simps)
qed

lemma lower_phi_copies_total:
  assumes "\<forall>(l, cs) \<in> set entries. l \<in> label ` set bs \<and> functional (copy_pairs cs) \<and> below (copy_pairs cs) lo"
    and "unat lo + copy_count entries < 2 ^ 32"
  shows "\<exists>r. lower_phi_copies bs entries lo = Inr r"
  using assms
proof (induction entries arbitrary: bs lo)
  case (Cons e entries)
  obtain l cs where e: "e = (l, cs)" by force
  have "moves_copy int_isa" by (simp add: moves_copy_def int_isa_def)
  then obtain idx syls hi where step: "idx < length bs" "lo \<le> hi" "unat hi \<le> unat lo + length cs"
      "lower_phi_entry (bs, lo) e = Inr (bs[idx := (bs ! idx)\<lparr>syllables := syllables (bs ! idx) @ syls\<rparr>], hi)"
    using lower_phi_entry_correct[of int_isa l bs cs lo] Cons.prems e by (auto simp: copies_wf_def copy_count_def)
  let ?bs = "bs[idx := (bs ! idx)\<lparr>syllables := syllables (bs ! idx) @ syls\<rparr>]"
  have "map label ?bs = map label bs" using step(1) by (simp add: map_update list_update_same_conv)
  then have "label ` set ?bs = label ` set bs" by (metis image_set)
  then have "\<forall>(l, cs) \<in> set entries. l \<in> label ` set ?bs \<and> functional (copy_pairs cs) \<and> below (copy_pairs cs) hi"
    using Cons.prems(1) step(2) below_mono by fastforce
  moreover have "unat hi + copy_count entries < 2 ^ 32" using Cons.prems(2) step(3) e by (simp add: copy_count_def)
  ultimately obtain r where "lower_phi_copies ?bs entries hi = Inr r" using Cons.IH by blast
  then show ?case using step(4) by (simp add: lower_phi_copies_def)
qed (simp add: lower_phi_copies_def)

text \<open>The state after selection of a well-formed function, with all its invariants.\<close>

definition selected :: "llvm_function \<Rightarrow> isel_cx \<Rightarrow> bool" where
  "selected f cx \<longleftrightarrow>
     phi_inv f cx \<and> (\<forall>l. l \<in> set (visited cx) \<longleftrightarrow> reachable f l) \<and> set (visited cx) \<subseteq> label ` set (mir_blocks cx) \<and>
     value_key ` set (params f) \<subseteq> dom (vreg_map cx) \<and>
     (\<forall>l bb. reachable f l \<longrightarrow> map_of (block_map f) l = Some bb \<longrightarrow> defs (instructions bb) \<subseteq> dom (vreg_map cx)) \<and>
     ssa_inv (length (params f)) cx"

lemma phi_dst_inj:
  assumes "selected f cx" "phi \<in> set (pending_phis cx)" "phi' \<in> set (pending_phis cx)" "phi_dst phi = phi_dst phi'"
  shows "phi = phi'"
  using assms by (auto simp: selected_def ssa_inv_def defs_of_def distinct_map dest: inj_onD)

lemma pending_edge:
  assumes "selected f cx" "phis_ok f" "phi \<in> set (pending_phis cx)" "(p, raw) \<in> set (phi_edges phi)"
  shows "reachable f p \<and> copy_source cx raw \<noteq> None \<and>
    (\<forall>raw'. (p, raw') \<in> set (phi_edges phi) \<longrightarrow> raw' = raw)"
proof -
  obtain l bb i where i: "reachable f l" "map_of (block_map f) l = Some bb" "i \<in> set (instructions bb)"
      "phi_from (label_map f) l i phi"
    using assms(1,3) by (auto simp: selected_def phi_inv_def)
  then have ok: "\<forall>(v, k) \<in> set (phi_incoming i).
      (\<exists>p. label_map f k = Some p \<and> reachable f p) \<and>
      (const_int v \<noteq> None \<or> value_key v \<in> value_key ` set (params f) \<or>
        (\<exists>a bb'. reachable f a \<and> map_of (block_map f) a = Some bb' \<and> value_key v \<in> defs (instructions bb'))) \<and>
      (\<forall>(v', k') \<in> set (phi_incoming i). label_map f k' = label_map f k \<longrightarrow> v' = v)"
    using assms(2) unfolding phis_ok_def phi_from_def by blast
  obtain v k where vk: "(v, k) \<in> set (phi_incoming i)" "label_map f k = Some p"
      "raw = (case const_int v of Some n \<Rightarrow> ConstPhi n | None \<Rightarrow> LlvmRef (value_key v))"
    using phi_from_edge[OF i(4) assms(4)] by blast
  have "raw' = raw" if edge: "(p, raw') \<in> set (phi_edges phi)" for raw'
  proof -
    obtain v' k' where vk': "(v', k') \<in> set (phi_incoming i)" "label_map f k' = Some p"
        "raw' = (case const_int v' of Some n \<Rightarrow> ConstPhi n | None \<Rightarrow> LlvmRef (value_key v'))"
      using phi_from_edge[OF i(4) edge] by blast
    from bspec[OF ok vk(1)] have "\<forall>(v', k') \<in> set (phi_incoming i). label_map f k' = label_map f k \<longrightarrow> v' = v" by simp
    from bspec[OF this vk'(1)] have "v' = v" using vk(2) vk'(2) by simp
    then show ?thesis by (simp only: vk(3) vk'(3))
  qed
  moreover have "value_key v \<in> dom (vreg_map cx)" if "const_int v = None"
    using bspec[OF ok vk(1)] that assms(1) unfolding selected_def by simp blast
  then have "copy_source cx raw \<noteq> None" using vk(3) by (auto simp: copy_source_def split: option.splits)
  moreover have "reachable f p" using bspec[OF ok vk(1)] vk(2) by simp
  ultimately show ?thesis by blast
qed

lemma latch_inj: "latch_label p l = latch_label q l \<Longrightarrow> p = q"
  by (simp add: latch_label_def)

lemma actual_pred_label:
  assumes "selected f cx" "reachable f p"
  shows "actual_pred cx p l \<in> label ` set (mir_blocks cx)"
  using assms by (auto simp: actual_pred_def selected_def phi_inv_def split: option.splits)

lemma actual_pred_inj:
  assumes "selected f cx" "phis_ok f" "reachable f p" "reachable f q" "actual_pred cx p l = actual_pred cx q l"
  shows "p = q"
proof -
  have fresh: "r \<noteq> latch_label a b" if "reachable f r" for r a b
    using assms(2) reachable_block[OF that] unfolding phis_ok_def by blast
  have actual: "actual_pred cx r l = r \<or> actual_pred cx r l = latch_label r l" for r
    using assms(1) by (auto simp: actual_pred_def selected_def phi_inv_def split: option.splits)
  show ?thesis
    using actual[of p] actual[of q] assms(5) fresh[OF assms(3)] fresh[OF assms(4)] latch_inj[of p l q] by metis
qed

lemma entries_functional:
  assumes "selected f cx" "phis_ok f" "entries_inv cx entries" "(l, cs) \<in> set entries"
  shows "functional (copy_pairs cs)"
proof -
  have same: "copy_src c = copy_src c'" if cs: "c \<in> set cs" "c' \<in> set cs" "copy_dst c = copy_dst c'" for c c'
  proof -
    obtain phi p raw where c: "phi \<in> set (pending_phis cx)" "(p, raw) \<in> set (phi_edges phi)"
        "l = actual_pred cx p (phi_block_label phi)" "copy_dst c = phi_dst phi" "copy_source cx raw = Some (copy_src c)"
      using assms(3,4) cs(1) by (fastforce simp: entries_inv_def copy_origin_def)
    obtain phi' p' raw' where c': "phi' \<in> set (pending_phis cx)" "(p', raw') \<in> set (phi_edges phi')"
        "l = actual_pred cx p' (phi_block_label phi')" "copy_dst c' = phi_dst phi'" "copy_source cx raw' = Some (copy_src c')"
      using assms(3,4) cs(2) by (fastforce simp: entries_inv_def copy_origin_def)
    have "phi' = phi" using phi_dst_inj[OF assms(1) c'(1) c(1)] cs(3) c(4) c'(4) by simp
    moreover have "reachable f p'" "reachable f p"
      using pending_edge[OF assms(1,2) c'(1,2)] pending_edge[OF assms(1,2) c(1,2)] by simp_all
    ultimately have "phi' = phi" "p' = p"
      using actual_pred_inj[OF assms(1,2), of p' p "phi_block_label phi"] c(3) c'(3) by simp_all
    then have "raw' = raw" using pending_edge[OF assms(1,2) c(1,2)] c'(2) by blast
    then show ?thesis using c(5) c'(5) by simp
  qed
  show ?thesis unfolding functional_def
  proof (intro allI impI)
    fix d s s'
    assume "(d, s) \<in> set (copy_pairs cs)" "(d, s') \<in> set (copy_pairs cs)"
    then obtain c c' where "c \<in> set cs" "c' \<in> set cs" "copy_dst c = d" "copy_dst c' = d" "s = copy_src c" "s' = copy_src c'"
      by (auto simp: copy_pairs_def)
    then show "s = s'" using same[of c c'] by simp
  qed
qed

lemma select_blocks_selected:
  assumes "selectable f" "select_blocks msize f = Inr cx"
    and "length (params f) + 4 * sum_list (map (length \<circ> instructions) (basic_blocks f)) < 2 ^ 32"
  shows "selected f cx"
    "unat (next_vreg cx) \<le> length (params f) + 4 * sum_list (map (length \<circ> instructions) (basic_blocks f))"
    "sum_list (map (length \<circ> phi_edges) (pending_phis cx)) \<le> sum_list (map phi_weight (basic_blocks f))"
proof -
  have ex: "explored f cx" "worklist cx = []" using select_blocks_explored[OF assms(1,2)] by auto
  have inv: "worklist_inv (length (params f)) (block_map f) cx"
    using select_blocks_inv[OF assms(2)] assms(3) by (simp add: total_weight_make_bb_of)
  then have dom: "set (visited cx) \<subseteq> dom (map_of (block_map f))" by (simp add: worklist_inv_def)
  have phi: "phi_inv f cx" by (rule select_blocks_phis[OF assms(2)])
  have "\<forall>bb \<in> set (basic_blocks f). terminated bb" using assms(1) by (simp add: selectable_def)
  then have "set (visited cx) \<subseteq> label ` set (mir_blocks cx)"
    using select_blocks_between[OF assms(2)] by (simp add: between_def)
  then show "selected f cx"
    using phi explored_visits[OF ex] ex(1) inv by (simp add: selected_def explored_def worklist_inv_def)
  show "unat (next_vreg cx) \<le> length (params f) + 4 * sum_list (map (length \<circ> instructions) (basic_blocks f))"
    using inv lowered_weight_le[OF dom, of "length \<circ> instructions"] by (simp add: worklist_inv_def total_weight_make_bb_of)
  show "sum_list (map (length \<circ> phi_edges) (pending_phis cx)) \<le> sum_list (map phi_weight (basic_blocks f))"
    using phi lowered_weight_le[OF dom, of phi_weight] by (simp add: phi_inv_def total_weight_make_bb_of)
qed

definition function_size :: "llvm_function \<Rightarrow> nat" where
  "function_size f = length (params f) + 4 * sum_list (map (length \<circ> instructions) (basic_blocks f)) +
     sum_list (map phi_weight (basic_blocks f))"

lemma lower_selected_phis:
  assumes "selected f cx" "phis_ok f" "\<And>es. mset (entry_iter es) = mset es"
    and "unat (next_vreg cx) + sum_list (map (length \<circ> phi_edges) (pending_phis cx)) < 2 ^ 32"
  shows "\<exists>entries r. collect_copies cx = Inr entries \<and> lower_phi_copies (mir_blocks cx) (entry_iter entries) (next_vreg cx) = Inr r"
proof -
  have "\<forall>phi \<in> set (pending_phis cx). \<forall>(p, raw) \<in> set (phi_edges phi). copy_source cx raw \<noteq> None"
    using pending_edge[OF assms(1,2)] by fast
  then obtain entries where entries: "collect_copies cx = Inr entries" "entries_inv cx entries"
      "copy_count entries = sum_list (map (length \<circ> phi_edges) (pending_phis cx))"
    using collect_copies_total by blast
  have perm: "set (entry_iter entries) = set entries" "copy_count (entry_iter entries) = copy_count entries"
    using assms(3)[of entries] by (metis mset_eq_setD, metis copy_count_def mset_map sum_mset_sum_list)
  have "l \<in> label ` set (mir_blocks cx)" if "(l, cs) \<in> set entries" for l cs
  proof -
    have "cs \<noteq> [] \<and> (\<forall>c \<in> set cs. copy_origin cx l c)"
      using bspec[OF entries(2)[unfolded entries_inv_def] \<open>(l, cs) \<in> set entries\<close>] by simp
    then have "copy_origin cx l (hd cs)" by simp
    then obtain phi p raw where "phi \<in> set (pending_phis cx)" "(p, raw) \<in> set (phi_edges phi)"
        "l = actual_pred cx p (phi_block_label phi)"
      by (auto simp: copy_origin_def)
    then show ?thesis using actual_pred_label[OF assms(1)] pending_edge[OF assms(1,2)] by blast
  qed
  moreover have "below (copy_pairs cs) (next_vreg cx)" if "(l, cs) \<in> set entries" for l cs
    using collect_copies_below[of "length (params f)", OF _ entries(1) that] assms(1) by (simp add: selected_def)
  ultimately have ok: "\<forall>(l, cs) \<in> set (entry_iter entries).
      l \<in> label ` set (mir_blocks cx) \<and> functional (copy_pairs cs) \<and> below (copy_pairs cs) (next_vreg cx)"
    using entries_functional[OF assms(1,2) entries(2)] unfolding perm(1) by fast
  have "unat (next_vreg cx) + copy_count (entry_iter entries) < 2 ^ 32" using assms(4) entries(3) perm(2) by simp
  from lower_phi_copies_total[OF ok this]
  obtain r where "lower_phi_copies (mir_blocks cx) (entry_iter entries) (next_vreg cx) = Inr r" by blast
  then show ?thesis using entries(1) by blast
qed

section \<open>The counting loop is well formed\<close>

definition loop_block :: "nat \<Rightarrow> llvm_block" where
  "loop_block i = basic_blocks count_loop ! i"

lemma count_loop_blocks: "basic_blocks count_loop = [loop_block 0, loop_block 1, loop_block 2]"
  by (simp add: loop_block_def count_loop_def)

lemma loop_block_simps:
  "block_key (loop_block 0) = 10" "block_name (loop_block 0) = ''entry''"
  "block_key (loop_block 1) = 11" "block_name (loop_block 1) = ''header''"
  "block_key (loop_block 2) = 12" "block_name (loop_block 2) = ''exit''"
  "instructions (loop_block 0) = [jump_to 1 11]"
  "instructions (loop_block 2) = [plain_instr 6 ReturnI VoidType [ValueOp (int_value 3 64)]]"
  "instructions (loop_block 1) =
     [(plain_instr 2 PhiI (IntType 64) [])\<lparr>phi_incoming := [(int_constant 0 64 0, 10), (int_value 3 64, 11)]\<rparr>,
      plain_instr 3 AddI (IntType 64) [ValueOp (int_value 2 64), ValueOp (int_constant 0 64 1)],
      (plain_instr 4 ICmpI (IntType 1) [ValueOp (int_value 3 64), ValueOp (int_constant 0 64 10)])
        \<lparr>icmp_predicate := Some SGT\<rparr>,
      (plain_instr 5 BrI VoidType [])\<lparr>br_condition := Some (int_value 4 1), br_successors := [12, 11]\<rparr>]"
  by (simp_all add: loop_block_def count_loop_def)

lemma count_loop_maps:
  "label_map count_loop =
     (\<lambda>k. if k = 10 then Some ''entry'' else if k = 11 then Some ''header'' else if k = 12 then Some ''exit'' else None)"
  "map_of (block_map count_loop) ''entry'' = Some (loop_block 0)"
  "map_of (block_map count_loop) ''header'' = Some (loop_block 1)"
  "map_of (block_map count_loop) ''exit'' = Some (loop_block 2)"
  by (auto simp: count_loop_blocks loop_block_simps[simplified] make_label_of_def make_bb_of_def block_label_def)

lemma count_loop_entry: "basic_blocks count_loop \<noteq> []" "block_key (hd (basic_blocks count_loop)) = 10"
  by (simp_all add: count_loop_blocks loop_block_simps)

lemma count_loop_exits:
  "exits (label_map count_loop) (loop_block 0) = {''header''}"
  "exits (label_map count_loop) (loop_block 1) = {''exit'', ''header''}"
  "exits (label_map count_loop) (loop_block 2) = {}"
  by (auto simp: exits_def count_loop_maps loop_block_simps[simplified] jump_to_def plain_instr_def split: if_splits)

lemma count_loop_path:
  "cfg_path count_loop ls l \<Longrightarrow> l \<in> {''entry'', ''header'', ''exit''} \<and> (l = ''exit'' \<longrightarrow> ''header'' \<in> set ls)"
proof (induction rule: cfg_path.induct)
  case (entry l)
  then show ?case by (auto simp: count_loop_maps count_loop_entry)
next
  case (edge ls l bb l')
  from edge.IH consider "l = ''entry''" | "l = ''header''" | "l = ''exit''" by blast
  then show ?case
    using edge.hyps(2,3) edge.IH by cases (auto simp: count_loop_maps(2-) count_loop_exits simp del: One_nat_def)
qed

lemma count_loop_reachable: "reachable count_loop l \<longleftrightarrow> l \<in> {''entry'', ''header'', ''exit''}"
proof
  have entry: "cfg_path count_loop [] ''entry''"
    by (rule cfg_path.entry) (simp_all add: count_loop_maps count_loop_entry)
  have header: "cfg_path count_loop [''entry''] ''header''"
    by (rule cfg_path.edge[OF entry count_loop_maps(2)]) (simp add: count_loop_exits)
  have "cfg_path count_loop [''header'', ''entry''] ''exit''"
    by (rule cfg_path.edge[OF header count_loop_maps(3)]) (simp add: count_loop_exits del: One_nat_def)
  then show "l \<in> {''entry'', ''header'', ''exit''} \<Longrightarrow> reachable count_loop l"
    using entry header by (auto simp: reachable_def)
qed (use count_loop_path in \<open>auto simp: reachable_def\<close>)

lemma loop_block_ok:
  assumes "bb \<in> set (basic_blocks count_loop)"
  shows "terminated bb \<and> (\<forall>i \<in> set (instructions bb). instr_ok (label_map count_loop) i)"
proof -
  consider "bb = loop_block 0" | "bb = loop_block 1" | "bb = loop_block 2"
    using assms by (auto simp: count_loop_blocks)
  then show ?thesis
    by cases (auto simp: loop_block_simps[simplified] count_loop_maps terminated_def instr_ok_def jump_to_def plain_instr_def
        is_binary_def binary_opcode_def two_int_operands_def int_operand_def int_value_def int_constant_def)
qed

lemma defs_Cons: "defs (i # instrs) = (if defines_vreg i then insert (value_ref i) (defs instrs) else defs instrs)"
  by (auto simp: defs_def)

lemma count_loop_defs: "defs (instructions (loop_block 1)) = {2, 3, 4}"
  by (simp add: loop_block_simps[simplified] defs_Cons defines_vreg_def plain_instr_def is_binary_def binary_opcode_def)

lemma loop_block_needs:
  assumes "instructions (loop_block 1) = pre @ i # post"
  shows "needs i \<subseteq> defs pre"
  using assms unfolding loop_block_simps
  by (auto simp: append_eq_Cons_conv Cons_eq_append_conv needs_def defs_Cons defines_vreg_def plain_instr_def is_binary_def
      binary_opcode_def operand_needs_def int_value_def int_constant_def)

lemma count_loop_uses:
  assumes "reachable count_loop l" "map_of (block_map count_loop) l = Some bb" "instructions bb = pre @ i # post"
  shows "needs i \<subseteq> defs pre \<union>
    {k. \<exists>a bb'. dominates count_loop a l \<and> map_of (block_map count_loop) a = Some bb' \<and> k \<in> defs (instructions bb')}"
proof -
  have "dominates count_loop ''header'' ''exit''" using count_loop_path by (auto simp: dominates_def)
  then have exit: "3 \<in> {k. \<exists>a bb'. dominates count_loop a ''exit'' \<and> map_of (block_map count_loop) a = Some bb' \<and>
      k \<in> defs (instructions bb')}"
    using count_loop_maps(3) count_loop_defs by blast
  consider "l = ''entry''" | "l = ''header''" | "l = ''exit''" using assms(1) by (auto simp: count_loop_reachable)
  then show ?thesis
  proof cases
    case 1
    then have "i = jump_to 1 11" using assms(2,3) by (auto simp: count_loop_maps loop_block_simps Cons_eq_append_conv)
    then show ?thesis by (simp add: needs_def jump_to_def plain_instr_def)
  next
    case 2
    then show ?thesis using assms(2,3) loop_block_needs[of pre i post] by (auto simp: count_loop_maps)
  next
    case 3
    then have "i = plain_instr 6 ReturnI VoidType [ValueOp (int_value 3 64)]"
      using assms(2,3) by (auto simp: count_loop_maps loop_block_simps Cons_eq_append_conv)
    then have "needs i = {3}" by (simp add: needs_def plain_instr_def operand_needs_def int_value_def)
    then show ?thesis using exit unfolding 3 by simp
  qed
qed

lemma count_loop_selectable: "selectable count_loop"
  unfolding selectable_def using loop_block_ok count_loop_uses count_loop_entry(1) by (simp add: count_loop_size)

lemma loop_phi:
  assumes "reachable count_loop l" "map_of (block_map count_loop) l = Some bb" "i \<in> set (instructions bb)" "get_opcode i = PhiI"
  shows "phi_incoming i = [(int_constant 0 64 0, 10), (int_value 3 64, 11)]"
  using assms
  by (auto simp: count_loop_reachable count_loop_maps loop_block_simps[simplified] jump_to_def plain_instr_def)

lemma count_loop_labels: "map_of (block_map count_loop) l \<noteq> None \<Longrightarrow> l \<in> {''entry'', ''header'', ''exit''}"
  by (auto simp: count_loop_blocks loop_block_simps[simplified] make_bb_of_def block_label_def split: if_splits)

lemma count_loop_phi_weight: "sum_list (map phi_weight (basic_blocks count_loop)) = 2"
  by (simp add: count_loop_blocks loop_block_simps[simplified] phi_weight_def jump_to_def plain_instr_def)

lemma latch_label_long: "9 \<le> length (latch_label a b)"
  by (simp add: latch_label_def)

lemma count_loop_phis_ok: "phis_ok count_loop"
proof -
  have "l \<noteq> latch_label a b" if "map_of (block_map count_loop) l \<noteq> None" for l a b
    using count_loop_labels[OF that] latch_label_long[of a b] by auto
  moreover have "\<exists>a bb'. reachable count_loop a \<and> map_of (block_map count_loop) a = Some bb' \<and>
      value_key (int_value 3 64) \<in> defs (instructions bb')"
    using count_loop_maps(3) count_loop_defs by (auto simp: count_loop_reachable int_value_def)
  ultimately show ?thesis
    unfolding phis_ok_def
    by (auto simp: loop_phi count_loop_maps(1) count_loop_reachable int_constant_def)
qed

section \<open>Selection never panics\<close>

text \<open>
  C13: instruction selection never reaches one of its panics on a function in selectable form, whose
  phis stay within the limits of \<open>phis_ok\<close> and whose size is below 2 ^ 32: no label lookup, register
  lookup or operand access fails, and the phi copies are placed whatever order the hash map is walked in.
  Selectable form is narrower than what LLVM accepts: besides dominance and the shape LLVM asks for,
  branch conditions are not constants, call arguments are integer constants or values with a
  register, operands of comparisons and binary operations are integers, and blocks end in \<open>br\<close> or
  \<open>ret\<close>.  Functions outside it, such as one that branches on a constant, can panic.
\<close>

theorem isel_never_panics:
  assumes "selectable f" "phis_ok f" "\<And>es. mset (entry_iter es) = mset es" "function_size f < 2 ^ 32"
  shows "safe (lower_function entry_iter f msize)"
proof (cases "select_blocks msize f")
  case (Inl e)
  then show ?thesis using select_blocks_safe[OF assms(1), of msize] by (simp add: lower_function_def safe_def)
next
  case (Inr cx)
  note sel = select_blocks_selected[OF assms(1) Inr]
  have "length (params f) + 4 * sum_list (map (length \<circ> instructions) (basic_blocks f)) < 2 ^ 32"
    using assms(4) by (simp add: function_size_def)
  note sel = sel[OF this]
  have "unat (next_vreg cx) + sum_list (map (length \<circ> phi_edges) (pending_phis cx)) < 2 ^ 32"
    using sel(2,3) assms(4) by (simp add: function_size_def)
  then obtain entries r where "collect_copies cx = Inr entries"
      "lower_phi_copies (mir_blocks cx) (entry_iter entries) (next_vreg cx) = Inr r"
    using lower_selected_phis[OF sel(1) assms(2,3)] by blast
  then show ?thesis using Inr by (simp add: lower_function_def split: prod.splits)
qed

theorem isel_never_panics_witness: "safe (lower_function (\<lambda>es. es) count_loop 0x10000)"
  using isel_never_panics[OF count_loop_selectable count_loop_phis_ok, of "\<lambda>es. es" "0x10000"]
  by (simp add: function_size_def count_loop_size count_loop_phi_weight)

text \<open>
  C14: instruction selection walks the control-flow graph completely and never twice over a block: when it
  succeeds on a function in selectable form, its worklist is empty and the visited blocks are without
  repetition exactly those that the entry reaches.
\<close>

theorem isel_visits_reachable:
  assumes "selectable f" "select_blocks msize f = Inr cx"
  shows "worklist cx = [] \<and> distinct (visited cx) \<and> (\<forall>l. l \<in> set (visited cx) \<longleftrightarrow> reachable f l)"
proof -
  have ex: "explored f cx" "worklist cx = []" using select_blocks_explored[OF assms] by simp_all
  then show ?thesis using explored_visits[OF ex] unfolding explored_def by blast
qed

theorem isel_visits_reachable_witness:
  "\<exists>cx. select_blocks 0x10000 count_loop = Inr cx \<and> distinct (visited cx) \<and> set (visited cx) = {''entry'', ''header'', ''exit''}"
proof -
  obtain cx where cx: "select_blocks 0x10000 count_loop = Inr cx" using count_loop_selected by blast
  then show ?thesis using isel_visits_reachable[OF count_loop_selectable cx] by (auto simp: count_loop_reachable)
qed

end
