(* ===== verification/Departures.thy ===== *)
theory Departures
  imports Compile
begin

text \<open>
  Inputs on which the passes, each doing what its code says, together do not do what the compiler is
  meant to do.  Each lemma evaluates the model on one small LLVM function and records the code that
  comes out; they are examples, and claim nothing of other functions.
\<close>

definition compile_function :: "llvm_function \<Rightarrow> compile_error + mir_function" where
  "compile_function f =
     and_then (lower_function id f DEFAULT_MEMORY_SIZE) (\<lambda>f. allocate_registers id f DEFAULT_MEMORY_SIZE)"

text \<open>A function of two 64-bit parameters that returns the one with the given key, 1 or 2.\<close>

definition return_param :: "nat \<Rightarrow> llvm_function" where
  "return_param k =
     \<lparr>llvm_name = ''f'', params = [int_value 1 64, int_value 2 64], return_type = IntType 64,
      basic_blocks = [\<lparr>block_key = 10, block_name = ''entry'',
        instructions = [plain_instr 3 ReturnI VoidType [ValueOp (int_value k 64)]]\<rparr>]\<rparr>"

text \<open>
  Parameters are not taken from the argument registers.  Instruction selection gives each
  parameter a virtual register but nothing binds it to \<open>r2\<close>, \<open>r3\<close> and so on, where a call puts the
  arguments; the allocator hands out registers by first use.  A function that returns its second
  parameter compiles to the same code as one that returns its first: \<open>mov r1, r2\<close>.
\<close>

lemma parameters_not_bound:
  "compile_function (return_param 1) = compile_function (return_param 2) \<and>
   compile_function (return_param 2) =
     Inr \<lparr>fname = ''f'',
          blocks = [\<lparr>label = ''entry'', syllables = [syl Mov (Some (PReg RETVAL_REG)) [RegV (PReg ARG_REG_FIRST)]],
                     terminator = ReturnT\<rparr>]\<rparr>"
proof -
  have "compile_function (return_param 1) =
      Inr \<lparr>fname = ''f'', blocks = [\<lparr>label = ''entry'', syllables = [syl Mov (Some (PReg 1)) [RegV (PReg 2)]],
        terminator = ReturnT\<rparr>]\<rparr>" by code_simp
  moreover have "compile_function (return_param 2) =
      Inr \<lparr>fname = ''f'', blocks = [\<lparr>label = ''entry'', syllables = [syl Mov (Some (PReg 1)) [RegV (PReg 2)]],
        terminator = ReturnT\<rparr>]\<rparr>" by code_simp
  ultimately show ?thesis by (simp add: reg_consts)
qed

text \<open>A loop that returns the value its counter had in the last iteration, before the increment.\<close>

definition last_index :: llvm_function where
  "last_index =
     \<lparr>llvm_name = ''last'', params = [], return_type = IntType 64,
      basic_blocks =
        [\<lparr>block_key = 10, block_name = ''entry'', instructions = [jump_to 1 11]\<rparr>,
         \<lparr>block_key = 11, block_name = ''header'',
          instructions =
            [(plain_instr 2 PhiI (IntType 64) [])\<lparr>phi_incoming := [(int_constant 0 64 0, 10), (int_value 3 64, 11)]\<rparr>,
             plain_instr 3 AddI (IntType 64) [ValueOp (int_value 2 64), ValueOp (int_constant 0 64 1)],
             (plain_instr 4 ICmpI (IntType 1) [ValueOp (int_value 3 64), ValueOp (int_constant 0 64 10)])
               \<lparr>icmp_predicate := Some SLT\<rparr>,
             (plain_instr 5 BrI VoidType [])\<lparr>br_condition := Some (int_value 4 1), br_successors := [11, 12]\<rparr>]\<rparr>,
         \<lparr>block_key = 12, block_name = ''exit'',
          instructions = [plain_instr 6 ReturnI VoidType [ValueOp (int_value 2 64)]]\<rparr>]\<rparr>"

text \<open>
  Phi copies can run on edges they do not belong to.  Copies for a conditional branch to a phi block
  go into the block before its branch unless the edge is a backward false edge, which gets a latch
  block.  In this loop the true edge goes back to the header, so the copy of the incremented counter
  into the phi's register runs on the exit edge too, and the exit block returns the incremented
  counter where the LLVM function returns the phi.
\<close>

lemma phi_copy_before_branch:
  "lower_function id last_index DEFAULT_MEMORY_SIZE =
     Inr \<lparr>fname = ''last'',
          blocks =
            [\<lparr>label = ''entry'', syllables = [syl MovImm (Some (VReg 0)) [ImmV 0]], terminator = JumpT ''header''\<rparr>,
             \<lparr>label = ''header'',
              syllables =
                [syl MovImm (Some (VReg 1)) [ImmV 1],
                 syl Add (Some (VReg 2)) [RegV (VReg 0), RegV (VReg 1)],
                 syl MovImm (Some (VReg 3)) [ImmV 10],
                 syl CmpLt (Some (VReg 4)) [RegV (VReg 2), RegV (VReg 3)],
                 syl Mov (Some (VReg 0)) [RegV (VReg 2)]],
              terminator = BranchT (VReg 4) ''header''\<rparr>,
             \<lparr>label = ''exit'', syllables = [syl Mov (Some (PReg RETVAL_REG)) [RegV (VReg 0)]],
              terminator = ReturnT\<rparr>]\<rparr>"
  by code_simp

text \<open>A conditional branch on the constant \<open>true\<close>, which is valid LLVM IR.\<close>

definition branch_on_true :: llvm_function where
  "branch_on_true =
     \<lparr>llvm_name = ''t'', params = [], return_type = VoidType,
      basic_blocks =
        [\<lparr>block_key = 10, block_name = ''entry'',
          instructions =
            [(plain_instr 1 BrI VoidType [])\<lparr>br_condition := Some (int_constant 2 1 1), br_successors := [11, 11]\<rparr>]\<rparr>,
         \<lparr>block_key = 11, block_name = ''exit'', instructions = [plain_instr 3 ReturnI VoidType []]\<rparr>]\<rparr>"

lemma constant_condition_panics:
  "check_function branch_on_true = Inr () \<and>
   lower_function id branch_on_true DEFAULT_MEMORY_SIZE = Inl (Panic ''branch condition not in vreg_map'')"
proof -
  have "check_function branch_on_true = Inr ()" by code_simp
  moreover have "lower_function id branch_on_true DEFAULT_MEMORY_SIZE = Inl (Panic ''branch condition not in vreg_map'')"
    by code_simp
  ultimately show ?thesis by blast
qed

text \<open>Two functions whose entry blocks have the same name, as LLVM front ends produce them.\<close>

definition empty_function :: "string \<Rightarrow> llvm_function" where
  "empty_function name =
     \<lparr>llvm_name = name, params = [], return_type = VoidType,
      basic_blocks = [\<lparr>block_key = 10, block_name = ''entry'', instructions = [plain_instr 3 ReturnI VoidType []]\<rparr>]\<rparr>"

lemma labels_clash_across_functions:
  "\<exists>fns. lower_all_functions id \<lparr>module_functions = [empty_function ''f'', empty_function ''g'']\<rparr> DEFAULT_MEMORY_SIZE = Inr fns \<and>
     function_labels fns = [''f'', ''entry'', ''g'', ''entry'']"
proof -
  let ?m = "\<lparr>module_functions = [empty_function ''f'', empty_function ''g'']\<rparr>"
  have "case lower_all_functions id ?m DEFAULT_MEMORY_SIZE of
      Inl _ \<Rightarrow> False | Inr fns \<Rightarrow> function_labels fns = [''f'', ''entry'', ''g'', ''entry'']" by code_simp
  then show ?thesis by (auto split: sum.splits)
qed

end
