(* ===== verification/Straight.thy ===== *)
theory Straight
  imports Compile
begin

text \<open>
  Compiling straight-line functions preserves their meaning.  LLVM's semantics of 64-bit and narrower
  integer arithmetic and of memory at constant addresses is given as an evaluator, which is undefined
  on what LLVM leaves undefined; instruction selection simulates it step by step, and register
  allocation and scheduling keep the result.
\<close>

unbundle bit_operations_syntax

section \<open>LLVM semantics of straight-line code\<close>

text \<open>
  Integer values are kept with their width, as words below two to the width.  Memory is abstract: a
  load and a store of a number of bits at an address.
\<close>

record 'g llvm_memory =
  mem_load :: "u32 \<Rightarrow> 'g \<Rightarrow> i64 \<Rightarrow> i64"
  mem_store :: "u32 \<Rightarrow> 'g \<Rightarrow> i64 \<Rightarrow> i64 \<Rightarrow> 'g"

record 'g llvm_state =
  ints :: "nat \<rightharpoonup> u32 \<times> i64"
  ptrs :: "nat \<rightharpoonup> i64"
  heap :: 'g

definition trunc :: "u32 \<Rightarrow> i64 \<Rightarrow> i64" where
  "trunc w x = take_bit (unat w) x"

definition int_operand_value :: "'g llvm_state \<Rightarrow> llvm_operand \<Rightarrow> (u32 \<times> i64) option" where
  "int_operand_value s opr =
     (case opr of
        ValueOp v \<Rightarrow>
          (case value_type v of
             IntType w \<Rightarrow>
               if is_const v then map_option (\<lambda>n. (w, trunc w n)) (const_int v)
               else Option.bind (ints s (value_key v)) (\<lambda>(w', x). if w' = w then Some (w, x) else None)
           | _ \<Rightarrow> None)
      | BlockOp _ \<Rightarrow> None)"

definition ptr_operand_value :: "'g llvm_state \<Rightarrow> llvm_operand \<Rightarrow> i64 option" where
  "ptr_operand_value s opr =
     (case opr of
        ValueOp v \<Rightarrow>
          if value_type v \<noteq> PointerType then None
          else if is_const v then inttoptr_const v else ptrs s (value_key v)
      | BlockOp _ \<Rightarrow> None)"

definition const_index :: "llvm_operand \<Rightarrow> i64 option" where
  "const_index opr =
     (case opr of
        ValueOp v \<Rightarrow> (case value_type v of IntType _ \<Rightarrow> if is_const v then const_int v else None | _ \<Rightarrow> None)
      | BlockOp _ \<Rightarrow> None)"

text \<open>A shift by the width or more is poison, so it has no value.\<close>

definition llvm_binary :: "instruction_opcode \<Rightarrow> u32 \<Rightarrow> i64 \<Rightarrow> i64 \<Rightarrow> i64 option" where
  "llvm_binary op w a b =
     (case op of
        AddI \<Rightarrow> Some (trunc w (a + b))
      | SubI \<Rightarrow> Some (trunc w (a - b))
      | MulI \<Rightarrow> Some (trunc w (a * b))
      | AndI \<Rightarrow> Some (a AND b)
      | OrI \<Rightarrow> Some (a OR b)
      | XorI \<Rightarrow> Some (a XOR b)
      | ShlI \<Rightarrow> if unat b < unat w then Some (trunc w (push_bit (unat b) a)) else None
      | LShrI \<Rightarrow> if unat b < unat w then Some (drop_bit (unat b) a) else None
      | AShrI \<Rightarrow> if unat b < unat w then Some (trunc w (signed_drop_bit (unat b) (signed_take_bit (unat w - 1) a))) else None
      | _ \<Rightarrow> None)"

definition access_width :: "u32 \<Rightarrow> bool" where
  "access_width w \<longleftrightarrow> w = 8 \<or> w = 32 \<or> w = 64"

text \<open>One instruction other than a return; the element size of an address computation is in bytes.\<close>

definition llvm_step :: "'g llvm_memory \<Rightarrow> llvm_instr \<Rightarrow> 'g llvm_state \<Rightarrow> 'g llvm_state option" where
  "llvm_step mm i s =
     (case get_opcode i of
        LoadI \<Rightarrow>
          (case (get_operands i, get_type i) of
             ([p], IntType w) \<Rightarrow>
               if access_width w then
                 Option.bind (ptr_operand_value s p) (\<lambda>a.
                 Some (s\<lparr>ints := (ints s)(value_ref i \<mapsto> (w, trunc w (mem_load mm w (heap s) a)))\<rparr>))
               else None
           | _ \<Rightarrow> None)
      | StoreI \<Rightarrow>
          (case get_operands i of
             [v, p] \<Rightarrow>
               Option.bind (int_operand_value s v) (\<lambda>(w, x).
               Option.bind (ptr_operand_value s p) (\<lambda>a.
               if access_width w then Some (s\<lparr>heap := mem_store mm w (heap s) a x\<rparr>) else None))
           | _ \<Rightarrow> None)
      | GetElementPtrI \<Rightarrow>
          (case (get_operands i, gep_source_type i) of
             ([p, k], IntType w) \<Rightarrow>
               if access_width w then
                 Option.bind (ptr_operand_value s p) (\<lambda>a.
                 Option.bind (const_index k) (\<lambda>n.
                 Some (s\<lparr>ptrs := (ptrs s)(value_ref i \<mapsto> a + n * of_nat (unat w div 8))\<rparr>)))
               else None
           | _ \<Rightarrow> None)
      | op \<Rightarrow>
          (case (get_operands i, get_type i) of
             ([a, b], IntType w) \<Rightarrow>
               Option.bind (int_operand_value s a) (\<lambda>(wa, x).
               Option.bind (int_operand_value s b) (\<lambda>(wb, y).
               if wa = w \<and> wb = w \<and> w \<le> 64 then
                 Option.bind (llvm_binary op w x y) (\<lambda>z. Some (s\<lparr>ints := (ints s)(value_ref i \<mapsto> (w, z))\<rparr>))
               else None))
           | _ \<Rightarrow> None))"

text \<open>A block: its instructions up to the return, which comes last and may have an integer operand.\<close>

fun llvm_exec :: "'g llvm_memory \<Rightarrow> llvm_instr list \<Rightarrow> 'g llvm_state \<Rightarrow> ((u32 \<times> i64) option \<times> 'g) option" where
  "llvm_exec mm [] s = None"
| "llvm_exec mm (i # rest) s =
     (if get_opcode i = ReturnI then
        if rest \<noteq> [] then None
        else (case get_operands i of
                [] \<Rightarrow> Some (None, heap s)
              | [v] \<Rightarrow> Option.bind (int_operand_value s v) (\<lambda>r. Some (Some r, heap s))
              | _ \<Rightarrow> None)
      else Option.bind (llvm_step mm i s) (llvm_exec mm rest))"

section \<open>What the machine computes\<close>

text \<open>
  The documented effect of the opcodes that selection uses.  Shifts are constrained only for amounts
  below 64, and narrow loads only in the bits they load.
\<close>

definition computes :: "(i64, 's, 'g) isa \<Rightarrow> 'g llvm_memory \<Rightarrow> bool" where
  "computes M mm \<longleftrightarrow>
     (\<forall>n. imm_val M n = n) \<and> (\<forall>a. alu_eff M Mov [a] = a) \<and> (\<forall>a. alu_eff M MovImm [a] = a) \<and>
     (\<forall>a b. alu_eff M Add [a, b] = a + b) \<and> (\<forall>a b. alu_eff M Sub [a, b] = a - b) \<and>
     (\<forall>a b. alu_eff M Mul [a, b] = a * b) \<and> (\<forall>a b. alu_eff M And [a, b] = a AND b) \<and>
     (\<forall>a b. alu_eff M Or [a, b] = a OR b) \<and> (\<forall>a b. alu_eff M Xor [a, b] = a XOR b) \<and>
     (\<forall>a b. unat b < 64 \<longrightarrow> alu_eff M Shl [a, b] = push_bit (unat b) a) \<and>
     (\<forall>a b. unat b < 64 \<longrightarrow> alu_eff M Srl [a, b] = drop_bit (unat b) a) \<and>
     (\<forall>a b. unat b < 64 \<longrightarrow> alu_eff M Sra [a, b] = signed_drop_bit (unat b) a)"

definition accesses :: "(i64, 's, 'g) isa \<Rightarrow> 'g llvm_memory \<Rightarrow> opcode \<Rightarrow> opcode \<Rightarrow> u32 \<Rightarrow> bool" where
  "accesses M mm ld sto w \<longleftrightarrow>
     (\<forall>a d g. trunc w (fst (global_eff M ld [a] g)) = trunc w (mem_load mm w g a) \<and> snd (global_eff M ld [a] g) = g \<and>
        trunc w (fst (global_eff M ld [a, d] g)) = trunc w (mem_load mm w g (a + d)) \<and> snd (global_eff M ld [a, d] g) = g) \<and>
     (\<forall>a d v g. snd (global_eff M sto [a, v] g) = mem_store mm w g a (trunc w v) \<and>
        snd (global_eff M sto [a, d, v] g) = mem_store mm w g (a + d) (trunc w v))"

definition memory_ops :: "(i64, 's, 'g) isa \<Rightarrow> 'g llvm_memory \<Rightarrow> bool" where
  "memory_ops M mm \<longleftrightarrow> accesses M mm LoadB StoreB 8 \<and> accesses M mm LoadW StoreW 32 \<and> accesses M mm LoadD StoreD 64"

text \<open>
  Registers hold narrow values with unspecified upper bits, which the right shifts and the shift
  amounts would see: shifts have to be on full words.
\<close>

definition full_shifts :: "llvm_instr list \<Rightarrow> bool" where
  "full_shifts instrs \<longleftrightarrow> (\<forall>i \<in> set instrs. get_opcode i \<in> {ShlI, LShrI, AShrI} \<longrightarrow> get_type i = IntType 64)"

section \<open>The simulation\<close>

abbreviation vr :: "u32 \<Rightarrow> reg_key" where "vr n \<equiv> RegKey Gpr (VReg n)"

text \<open>The machine state after the syllables selected so far in the current block.\<close>

definition after :: "('v, 's, 'g) isa \<Rightarrow> ('v, 's, 'g) mstate \<Rightarrow> isel_cx \<Rightarrow> ('v, 's, 'g) mstate" where
  "after M st cx = exec M (cur_syls cx) st"

definition values_sim :: "(i64, 's, 'g) isa \<Rightarrow> (i64, 's, 'g) mstate \<Rightarrow> 'g llvm_state \<Rightarrow> isel_cx \<Rightarrow> bool" where
  "values_sim M st s cx \<longleftrightarrow>
     (\<forall>k w x. ints s k = Some (w, x) \<longrightarrow>
        (\<exists>n. vreg_map cx k = Some n \<and> n < next_vreg cx \<and> trunc w (rf (after M st cx) (vr n)) = x)) \<and>
     (\<forall>k a. ptrs s k = Some a \<longrightarrow> (\<exists>base off. gep_map cx k = Some (ImmV base, off) \<and> base + off = a)) \<and>
     glob (after M st cx) = heap s"

text \<open>The shape that the register allocator relies on.\<close>

definition ssa_shape :: "isel_cx \<Rightarrow> bool" where
  "ssa_shape cx \<longleftrightarrow>
     ssa_from {} (cur_syls cx) \<and> (\<forall>sy \<in> set (cur_syls cx). plain_syllable sy) \<and>
     (\<forall>n. n < next_vreg cx \<longleftrightarrow> (\<exists>sy \<in> set (cur_syls cx). dst_vreg sy = Some n))"

definition sim :: "(i64, 's, 'g) isa \<Rightarrow> (i64, 's, 'g) mstate \<Rightarrow> 'g llvm_state \<Rightarrow> isel_cx \<Rightarrow> bool" where
  "sim M st s cx \<longleftrightarrow> values_sim M st s cx \<and> ssa_shape cx"

text \<open>A step that adds at most \<open>k\<close> registers, keeps the older ones and leaves the control flow alone.\<close>

definition flow where
  "flow cx = (pending_phis cx, edge_remap cx, worklist cx, visited cx, mir_blocks cx, cur_label cx, cur_term cx,
     false_succ cx, true_succ cx)"

definition extends :: "(i64, 's, 'g) isa \<Rightarrow> (i64, 's, 'g) mstate \<Rightarrow> nat \<Rightarrow> isel_cx \<Rightarrow> isel_cx \<Rightarrow> bool" where
  "extends M st k cx cx' \<longleftrightarrow>
     flow cx' = flow cx \<and> next_vreg cx \<le> next_vreg cx' \<and> unat (next_vreg cx') \<le> unat (next_vreg cx) + k \<and>
     (\<forall>n < next_vreg cx. rf (after M st cx') (vr n) = rf (after M st cx) (vr n))"

lemma extends_refl [simp]: "extends M st k cx cx"
  by (simp add: extends_def)

lemma extends_trans: "extends M st j cx cx' \<Longrightarrow> extends M st k cx' cx'' \<Longrightarrow> extends M st (j + k) cx cx''"
  by (auto simp: extends_def)

lemma ssa_from_append:
  "ssa_from D (ss @ ts) \<longleftrightarrow> ssa_from D ss \<and> ssa_from (D \<union> {n. \<exists>sy \<in> set ss. dst_vreg sy = Some n}) ts"
proof (induction ss arbitrary: D)
  case (Cons sy ss)
  have "insert v D \<union> {n. \<exists>sy \<in> set ss. dst_vreg sy = Some n} = D \<union> {n. \<exists>sy' \<in> set (sy # ss). dst_vreg sy' = Some n}"
    if "dst_vreg sy = Some v" for v using that by auto
  then show ?case using Cons by (auto split: option.splits)
qed simp

text \<open>Appending a syllable that defines the next register, or none.\<close>

lemma next_fresh: "unat n + 1 < 2 ^ 32 \<Longrightarrow> m < n + 1 \<longleftrightarrow> m < n \<or> m = (n :: u32)"
  by (auto simp: word_less_nat_alt unat_word_ariths word_unat_eq_iff)

lemma ssa_shape_define:
  assumes "ssa_shape cx" "unat (next_vreg cx) + 1 < 2 ^ 32" "plain_syllable sy" "dst sy = Some (VReg (next_vreg cx))"
    and "\<forall>n \<in> set (src_vregs sy). n < next_vreg cx"
  shows "ssa_shape (push_syl sy (cx\<lparr>next_vreg := next_vreg cx + 1\<rparr>))"
proof -
  have "{n. \<exists>sy \<in> set (cur_syls cx). dst_vreg sy = Some n} = {n. n < next_vreg cx}" using assms(1) by (auto simp: ssa_shape_def)
  moreover have d: "dst_vreg sy = Some (next_vreg cx)" using assms(4) by (simp add: dst_vreg_def)
  ultimately have "ssa_from {} (cur_syls cx @ [sy])" using assms(1,5) by (auto simp: ssa_from_append ssa_shape_def)
  then show ?thesis using assms(1,3) d next_fresh[OF assms(2)] by (auto simp: ssa_shape_def push_syl_def)
qed

lemma ssa_shape_emit:
  assumes "ssa_shape cx" "plain_syllable sy" "dst_vreg sy = None" "\<forall>n \<in> set (src_vregs sy). n < next_vreg cx"
  shows "ssa_shape (push_syl sy cx)"
proof -
  have "{n. \<exists>sy \<in> set (cur_syls cx). dst_vreg sy = Some n} = {n. n < next_vreg cx}" using assms(1) by (auto simp: ssa_shape_def)
  then have "ssa_from {} (cur_syls cx @ [sy])" using assms(1,3,4) by (auto simp: ssa_from_append ssa_shape_def)
  then show ?thesis using assms(1-3) by (auto simp: ssa_shape_def push_syl_def)
qed

lemma sim_define:
  assumes "sim M st s cx" "unat (next_vreg cx) + 1 < 2 ^ 32" "plain_syllable sy" "dst sy = Some (VReg (next_vreg cx))"
    and "\<forall>n \<in> set (src_vregs sy). n < next_vreg cx"
    and "exec_syl M sy (after M st cx) = (after M st cx)\<lparr>rf := (rf (after M st cx))(vr (next_vreg cx) := v)\<rparr>"
  shows "\<exists>cx'. cx' = push_syl sy (cx\<lparr>next_vreg := next_vreg cx + 1\<rparr>) \<and> sim M st s cx' \<and> extends M st 1 cx cx' \<and>
    rf (after M st cx') (vr (next_vreg cx)) = v \<and> next_vreg cx < next_vreg cx'"
proof -
  let ?cx = "push_syl sy (cx\<lparr>next_vreg := next_vreg cx + 1\<rparr>)"
  have st: "after M st ?cx = (after M st cx)\<lparr>rf := (rf (after M st cx))(vr (next_vreg cx) := v)\<rparr>"
    using assms(6) by (simp add: after_def push_syl_def)
  have "values_sim M st s ?cx"
    using assms(1) next_fresh[OF assms(2)] unfolding sim_def values_sim_def st by (fastforce simp: push_syl_def)
  moreover have "extends M st 1 cx ?cx"
    using assms(2) unfolding extends_def st
    by (auto simp: flow_def push_syl_def word_le_nat_alt unat_word_ariths)
  ultimately show ?thesis
    using ssa_shape_define[OF _ assms(2-5)] assms(1) st next_fresh[OF assms(2)] by (auto simp: sim_def push_syl_def)
qed

lemma sim_bind:
  assumes "sim M st s cx" "n < next_vreg cx" "trunc w (rf (after M st cx) (vr n)) = x"
  shows "sim M st (s\<lparr>ints := (ints s)(k \<mapsto> (w, x))\<rparr>) (cx\<lparr>vreg_map := (vreg_map cx)(k \<mapsto> n)\<rparr>)"
  using assms by (auto simp: sim_def values_sim_def ssa_shape_def after_def)

section \<open>Operands\<close>

text \<open>A register-only syllable over virtual registers below the next one, and what it computes.\<close>

definition alu_like :: "opcode \<Rightarrow> bool" where
  "alu_like op \<longleftrightarrow> op \<in> {Mov, MovImm, Add, Sub, Mul, And, Or, Xor, Shl, Srl, Sra}"

lemma alu_like_plain:
  assumes "alu_like op" "\<forall>v \<in> set vs. \<exists>n. v = RegV (VReg n) \<or> v = ImmV m"
  shows "plain_syllable (syl op (Some (VReg d)) vs)"
  using assms unfolding alu_like_def
  by (auto simp: plain_syllable_def source_class_def predicate_sources_def is_memory_opcode_def table_simps)

lemma alu_like_exec:
  assumes "alu_like op"
  shows "exec_syl M (syl op (Some r) vs) st =
    st\<lparr>rf := write_reg (Some (RegKey Gpr r)) (alu_eff M op (map (src_value M (rf st) op) vs)) (rf st)\<rparr>"
  using assms unfolding alu_like_def
  by (auto simp: exec_syl_def src_values_def dest_reg_key_def is_memory_opcode_def table_simps Let_def)

lemma write_vreg [simp]: "write_reg (Some (vr n)) v regs = regs(vr n := v)"
  by (simp add: write_reg_def)

lemma sim_alu:
  assumes "sim M st s cx" "unat (next_vreg cx) + 1 < 2 ^ 32" "alu_like op"
    and "vs = [ImmV m] \<or> (\<exists>a b. vs = [RegV (VReg a), RegV (VReg b)] \<and> a < next_vreg cx \<and> b < next_vreg cx)"
  shows "\<exists>cx'. cx' = push_syl (syl op (Some (VReg (next_vreg cx))) vs) (cx\<lparr>next_vreg := next_vreg cx + 1\<rparr>) \<and>
    sim M st s cx' \<and> extends M st 1 cx cx' \<and>
    rf (after M st cx') (vr (next_vreg cx)) = alu_eff M op (map (src_value M (rf (after M st cx)) op) vs) \<and>
    next_vreg cx < next_vreg cx'"
proof (rule sim_define[OF assms(1,2)])
  show "plain_syllable (syl op (Some (VReg (next_vreg cx))) vs)"
    using assms(4) by (intro alu_like_plain[OF assms(3)]) auto
  show "\<forall>n \<in> set (src_vregs (syl op (Some (VReg (next_vreg cx))) vs)). n < next_vreg cx"
    using assms(4) by (auto simp: set_src_vregs)
qed (simp_all add: alu_like_exec[OF assms(3)])

lemma src_value_vreg: "alu_like op \<Longrightarrow> src_value M regs op (RegV (VReg n)) = regs (vr n)"
  by (auto simp: src_value_def alu_like_def source_class_def predicate_sources_def)

lemma src_value_imm [simp]: "src_value M regs op (ImmV n) = imm_val M n"
  by (simp add: src_value_def)

lemma sim_operand:
  assumes "computes M mm" "sim M st s cx" "unat (next_vreg cx) + 1 < 2 ^ 32" "int_operand_value s opr = Some (w, x)"
  shows "\<exists>n cx'. lower_operand opr cx = Inr (RegV (VReg n), cx') \<and> sim M st s cx' \<and> extends M st 1 cx cx' \<and>
    n < next_vreg cx' \<and> trunc w (rf (after M st cx') (vr n)) = x"
proof -
  obtain v where v: "opr = ValueOp v" "value_type v = IntType w"
    using assms(4) by (auto simp: int_operand_value_def bind_eq_Some_conv split: llvm_operand.splits llvm_type.splits if_splits)
  show ?thesis
  proof (cases "is_const v")
    case True
    then obtain m where m: "const_int v = Some m" "x = trunc w m" using assms(4) v by (auto simp: int_operand_value_def)
    have "alu_like MovImm" by (simp add: alu_like_def)
    from sim_alu[OF assms(2,3) this, of "[ImmV m]" m] show ?thesis
      using v m True assms(1) by (auto simp: lower_operand_def Let_def computes_def)
  next
    case False
    then have "ints s (value_key v) = Some (w, x)"
      using assms(4) v by (auto simp: int_operand_value_def bind_eq_Some_conv split: if_splits)
    then obtain n where "vreg_map cx (value_key v) = Some n" "n < next_vreg cx" "trunc w (rf (after M st cx) (vr n)) = x"
      using assms(2) unfolding sim_def values_sim_def by blast
    then show ?thesis using v False assms(2) by (auto simp: lower_operand_def expect_some_def)
  qed
qed

lemma sim_ptr:
  assumes "sim M st s cx" "ptr_operand_value s opr = Some a"
  shows "\<exists>base off. lower_ptr_operand opr cx = Inr (ImmV base, off) \<and> base + off = a"
proof -
  obtain v where v: "opr = ValueOp v" "value_type v = PointerType"
    using assms(2) by (auto simp: ptr_operand_value_def split: llvm_operand.splits if_splits)
  show ?thesis
  proof (cases "is_const v")
    case True
    then show ?thesis using assms(2) v by (auto simp: ptr_operand_value_def lower_ptr_operand_def)
  next
    case False
    then have "ptrs s (value_key v) = Some a" using assms(2) v by (simp add: ptr_operand_value_def)
    then obtain base off where "gep_map cx (value_key v) = Some (ImmV base, off)" "base + off = a"
      using assms(1) unfolding sim_def values_sim_def by blast
    then show ?thesis using v False by (simp add: lower_ptr_operand_def)
  qed
qed

section \<open>Instructions\<close>

lemma trunc_trunc [simp]: "trunc w (trunc w x) = trunc w x"
  by (simp add: trunc_def)

lemma trunc_64 [simp]: "trunc 64 x = x"
  by (simp add: trunc_def take_bit_word_eq_self)

lemma trunc_ops:
  "trunc w (trunc w a + trunc w b) = trunc w (a + b)"
  "trunc w (trunc w a - trunc w b) = trunc w (a - b)"
  "trunc w (trunc w a * trunc w b) = trunc w (a * b)"
  "trunc w a AND trunc w b = trunc w (a AND b)"
  "trunc w a OR trunc w b = trunc w (a OR b)"
  "trunc w a XOR trunc w b = trunc w (a XOR b)"
  unfolding trunc_def
  by (transfer, simp add: take_bit_add take_bit_take_bit min_def, transfer, simp add: take_bit_diff,
      transfer, simp add: take_bit_mult, simp_all add: take_bit_and take_bit_or take_bit_xor)

lemma signed_take_bit_full: "signed_take_bit 63 a = (a :: i64)"
  by (rule bit_word_eqI) (auto simp: bit_signed_take_bit_iff min_def intro!: arg_cong[where f = "bit a"])

lemma llvm_binary_computed:
  assumes "computes M mm" "binary_opcode op = Some vop" "llvm_binary op w (trunc w a) (trunc w b) = Some z"
    and "op \<in> {ShlI, LShrI, AShrI} \<longrightarrow> w = 64"
  shows "z = trunc w (alu_eff M vop [a, b]) \<and> alu_like vop"
proof -
  have w: "a = trunc w a \<and> b = trunc w b \<and> w = 64 \<and> signed_take_bit 63 a = a" if "op \<in> {ShlI, LShrI, AShrI}"
    using that assms(4) by (simp add: signed_take_bit_full)
  show ?thesis
    using assms(1-3) w
    by (cases op) (auto simp: binary_opcode_def llvm_binary_def computes_def alu_like_def trunc_ops split: if_splits)
qed

lemma sim_extends_value:
  "extends M st k cx cx' \<Longrightarrow> n < next_vreg cx \<Longrightarrow> trunc w (rf (after M st cx) (vr n)) = x \<Longrightarrow>
     n < next_vreg cx' \<and> trunc w (rf (after M st cx') (vr n)) = x"
  by (auto simp: extends_def)

lemma extends_bound: "extends M st k cx cx' \<Longrightarrow> unat (next_vreg cx) + k + m < 2 ^ 32 \<Longrightarrow> unat (next_vreg cx') + m < 2 ^ 32"
  by (auto simp: extends_def)

text \<open>Updates that the simulation does not look at.\<close>

lemma extends_maps [simp]:
  "extends M st k cx (cx'\<lparr>vreg_map := m\<rparr>) \<longleftrightarrow> extends M st k cx cx'"
  "extends M st k cx (cx'\<lparr>gep_map := g\<rparr>) \<longleftrightarrow> extends M st k cx cx'"
  by (simp_all add: extends_def flow_def after_def)

lemma sim_binary:
  assumes "computes M mm" "sim M st s cx" "unat (next_vreg cx) + 3 < 2 ^ 32" "binary_opcode (get_opcode i) = Some vop"
    and "get_operands i = [a, b]" "int_operand_value s a = Some (w, x)" "int_operand_value s b = Some (w, y)"
    and "llvm_binary (get_opcode i) w x y = Some z" "get_opcode i \<in> {ShlI, LShrI, AShrI} \<longrightarrow> w = 64"
  shows "\<exists>cx'. lower_binary vop i cx = Inr cx' \<and> sim M st (s\<lparr>ints := (ints s)(value_ref i \<mapsto> (w, z))\<rparr>) cx' \<and> extends M st 3 cx cx'"
proof -
  obtain na c1 where c1: "lower_operand a cx = Inr (RegV (VReg na), c1)" "sim M st s c1" "extends M st 1 cx c1"
      "na < next_vreg c1" "trunc w (rf (after M st c1) (vr na)) = x"
    using sim_operand[OF assms(1,2) _ assms(6)] assms(3) by auto
  have n1: "unat (next_vreg c1) + 2 < 2 ^ 32" using extends_bound[OF c1(3), of 2] assms(3) by simp
  obtain nb c2 where c2: "lower_operand b c1 = Inr (RegV (VReg nb), c2)" "sim M st s c2" "extends M st 1 c1 c2"
      "nb < next_vreg c2" "trunc w (rf (after M st c2) (vr nb)) = y"
    using sim_operand[OF assms(1) c1(2) _ assms(7)] n1 by auto
  have n2: "unat (next_vreg c2) + 1 < 2 ^ 32" using extends_bound[OF c2(3), of 1] n1 by simp
  have na: "na < next_vreg c2" "trunc w (rf (after M st c2) (vr na)) = x"
    using sim_extends_value[OF c2(3) c1(4,5)] by simp_all
  have z: "z = trunc w (alu_eff M vop [rf (after M st c2) (vr na), rf (after M st c2) (vr nb)])" "alu_like vop"
    using llvm_binary_computed[OF assms(1,4)] assms(8,9) na(2) c2(5) by blast+
  let ?vs = "[RegV (VReg na), RegV (VReg nb)]"
  let ?c3 = "push_syl (syl vop (Some (VReg (next_vreg c2))) ?vs) (c2\<lparr>next_vreg := next_vreg c2 + 1\<rparr>)"
  have c3: "sim M st s ?c3" "extends M st 1 c2 ?c3" "next_vreg c2 < next_vreg ?c3"
      "rf (after M st ?c3) (vr (next_vreg c2)) = alu_eff M vop [rf (after M st c2) (vr na), rf (after M st c2) (vr nb)]"
    using sim_alu[OF c2(2) n2 z(2), of ?vs 0] na(1) c2(4) by (simp_all add: src_value_vreg[OF z(2)])
  have "sim M st (s\<lparr>ints := (ints s)(value_ref i \<mapsto> (w, z))\<rparr>) (?c3\<lparr>vreg_map := (vreg_map ?c3)(value_ref i \<mapsto> next_vreg c2)\<rparr>)"
    using sim_bind[OF c3(1,3)] c3(4) z(1) by simp
  moreover have "extends M st (1 + 1 + 1) cx ?c3" using extends_trans[OF extends_trans[OF c1(3) c2(3)] c3(2)] .
  moreover have "lower_binary vop i cx = Inr (?c3\<lparr>vreg_map := (vreg_map ?c3)(value_ref i \<mapsto> next_vreg c2)\<rparr>)"
    using c1(1) c2(1) assms(5) by (simp add: lower_binary_def lower_two_operands_def get_def expect_some_def push_syl_def Let_def)
  ultimately show ?thesis by (simp add: numeral_3_eq_3)
qed

definition loads_as :: "opcode \<Rightarrow> opcode \<Rightarrow> u32 \<Rightarrow> bool" where
  "loads_as ld sto w \<longleftrightarrow> (ld, sto, w) \<in> {(LoadB, StoreB, 8), (LoadW, StoreW, 32), (LoadD, StoreD, 64)}"

lemma access_opcodes:
  assumes "access_width w"
  shows "\<exists>ld sto. loads_as ld sto w \<and> load_opcode (IntType w) = Inr ld \<and>
    (\<forall>v. value_type v = IntType w \<longrightarrow> store_opcode (ValueOp v) = Inr sto)"
  using assms by (auto simp: access_width_def loads_as_def load_opcode_def store_opcode_def)

lemma loads_as_accesses: "memory_ops M mm \<Longrightarrow> loads_as ld sto w \<Longrightarrow> accesses M mm ld sto w"
  by (auto simp: memory_ops_def loads_as_def)

lemma global_exec:
  assumes "loads_as ld sto w" "op = ld \<or> op = sto"
  shows "exec_syl M (syl op d (ImmV base # vs)) st =
    (let (v, g) = global_eff M op (imm_val M base # map (src_value M (rf st) op) vs) (glob st)
     in st\<lparr>rf := write_reg (if op = ld then map_option (RegKey Gpr) d else None) v (rf st), glob := g\<rparr>)"
proof -
  have "is_memory_opcode op" "memory_bucket (syl op d (ImmV base # vs)) = GlobalB"
      "dest_reg_key (syl op d (ImmV base # vs)) = (if op = ld then map_option (RegKey Gpr) d else None)"
    using assms unfolding loads_as_def
    by (auto simp: is_memory_opcode_def memory_bucket_def memory_base_value_def first_def dest_reg_key_def table_simps)
  then show ?thesis by (simp add: exec_syl_def src_values_def Let_def)
qed

lemma global_load_exec:
  assumes "loads_as ld sto w" "accesses M mm ld sto w" "\<forall>n. imm_val M n = n"
  shows "\<exists>v. exec_syl M (syl ld (Some (VReg d)) (address_srcs (ImmV base) off)) st = st\<lparr>rf := (rf st)(vr d := v)\<rparr> \<and>
    trunc w v = trunc w (mem_load mm w (glob st) (base + off))"
proof (cases "off = 0")
  case True
  obtain v g where v: "global_eff M ld [base] (glob st) = (v, g)" by force
  then have "g = glob st" "trunc w v = trunc w (mem_load mm w (glob st) base)"
    using assms(2) unfolding accesses_def by (metis fst_conv snd_conv)+
  then show ?thesis using True v assms(3) by (auto simp: address_srcs_def global_exec[OF assms(1)])
next
  case False
  obtain v g where v: "global_eff M ld [base, off] (glob st) = (v, g)" by force
  then have "g = glob st" "trunc w v = trunc w (mem_load mm w (glob st) (base + off))"
    using assms(2) unfolding accesses_def by (metis fst_conv snd_conv)+
  then show ?thesis using False v assms(3) by (auto simp: address_srcs_def global_exec[OF assms(1)])
qed

lemma global_store_exec:
  assumes "loads_as ld sto w" "accesses M mm ld sto w" "\<forall>n. imm_val M n = n"
  shows "exec_syl M (syl sto None (address_srcs (ImmV base) off @ [RegV (VReg n)])) st =
    st\<lparr>glob := mem_store mm w (glob st) (base + off) (trunc w (rf st (vr n)))\<rparr>"
proof -
  have "sto \<noteq> ld" "source_class sto = Gpr"
    using assms(1) by (auto simp: loads_as_def source_class_def predicate_sources_def)
  then show ?thesis
    using assms(2,3)
    by (simp add: address_srcs_def global_exec[OF assms(1)] accesses_def src_value_def write_reg_def Let_def case_prod_beta)
qed

lemma sim_load:
  assumes "computes M mm" "memory_ops M mm" "sim M st s cx" "unat (next_vreg cx) + 1 < 2 ^ 32"
    and "get_operands i = [p]" "get_type i = IntType w" "access_width w" "ptr_operand_value s p = Some a"
  shows "\<exists>cx'. lower_load i cx = Inr cx' \<and> extends M st 1 cx cx' \<and>
    sim M st (s\<lparr>ints := (ints s)(value_ref i \<mapsto> (w, trunc w (mem_load mm w (heap s) a)))\<rparr>) cx'"
proof -
  obtain base off where p: "lower_ptr_operand p cx = Inr (ImmV base, off)" "base + off = a" using sim_ptr[OF assms(3,8)] by blast
  obtain ld sto where ops: "loads_as ld sto w" "load_opcode (IntType w) = Inr ld" using access_opcodes[OF assms(7)] by blast
  let ?sy = "syl ld (Some (VReg (next_vreg cx))) (address_srcs (ImmV base) off)"
  have imm: "\<forall>n. imm_val M n = n" using assms(1) by (simp add: computes_def)
  obtain v where v: "exec_syl M ?sy (after M st cx) = (after M st cx)\<lparr>rf := (rf (after M st cx))(vr (next_vreg cx) := v)\<rparr>"
      "trunc w v = trunc w (mem_load mm w (glob (after M st cx)) a)"
    using global_load_exec[OF ops(1) loads_as_accesses[OF assms(2) ops(1)] imm] p(2) by blast
  have plain: "plain_syllable ?sy"
    using ops(1) by (auto simp: loads_as_def plain_syllable_def address_srcs_def source_class_def predicate_sources_def
        memory_bucket_def memory_base_value_def first_def table_simps)
  have srcs: "\<forall>n \<in> set (src_vregs ?sy). n < next_vreg cx" by (auto simp: set_src_vregs address_srcs_def)
  let ?c = "push_syl ?sy (cx\<lparr>next_vreg := next_vreg cx + 1\<rparr>)"
  have c: "sim M st s ?c" "extends M st 1 cx ?c" "rf (after M st ?c) (vr (next_vreg cx)) = v" "next_vreg cx < next_vreg ?c"
    using sim_define[OF assms(3,4) plain _ srcs v(1)] by simp_all
  have "glob (after M st cx) = heap s" using assms(3) by (simp add: sim_def values_sim_def)
  then have "sim M st (s\<lparr>ints := (ints s)(value_ref i \<mapsto> (w, trunc w (mem_load mm w (heap s) a)))\<rparr>)
      (?c\<lparr>vreg_map := (vreg_map ?c)(value_ref i \<mapsto> next_vreg cx)\<rparr>)"
    using sim_bind[OF c(1,4)] c(3) v(2) by simp
  moreover have "lower_load i cx = Inr (?c\<lparr>vreg_map := (vreg_map ?c)(value_ref i \<mapsto> next_vreg cx)\<rparr>)"
    using p(1) ops(2) assms(5,6) by (simp add: lower_load_def get_def expect_some_def push_syl_def Let_def)
  ultimately show ?thesis using c(2) by simp
qed

lemma sim_store:
  assumes "computes M mm" "memory_ops M mm" "sim M st s cx" "unat (next_vreg cx) + 1 < 2 ^ 32"
    and "get_operands i = [u, p]" "int_operand_value s u = Some (w, x)" "access_width w" "ptr_operand_value s p = Some a"
  shows "\<exists>cx'. lower_store i cx = Inr cx' \<and> extends M st 1 cx cx' \<and> sim M st (s\<lparr>heap := mem_store mm w (heap s) a x\<rparr>) cx'"
proof -
  obtain n c where c: "lower_operand u cx = Inr (RegV (VReg n), c)" "sim M st s c" "extends M st 1 cx c"
      "n < next_vreg c" "trunc w (rf (after M st c) (vr n)) = x"
    using sim_operand[OF assms(1,3,4,6)] by blast
  obtain base off where p: "lower_ptr_operand p c = Inr (ImmV base, off)" "base + off = a" using sim_ptr[OF c(2) assms(8)] by blast
  obtain ld sto where ops: "loads_as ld sto w" "\<forall>v. value_type v = IntType w \<longrightarrow> store_opcode (ValueOp v) = Inr sto"
    using access_opcodes[OF assms(7)] by blast
  have store: "store_opcode u = Inr sto"
    using assms(6) ops(2)
    by (auto simp: int_operand_value_def bind_eq_Some_conv split: llvm_operand.splits llvm_type.splits if_splits)
  let ?sy = "syl sto None (address_srcs (ImmV base) off @ [RegV (VReg n)])"
  have imm: "\<forall>n. imm_val M n = n" using assms(1) by (simp add: computes_def)
  have plain: "plain_syllable ?sy"
    using ops(1) by (auto simp: loads_as_def plain_syllable_def address_srcs_def source_class_def predicate_sources_def
        memory_bucket_def memory_base_value_def first_def table_simps)
  have heap: "glob (after M st c) = heap s" using c(2) by (simp add: sim_def values_sim_def)
  have run: "after M st (push_syl ?sy c) = (after M st c)\<lparr>glob := mem_store mm w (heap s) a x\<rparr>"
    using global_store_exec[OF ops(1) loads_as_accesses[OF assms(2) ops(1)] imm, of base off n "after M st c"] heap c(5) p(2)
    by (simp add: after_def push_syl_def)
  have "ssa_shape (push_syl ?sy c)"
    using c(2,4) by (intro ssa_shape_emit plain) (auto simp: sim_def dst_vreg_def set_src_vregs address_srcs_def)
  then have "sim M st (s\<lparr>heap := mem_store mm w (heap s) a x\<rparr>) (push_syl ?sy c)"
    using c(2) unfolding sim_def values_sim_def run by (simp add: push_syl_def)
  moreover have "extends M st 1 cx (push_syl ?sy c)"
    using c(3) unfolding extends_def run by (simp add: push_syl_def flow_def)
  moreover have "lower_store i cx = Inr (push_syl ?sy c)"
    using c(1) p(1) store assms(5) by (simp add: lower_store_def get_def expect_some_def)
  ultimately show ?thesis by blast
qed

lemma sim_gep:
  assumes "sim M st s cx" "get_operands i = [p, k]" "gep_source_type i = IntType w"
    and "ptr_operand_value s p = Some a" "const_index k = Some n"
  shows "\<exists>cx'. lower_gep i cx = Inr cx' \<and> extends M st 0 cx cx' \<and>
    sim M st (s\<lparr>ptrs := (ptrs s)(value_ref i \<mapsto> a + n * of_nat (unat w div 8))\<rparr>) cx'"
proof -
  obtain base off where p: "lower_ptr_operand p cx = Inr (ImmV base, off)" "base + off = a" using sim_ptr[OF assms(1,4)] by blast
  let ?c = "cx\<lparr>gep_map := (gep_map cx)(value_ref i \<mapsto> (ImmV base, off + n * of_nat (unat w div 8)))\<rparr>"
  have "gep_index e off k = Inr (off + n * e)" for e
    using assms(5) by (auto simp: const_index_def gep_index_def split: llvm_operand.splits llvm_type.splits if_splits)
  then have "lower_gep i cx = Inr ?c"
    using p(1) assms(2,3) by (simp add: lower_gep_def get_def expect_some_def int_type_byte_size_def)
  moreover have "sim M st (s\<lparr>ptrs := (ptrs s)(value_ref i \<mapsto> a + n * of_nat (unat w div 8))\<rparr>) ?c"
    using assms(1) p(2) by (auto simp: sim_def values_sim_def ssa_shape_def after_def)
  ultimately show ?thesis by simp
qed

lemma extends_mono: "extends M st j cx cx' \<Longrightarrow> j \<le> k \<Longrightarrow> extends M st k cx cx'"
  by (auto simp: extends_def)

lemma llvm_step_binary:
  assumes "llvm_step mm i s = Some s'" "get_opcode i \<notin> {LoadI, StoreI, GetElementPtrI}"
  shows "\<exists>a b w x y z vop. get_operands i = [a, b] \<and> get_type i = IntType w \<and> int_operand_value s a = Some (w, x) \<and>
    int_operand_value s b = Some (w, y) \<and> llvm_binary (get_opcode i) w x y = Some z \<and>
    s' = s\<lparr>ints := (ints s)(value_ref i \<mapsto> (w, z))\<rparr> \<and> binary_opcode (get_opcode i) = Some vop \<and>
    (\<forall>msize label_of lbl cx. lower_instr msize label_of lbl cx i = lower_binary vop i cx)"
proof -
  obtain a b w x y z where step: "get_operands i = [a, b]" "get_type i = IntType w" "int_operand_value s a = Some (w, x)"
      "int_operand_value s b = Some (w, y)" "llvm_binary (get_opcode i) w x y = Some z"
      "s' = s\<lparr>ints := (ints s)(value_ref i \<mapsto> (w, z))\<rparr>"
    using assms unfolding llvm_step_def
    by (cases "get_opcode i") (auto simp: bind_eq_Some_conv split: list.splits llvm_type.splits if_splits)
  obtain vop where "binary_opcode (get_opcode i) = Some vop"
    using step(5) by (auto simp: llvm_binary_def binary_opcode_def split: instruction_opcode.splits)
  then show ?thesis
    using step by (auto simp: lower_instr_def binary_opcode_def split: instruction_opcode.splits)
qed

lemma sim_step:
  assumes "computes M mm" "memory_ops M mm" "sim M st s cx" "unat (next_vreg cx) + 3 < 2 ^ 32"
    and "llvm_step mm i s = Some s'" "get_opcode i \<in> {ShlI, LShrI, AShrI} \<longrightarrow> get_type i = IntType 64"
  shows "\<exists>cx'. lower_instr msize label_of lbl cx i = Inr cx' \<and> sim M st s' cx' \<and> extends M st 3 cx cx'"
proof -
  have small: "unat (next_vreg cx) + 1 < 2 ^ 32" using assms(4) by simp
  consider "get_opcode i = LoadI" | "get_opcode i = StoreI" | "get_opcode i = GetElementPtrI"
    | "get_opcode i \<notin> {LoadI, StoreI, GetElementPtrI}" by blast
  then show ?thesis
  proof cases
    case 1
    then obtain p w a where "get_operands i = [p]" "get_type i = IntType w" "access_width w" "ptr_operand_value s p = Some a"
        "s' = s\<lparr>ints := (ints s)(value_ref i \<mapsto> (w, trunc w (mem_load mm w (heap s) a)))\<rparr>"
      using assms(5) by (auto simp: llvm_step_def bind_eq_Some_conv split: list.splits llvm_type.splits if_splits)
    then show ?thesis using sim_load[OF assms(1-3) small] extends_mono[of M st 1 cx _ 3] 1 by (fastforce simp: lower_instr_def)
  next
    case 2
    then obtain u p w x a where "get_operands i = [u, p]" "int_operand_value s u = Some (w, x)" "access_width w"
        "ptr_operand_value s p = Some a" "s' = s\<lparr>heap := mem_store mm w (heap s) a x\<rparr>"
      using assms(5) by (auto simp: llvm_step_def bind_eq_Some_conv split: list.splits if_splits)
    then show ?thesis using sim_store[OF assms(1-3) small] extends_mono[of M st 1 cx _ 3] 2 by (fastforce simp: lower_instr_def)
  next
    case 3
    then obtain p k w a n where "get_operands i = [p, k]" "gep_source_type i = IntType w" "ptr_operand_value s p = Some a"
        "const_index k = Some n" "s' = s\<lparr>ptrs := (ptrs s)(value_ref i \<mapsto> a + n * of_nat (unat w div 8))\<rparr>"
      using assms(5) by (auto simp: llvm_step_def bind_eq_Some_conv split: list.splits llvm_type.splits if_splits)
    then show ?thesis using sim_gep[OF assms(3)] extends_mono[of M st 0 cx _ 3] 3 by (fastforce simp: lower_instr_def)
  next
    case 4
    then obtain a b w x y z vop where "get_operands i = [a, b]" "get_type i = IntType w" "int_operand_value s a = Some (w, x)"
        "int_operand_value s b = Some (w, y)" "llvm_binary (get_opcode i) w x y = Some z"
        "s' = s\<lparr>ints := (ints s)(value_ref i \<mapsto> (w, z))\<rparr>" "binary_opcode (get_opcode i) = Some vop"
        "lower_instr msize label_of lbl cx i = lower_binary vop i cx"
      using llvm_step_binary[OF assms(5)] by blast
    then show ?thesis using sim_binary[OF assms(1,3,4)] assms(6) by simp
  qed
qed

definition returned :: "(i64, 's, 'g) mstate \<Rightarrow> (u32 \<times> i64) option \<times> 'g \<Rightarrow> bool" where
  "returned st r \<longleftrightarrow> glob st = snd r \<and> (\<forall>w x. fst r = Some (w, x) \<longrightarrow> trunc w (rf st (gpr RETVAL_REG)) = x)"

lemma write_retval [simp]: "write_reg (Some (gpr RETVAL_REG)) v regs = regs(gpr RETVAL_REG := v)"
  by (simp add: write_reg_def RETVAL_REG_def ZERO_REG_def)

lemma sim_return_move:
  assumes "sim M st s cx" "alu_like op" "vs = [ImmV m] \<or> (\<exists>n. vs = [RegV (VReg n)] \<and> n < next_vreg cx)"
  shows "ssa_shape (push_syl (syl op (Some (PReg RETVAL_REG)) vs) cx) \<and>
    after M st (push_syl (syl op (Some (PReg RETVAL_REG)) vs) cx) = (after M st cx)\<lparr>rf :=
      (rf (after M st cx))(gpr RETVAL_REG := alu_eff M op (map (src_value M (rf (after M st cx)) op) vs))\<rparr>"
proof
  have "plain_syllable (syl op (Some (PReg RETVAL_REG)) vs)"
    using assms(2,3) fixed_not_allocatable(2) unfolding alu_like_def
    by (auto simp: plain_syllable_def source_class_def predicate_sources_def is_memory_opcode_def table_simps)
  then show "ssa_shape (push_syl (syl op (Some (PReg RETVAL_REG)) vs) cx)"
    using assms(1,3) by (intro ssa_shape_emit) (auto simp: sim_def dst_vreg_def set_src_vregs)
  show "after M st (push_syl (syl op (Some (PReg RETVAL_REG)) vs) cx) = (after M st cx)\<lparr>rf :=
      (rf (after M st cx))(gpr RETVAL_REG := alu_eff M op (map (src_value M (rf (after M st cx)) op) vs))\<rparr>"
    by (simp add: after_def push_syl_def alu_like_exec[OF assms(2)])
qed

lemma sim_return:
  assumes "computes M mm" "sim M st s cx" "get_opcode i = ReturnI" "llvm_exec mm [i] s = Some r"
  shows "\<exists>cx'. lower_instr msize label_of lbl cx i = Inr cx' \<and> ssa_shape cx' \<and> returned (after M st cx') r \<and>
    flow cx' = flow (cx\<lparr>cur_term := ReturnT\<rparr>)"
proof -
  have glob: "glob (after M st cx) = heap s" "ssa_shape cx" using assms(2) by (simp_all add: sim_def values_sim_def)
  have finish: "?thesis" if "lower_instr msize label_of lbl cx i = Inr (c\<lparr>cur_term := ReturnT\<rparr>)" "ssa_shape c" "flow c = flow cx"
      "returned (after M st c) r" for c
    using that by (intro exI[of _ "c\<lparr>cur_term := ReturnT\<rparr>"]) (simp add: ssa_shape_def after_def flow_def)
  show ?thesis
  proof (cases "get_operands i")
    case Nil
    then show ?thesis
      using assms(3,4) glob by (intro finish[of cx]) (auto simp: lower_instr_def lower_return_def returned_def)
  next
    case (Cons u us)
    then obtain w x where u: "get_operands i = [u]" "int_operand_value s u = Some (w, x)" "r = (Some (w, x), heap s)"
      using assms(3,4) by (auto simp: bind_eq_Some_conv split: list.splits)
    then obtain v where v: "u = ValueOp v" "value_type v = IntType w"
      by (auto simp: int_operand_value_def bind_eq_Some_conv split: llvm_operand.splits llvm_type.splits if_splits)
    show ?thesis
    proof (cases "is_const v")
      case True
      then obtain m where m: "const_int v = Some m" "x = trunc w m" using u(2) v by (auto simp: int_operand_value_def)
      have "alu_like MovImm" by (simp add: alu_like_def)
      note move = sim_return_move[OF assms(2) this, of "[ImmV m]" m]
      let ?c = "push_syl (syl MovImm (Some (PReg RETVAL_REG)) [ImmV m]) cx"
      show ?thesis
        using True assms(1,3) u v m move glob
        by (intro finish[of ?c])
          (simp_all add: lower_instr_def lower_return_def returned_def computes_def flow_def push_syl_def)
    next
      case False
      then have "ints s (value_key v) = Some (w, x)"
        using u(2) v by (auto simp: int_operand_value_def bind_eq_Some_conv split: if_splits)
      then obtain n where n: "vreg_map cx (value_key v) = Some n" "n < next_vreg cx" "trunc w (rf (after M st cx) (vr n)) = x"
        using assms(2) unfolding sim_def values_sim_def by blast
      have mov: "alu_like Mov" by (simp add: alu_like_def)
      note move = sim_return_move[OF assms(2) this, of "[RegV (VReg n)]"]
      let ?c = "push_syl (syl Mov (Some (PReg RETVAL_REG)) [RegV (VReg n)]) cx"
      show ?thesis
        using False assms(1,3) u v n move glob
        by (intro finish[of ?c])
          (simp_all add: lower_instr_def lower_return_def returned_def computes_def flow_def push_syl_def
            expect_some_def src_value_vreg[OF mov])
    qed
  qed
qed

lemma sim_exec:
  assumes "computes M mm" "memory_ops M mm" "sim M st s cx" "unat (next_vreg cx) + 3 * length instrs < 2 ^ 32"
    and "llvm_exec mm instrs s = Some r" "full_shifts instrs"
  shows "\<exists>cx'. try_fold (lower_instr msize label_of lbl) cx instrs = Inr cx' \<and> ssa_shape cx' \<and> returned (after M st cx') r \<and>
    flow cx' = flow (cx\<lparr>cur_term := ReturnT\<rparr>)"
  using assms(3-)
proof (induction instrs arbitrary: s cx)
  case (Cons i rest)
  show ?case
  proof (cases "get_opcode i = ReturnI")
    case True
    then have rest: "rest = []" and run: "llvm_exec mm [i] s = Some r" using Cons.prems(3) by (auto split: if_splits)
    from sim_return[OF assms(1) Cons.prems(1) True run, of msize label_of lbl] show ?thesis using rest by auto
  next
    case False
    then obtain s1 where s1: "llvm_step mm i s = Some s1" "llvm_exec mm rest s1 = Some r"
      using Cons.prems(3) by (auto simp: bind_eq_Some_conv)
    obtain c1 where c1: "lower_instr msize label_of lbl cx i = Inr c1" "sim M st s1 c1" "extends M st 3 cx c1"
      using sim_step[OF assms(1,2) Cons.prems(1) _ s1(1), of msize label_of lbl] Cons.prems(2,4) by (auto simp: full_shifts_def)
    have "unat (next_vreg c1) + 3 * length rest < 2 ^ 32" using extends_bound[OF c1(3)] Cons.prems(2) by simp
    then obtain c' where "try_fold (lower_instr msize label_of lbl) c1 rest = Inr c'" "ssa_shape c'" "returned (after M st c') r"
        "flow c' = flow (c1\<lparr>cur_term := ReturnT\<rparr>)"
      using Cons.IH[OF c1(2) _ s1(2)] Cons.prems(4) by (auto simp: full_shifts_def)
    then show ?thesis using c1(1,3) by (auto simp: extends_def flow_def)
  qed
qed simp

section \<open>Functions\<close>

definition initial_state :: "'g \<Rightarrow> 'g llvm_state" where
  "initial_state g = \<lparr>ints = Map.empty, ptrs = Map.empty, heap = g\<rparr>"

text \<open>Selection makes one block of a function without parameters that has one block.\<close>

lemma select_straight_line:
  assumes "computes M mm" "memory_ops M mm" "params f = []" "basic_blocks f = [bb]"
    and "llvm_exec mm (instructions bb) (initial_state (glob st)) = Some r" "full_shifts (instructions bb)"
    and "3 * length (instructions bb) < 2 ^ 32" "entry_iter [] = []"
  shows "\<exists>f' b. lower_function entry_iter f msize = Inr f' \<and> straight_line f' b \<and> terminator b = ReturnT \<and>
    returned (exec M (syllables b) st) r"
proof -
  let ?l = "block_label 0 bb"
  have maps: "make_label_of [bb] (block_key bb) = Some ?l" "make_bb_of [bb] = [(?l, bb)]"
    by (simp_all add: make_label_of_def make_bb_of_def)
  let ?cx = "enter_block ?l (isel_cx_new\<lparr>worklist := []\<rparr>)"
  have "sim M st (initial_state (glob st)) ?cx"
    by (simp add: sim_def values_sim_def ssa_shape_def initial_state_def enter_block_def isel_cx_new_def after_def)
  moreover have "unat (next_vreg ?cx) + 3 * length (instructions bb) < 2 ^ 32"
    using assms(7) by (simp add: enter_block_def isel_cx_new_def)
  ultimately obtain c where c: "try_fold (lower_instr msize (make_label_of [bb]) ?l) ?cx (instructions bb) = Inr c"
      "ssa_shape c" "returned (after M st c) r" "flow c = flow (?cx\<lparr>cur_term := ReturnT\<rparr>)"
    using sim_exec[OF assms(1,2) _ _ assms(5,6)] by blast
  let ?b = "\<lparr>label = ?l, syllables = cur_syls c, terminator = ReturnT\<rparr>"
  have fin: "mir_blocks (finish_block ?l c) = [?b]" "worklist (finish_block ?l c) = []" "pending_phis (finish_block ?l c) = []"
    using c(4) by (simp_all add: flow_def finish_block_def enter_block_def isel_cx_new_def Let_def)
  have "select_blocks msize f = Inr (finish_block ?l c)"
    using assms(3,4) maps c(1) fin(2)
    by (simp add: select_blocks_def first_def expect_some_def label_at_def lower_worklist.simps lower_block_def isel_cx_new_def)
  then have "lower_function entry_iter f msize = Inr \<lparr>fname = llvm_name f, blocks = [?b]\<rparr>"
    using fin assms(8) by (simp add: lower_function_def collect_copies_def lower_phi_copies_def)
  moreover have "straight_line \<lparr>fname = llvm_name f, blocks = [?b]\<rparr> ?b"
    using c(2) by (simp add: straight_line_def ssa_shape_def term_vreg_def)
  ultimately show ?thesis using c(3) by (auto simp: after_def)
qed

lemma allocate_straight_line:
  assumes "hash_order_ok hash_iter" "straight_line f b" "spill_memory M lk" "heap_machine M h" "terminator b = ReturnT"
    and "allocate_registers hash_iter f m = Inr f'" "few_operands f"
  shows "\<exists>b'. blocks f' = [b'] \<and> terminator b' = ReturnT \<and>
    (returned (exec M (syllables b) st) r \<longrightarrow> returned (exec M (syllables b') st) r)"
proof -
  obtain b' where b': "blocks f' = [b']" "glob (exec M (syllables b') st) = glob (exec M (syllables b) st)"
      "\<forall>n. n \<notin> set allocatable \<longrightarrow> rf (exec M (syllables b') st) (gpr n) = rf (exec M (syllables b) st) (gpr n)"
    using straight_line_agree[OF assms(1-4,6), of st st] unfolding agree_def by blast
  have "list_all2 rewritten_block (blocks f) (blocks f')"
    using allocate_registers_total[OF assms(1,7), of m] assms(6) by auto
  then have "terminator b' = ReturnT"
    using b'(1) assms(2,5) by (auto simp: straight_line_def rewritten_block_def renamed_terminator_def)
  then show ?thesis using b' fixed_not_allocatable(2) by (simp add: returned_def)
qed

lemma scheduled_straight_line:
  assumes "scheduled_as sched [f] gfns" "blocks f = [b]"
  shows "\<exists>g b'. gfns = [g] \<and> blocks g = [b'] \<and> terminator b' = terminator b \<and>
    exec M (syllables b') st = exec M (syllables b) (st :: ('v, 's, 'g) mstate)"
proof (cases sched)
  case ScalarS
  then show ?thesis using assms by (simp add: scheduled_as_def)
next
  case PackS
  then obtain g where g: "gfns = [g]" "list_schedule_function f = Inr g"
    using assms(1) by (auto simp: scheduled_as_def list_all2_Cons1)
  have "\<exists>f'. list_schedule_function f = Inr f' \<and> fname f' = fname f \<and>
      list_all2 (\<lambda>b b'. terminator b' = terminator b \<and> exec M (syllables b') st = exec M (syllables b) st) (blocks f) (blocks f')"
    by (rule list_schedule_function_lift) (metis list_schedule_block_refines)
  then show ?thesis using g assms(2) by (auto simp: list_all2_Cons1)
qed

section \<open>Properties\<close>

text \<open>
  C4: straight-line functions are compiled correctly.  Take a function without parameters, of one
  block, on which LLVM's semantics is defined: integer arithmetic of up to 64 bits, shifts on 64 bits,
  loads and stores of 8, 32 and 64 bits at constant addresses and a return.  Then the back end accepts
  it and its output issues, in order, the syllables of a block which, run on a machine whose opcodes have
  their documented effect, leaves memory as LLVM's semantics does and, in the bits of the result's
  width, the value that LLVM's semantics returns in \<open>r1\<close>.  This holds for both schedules, any order of
  hash-map iteration, and whatever the allocator spills.
\<close>

theorem straight_line_compiled_correctly:
  assumes "computes M mm" "memory_ops M mm" "spill_memory M lk" "heap_machine M h"
    and "hash_order_ok hash_iter" "entry_iter [] = []" "capable p"
    and "params f = []" "basic_blocks f = [bb]" "full_shifts (instructions bb)" "3 * length (instructions bb) < 2 ^ 32"
    and "llvm_exec mm (instructions bb) (initial_state (glob st)) = Some r"
  shows "\<exists>prog fn b. back_end entry_iter hash_iter sched p \<lparr>module_functions = [f]\<rparr> = Inr (emit prog) \<and>
    verify_program prog = Inr () \<and> carries_code [fn] prog \<and> blocks fn = [b] \<and> terminator b = ReturnT \<and>
    returned (exec M (syllables b) st) r"
proof -
  obtain f1 b1 where f1: "lower_function entry_iter f (memory_size p) = Inr f1" "straight_line f1 b1"
      "terminator b1 = ReturnT" "returned (exec M (syllables b1) st) r"
    using select_straight_line[where entry_iter = entry_iter, OF assms(1,2,8,9,12,10,11,6)] by blast
  then have "lower_all_functions entry_iter \<lparr>module_functions = [f]\<rparr> (memory_size p) = Inr [f1]"
    using assms(9) by (simp add: lower_all_functions_def)
  from back_end_code[OF assms(5,7) this, of sched] obtain prog f2 gfns where
    out: "back_end entry_iter hash_iter sched p \<lparr>module_functions = [f]\<rparr> = Inr (emit prog)" "good_output [f1] p prog"
      "allocate_registers hash_iter f1 (memory_size p) = Inr f2" "scheduled_as sched [f2] gfns" "carries_code gfns prog"
    by (auto simp: result_simps)
  have few: "few_operands f1" using lower_function_shaped[OF f1(1)] by (rule shaped_few)
  obtain b2 where b2: "blocks f2 = [b2]" "terminator b2 = ReturnT" "returned (exec M (syllables b2) st) r"
    using allocate_straight_line[OF assms(5) f1(2) assms(3,4) f1(3) out(3) few] f1(4) by blast
  obtain fn b where fn: "gfns = [fn]" "blocks fn = [b]" "terminator b = terminator b2"
      "exec M (syllables b) st = exec M (syllables b2) st"
    using scheduled_straight_line[OF out(4) b2(1)] by blast
  have "verify_program prog = Inr ()" using out(2) by (simp add: good_output_def)
  moreover have "carries_code [fn] prog" using out(5) fn(1) by simp
  moreover have "terminator b = ReturnT" "returned (exec M (syllables b) st) r" using fn(3,4) b2(2,3) by simp_all
  ultimately show ?thesis using out(1) fn(2) by blast
qed

text \<open>
  Witness: a load of a 32-bit value, a multiplication, an address computation, a store and a shift, on a
  machine with word-sized cells as memory.
\<close>

definition cell_memory :: "(i64 \<Rightarrow> i64) llvm_memory" where
  "cell_memory = \<lparr>mem_load = \<lambda>w g a. g a, mem_store = \<lambda>w g a v. g(a := v)\<rparr>"

definition store_width :: "opcode \<Rightarrow> u32 option" where
  "store_width op = (if op = StoreB then Some 8 else if op = StoreW then Some 32 else if op = StoreD then Some 64 else None)"

definition cell_global :: "opcode \<Rightarrow> i64 list \<Rightarrow> (i64 \<Rightarrow> i64) \<Rightarrow> i64 \<times> (i64 \<Rightarrow> i64)" where
  "cell_global op vs g =
     (case (store_width op, vs) of
        (None, [a]) \<Rightarrow> (g a, g)
      | (None, [a, d]) \<Rightarrow> (g (a + d), g)
      | (Some w, [a, v]) \<Rightarrow> (0, g(a := trunc w v))
      | (Some w, [a, d, v]) \<Rightarrow> (0, g(a + d := trunc w v))
      | _ \<Rightarrow> (0, g))"

definition cell_alu :: "opcode \<Rightarrow> i64 list \<Rightarrow> i64" where
  "cell_alu op vs =
     (case (op, vs) of
        (Mov, [a]) \<Rightarrow> a | (MovImm, [a]) \<Rightarrow> a
      | (Add, [a, b]) \<Rightarrow> a + b | (Sub, [a, b]) \<Rightarrow> a - b | (Mul, [a, b]) \<Rightarrow> a * b
      | (And, [a, b]) \<Rightarrow> a AND b | (Or, [a, b]) \<Rightarrow> a OR b | (Xor, [a, b]) \<Rightarrow> a XOR b
      | (Shl, [a, b]) \<Rightarrow> push_bit (unat b) a | (Srl, [a, b]) \<Rightarrow> drop_bit (unat b) a
      | (Sra, [a, b]) \<Rightarrow> signed_drop_bit (unat b) a
      | _ \<Rightarrow> 0)"

definition cell_isa :: "(i64, i64 \<Rightarrow> i64, i64 \<Rightarrow> i64) isa" where
  "cell_isa =
     \<lparr>imm_val = \<lambda>n. n, alu_eff = cell_alu,
      stack_eff = \<lambda>op vs m. case vs of [a] \<Rightarrow> (m a, m) | [a, v] \<Rightarrow> (0, m(a := v)) | _ \<Rightarrow> (0, m),
      global_eff = cell_global, unknown_eff = \<lambda>op vs (m, g). (0, m, g)\<rparr>"

lemma cell_isa_laws:
  "computes cell_isa cell_memory" "memory_ops cell_isa cell_memory"
  "spill_memory cell_isa (\<lambda>m a. m a)" "heap_machine cell_isa (\<lambda>op vs g. (0, g))"
  by (simp_all add: computes_def cell_isa_def cell_alu_def memory_ops_def accesses_def cell_memory_def cell_global_def
      store_width_def spill_memory_def apart_def heap_machine_def)

definition constant_ptr :: "nat \<Rightarrow> i64 \<Rightarrow> llvm_operand" where
  "constant_ptr k a =
     ValueOp \<lparr>value_key = k, value_type = PointerType, is_const = True, const_int = None, inttoptr_const = Some a\<rparr>"

definition scale_block :: llvm_block where
  "scale_block =
     \<lparr>block_key = 10, block_name = ''entry'',
      instructions =
        [plain_instr 1 LoadI (IntType 32) [constant_ptr 20 0x100],
         plain_instr 2 MulI (IntType 32) [ValueOp (int_value 1 32), ValueOp (int_constant 21 32 6)],
         (plain_instr 3 GetElementPtrI PointerType [constant_ptr 20 0x100, ValueOp (int_constant 22 64 2)])
           \<lparr>gep_source_type := IntType 32\<rparr>,
         plain_instr 4 StoreI VoidType [ValueOp (int_value 2 32),
           ValueOp \<lparr>value_key = 3, value_type = PointerType, is_const = False, const_int = None, inttoptr_const = None\<rparr>],
         plain_instr 5 ShlI (IntType 64) [ValueOp (int_constant 23 64 3), ValueOp (int_constant 24 64 2)],
         plain_instr 6 ReturnI VoidType [ValueOp (int_value 2 32)]]\<rparr>"

definition scale_function :: llvm_function where
  "scale_function = \<lparr>llvm_name = ''scale'', params = [], return_type = IntType 32, basic_blocks = [scale_block]\<rparr>"

lemma scale_exec:
  "llvm_exec cell_memory (instructions scale_block) (initial_state (\<lambda>_. 7)) = Some (Some (32, 42), (\<lambda>_. 7)(0x108 := 42))"
  by (simp add: scale_block_def initial_state_def llvm_step_def plain_instr_def constant_ptr_def ptr_operand_value_def
      int_operand_value_def int_value_def int_constant_def llvm_binary_def access_width_def const_index_def cell_memory_def
      trunc_def)

theorem straight_line_compiled_correctly_witness:
  "\<exists>prog fn b. back_end id id PackS default_processor \<lparr>module_functions = [scale_function]\<rparr> = Inr (emit prog) \<and>
     carries_code [fn] prog \<and> blocks fn = [b] \<and>
     trunc 32 (rf (exec cell_isa (syllables b) \<lparr>rf = \<lambda>_. 0, stk = \<lambda>_. 0, glob = \<lambda>_. 7\<rparr>) (gpr RETVAL_REG)) = 42"
proof -
  let ?st = "\<lparr>rf = \<lambda>_. 0, stk = \<lambda>_. 0, glob = \<lambda>_. 7\<rparr> :: (i64, i64 \<Rightarrow> i64, i64 \<Rightarrow> i64) mstate"
  have order: "hash_order_ok id" "(id :: entry_order) [] = []" by (simp_all add: hash_order_ok_def)
  have "params scale_function = []" "basic_blocks scale_function = [scale_block]" by (simp_all add: scale_function_def)
  moreover have "full_shifts (instructions scale_block)" "3 * length (instructions scale_block) < 2 ^ 32"
    by (simp_all add: full_shifts_def scale_block_def plain_instr_def)
  moreover have "llvm_exec cell_memory (instructions scale_block) (initial_state (glob ?st)) =
      Some (Some (32, 42), (\<lambda>_. 7)(0x108 := 42))" using scale_exec by simp
  ultimately obtain prog fn b where "back_end id id PackS default_processor \<lparr>module_functions = [scale_function]\<rparr> = Inr (emit prog)"
      "carries_code [fn] prog" "blocks fn = [b]" "returned (exec cell_isa (syllables b) ?st) (Some (32, 42), (\<lambda>_. 7)(0x108 := 42))"
    using straight_line_compiled_correctly[where entry_iter = id, OF cell_isa_laws order default_capable,
        of scale_function scale_block ?st _ PackS]
    by blast
  then show ?thesis by (auto simp: returned_def)
qed

end
