(* ===== verification/Parallel.thy ===== *)
theory Parallel
  imports Pack
begin

text \<open>
  What packed bundles compute.  The syllables of a bundle read the registers as they are before the
  bundle and write them together; the scalar program issues them one after the other.  The verifier's
  rules make the two agree, so that packing changes no result.
\<close>

section \<open>An assembly machine\<close>

text \<open>
  What an opcode computes is defined by the simulator, outside this repository, so it is a parameter:
  the result of an opcode on the values of its source operands and, for memory opcodes, on the memory.
\<close>

datatype 'v arg = Value 'v | Constant i64 | Address 'v i64 | Target string

record ('v, 'm) asm_isa =
  op_result :: "opcode \<Rightarrow> 'v arg list \<Rightarrow> 'v"
  op_memory :: "opcode \<Rightarrow> 'v arg list \<Rightarrow> 'm \<Rightarrow> 'v \<times> 'm"

record ('v, 'm) asm_state =
  gprs :: "u8 \<Rightarrow> 'v"
  preds :: "u8 \<Rightarrow> 'v"
  data :: 'm

text \<open>The source operands of an opcode other than \<open>nop\<close>: all but the destination, which is the first register the opcode may write.\<close>

fun source_operands :: "bool \<Rightarrow> bool \<Rightarrow> operand list \<Rightarrow> operand list" where
  "source_operands g p [] = []"
| "source_operands g p (Reg n # oprs) =
     (if g then source_operands False p oprs else Reg n # source_operands g p oprs)"
| "source_operands g p (Pred n # oprs) =
     (if p then source_operands g False oprs else Pred n # source_operands g p oprs)"
| "source_operands g p (opr # oprs) = opr # source_operands g p oprs"

fun operand_arg :: "('v, 'm) asm_state \<Rightarrow> operand \<Rightarrow> 'v arg" where
  "operand_arg st (Reg n) = Value (gprs st n)"
| "operand_arg st (Pred n) = Value (preds st n)"
| "operand_arg st (Imm n) = Constant n"
| "operand_arg st (MemAddr base off) = Address (gprs st base) off"
| "operand_arg st (Label l) = Target l"

definition syllable_op :: "asm_syllable \<Rightarrow> opcode" where
  "syllable_op s = (case from_mnemonic (syl_opcode s) of Some op \<Rightarrow> op | None \<Rightarrow> Nop)"

definition syllable_sources :: "asm_syllable \<Rightarrow> operand list" where
  "syllable_sources s =
     (let op = syllable_op s in if op = Nop then [] else source_operands (writes_gpr op) (writes_pred op) (syl_operands s))"

definition syllable_args :: "('v, 'm) asm_state \<Rightarrow> asm_syllable \<Rightarrow> 'v arg list" where
  "syllable_args st s = map (operand_arg st) (syllable_sources s)"

definition accesses_memory :: "asm_syllable \<Rightarrow> bool" where
  "accesses_memory s \<longleftrightarrow> is_memory_opcode (syllable_op s)"

definition pred_dest :: "asm_syllable \<Rightarrow> u8 option" where
  "pred_dest s =
     (if writes_pred (syllable_op s) then (case first (syl_operands s) of Some (Pred n) \<Rightarrow> Some n | _ \<Rightarrow> None) else None)"

definition write_gpr :: "u8 option \<Rightarrow> 'v \<Rightarrow> (u8 \<Rightarrow> 'v) \<Rightarrow> u8 \<Rightarrow> 'v" where
  "write_gpr d v regs = (case d of None \<Rightarrow> regs | Some r \<Rightarrow> if r = ZERO_REG then regs else regs(r := v))"

definition write_pred :: "u8 option \<Rightarrow> 'v \<Rightarrow> (u8 \<Rightarrow> 'v) \<Rightarrow> u8 \<Rightarrow> 'v" where
  "write_pred d v regs = (case d of None \<Rightarrow> regs | Some r \<Rightarrow> regs(r := v))"

text \<open>A syllable that reads its operands in \<open>old\<close> and writes its results into \<open>st\<close>.\<close>

definition issue :: "('v, 'm) asm_isa \<Rightarrow> ('v, 'm) asm_state \<Rightarrow> asm_syllable \<Rightarrow> ('v, 'm) asm_state \<Rightarrow> ('v, 'm) asm_state" where
  "issue N old s st =
     (let op = syllable_op s; args = syllable_args old s;
          (v, m) = (if accesses_memory s then op_memory N op args (data old) else (op_result N op args, data st))
      in st\<lparr>gprs := write_gpr (gpr_dest op s) v (gprs st), preds := write_pred (pred_dest s) v (preds st), data := m\<rparr>)"

text \<open>One syllable after the other, and all syllables of a bundle at once.\<close>

definition run_syllable :: "('v, 'm) asm_isa \<Rightarrow> asm_syllable \<Rightarrow> ('v, 'm) asm_state \<Rightarrow> ('v, 'm) asm_state" where
  "run_syllable N s st = issue N st s st"

definition run_syllables :: "('v, 'm) asm_isa \<Rightarrow> asm_syllable list \<Rightarrow> ('v, 'm) asm_state \<Rightarrow> ('v, 'm) asm_state" where
  "run_syllables N ss st = fold (run_syllable N) ss st"

definition run_bundle :: "('v, 'm) asm_isa \<Rightarrow> asm_bundle \<Rightarrow> ('v, 'm) asm_state \<Rightarrow> ('v, 'm) asm_state" where
  "run_bundle N b st = fold (issue N st) (bundle_syllables b) st"

section \<open>Independent syllables\<close>

definition gpr_reads :: "asm_syllable \<Rightarrow> u8 set" where
  "gpr_reads s = {n. Reg n \<in> set (syllable_sources s) \<or> (\<exists>off. MemAddr n off \<in> set (syllable_sources s))}"

definition pred_reads :: "asm_syllable \<Rightarrow> u8 set" where
  "pred_reads s = {n. Pred n \<in> set (syllable_sources s)}"

abbreviation gdest :: "asm_syllable \<Rightarrow> u8 option" where
  "gdest s \<equiv> gpr_dest (syllable_op s) s"

definition independent :: "asm_syllable \<Rightarrow> asm_syllable \<Rightarrow> bool" where
  "independent s t \<longleftrightarrow>
     (\<forall>r. gdest s = Some r \<longrightarrow> gdest t \<noteq> Some r \<and> r \<notin> gpr_reads t) \<and> (\<forall>r. gdest t = Some r \<longrightarrow> r \<notin> gpr_reads s) \<and>
     (\<forall>r. pred_dest s = Some r \<longrightarrow> pred_dest t \<noteq> Some r \<and> r \<notin> pred_reads t) \<and> (\<forall>r. pred_dest t = Some r \<longrightarrow> r \<notin> pred_reads s) \<and>
     \<not> (accesses_memory s \<and> accesses_memory t)"

lemma independent_sym: "independent s t \<Longrightarrow> independent t s"
  by (auto simp: independent_def)

lemma gpr_sources_operands:
  "n \<in> set (gpr_sources g oprs) \<longleftrightarrow>
     Reg n \<in> set (source_operands g p oprs) \<or> (\<exists>off. MemAddr n off \<in> set (source_operands g p oprs))"
  by (induction g p oprs rule: source_operands.induct) (auto split: if_splits)

lemma gpr_reads_iff:
  "r \<in> gpr_reads s \<longleftrightarrow> syllable_op s \<noteq> Nop \<and> r \<in> set (gpr_sources (writes_gpr (syllable_op s)) (syl_operands s))"
  by (auto simp: gpr_reads_def syllable_sources_def Let_def gpr_sources_operands[where p = "writes_pred (syllable_op s)"])

text \<open>What a syllable reads is the same in states that agree on the registers it reads.\<close>

lemma args_cong:
  assumes "\<forall>r \<in> gpr_reads s. gprs st r = gprs st' r" "\<forall>r \<in> pred_reads s. preds st r = preds st' r"
  shows "syllable_args st s = syllable_args st' s"
proof -
  have "operand_arg st opr = operand_arg st' opr" if "opr \<in> set (syllable_sources s)" for opr
  proof (cases opr)
  qed (use that assms in \<open>auto simp: gpr_reads_def pred_reads_def\<close>)
  then show ?thesis by (simp add: syllable_args_def)
qed

lemma issue_args:
  assumes "independent s t"
  shows "syllable_args (issue N old s st) t = syllable_args st t"
  using assms
  by (intro args_cong)
    (auto simp: issue_def Let_def independent_def write_gpr_def write_pred_def split: prod.splits option.splits)

lemma issue_data: "\<not> accesses_memory s \<Longrightarrow> data (issue N old s st) = data st"
  by (simp add: issue_def Let_def)

lemma issue_commute:
  assumes "independent s t"
  shows "issue N old s (issue N old t st) = issue N old t (issue N old s st)"
proof -
  have "write_gpr (gdest s) u (write_gpr (gdest t) v regs) = write_gpr (gdest t) v (write_gpr (gdest s) u regs)"
      "write_pred (pred_dest s) u (write_pred (pred_dest t) v regs) =
         write_pred (pred_dest t) v (write_pred (pred_dest s) u regs)" for u v and regs :: "u8 \<Rightarrow> 'a"
    using assms by (auto simp: independent_def write_gpr_def write_pred_def fun_upd_twist split: option.splits)
  moreover have "\<not> (accesses_memory s \<and> accesses_memory t)" using assms by (simp add: independent_def)
  ultimately show ?thesis by (auto simp: issue_def Let_def split: prod.splits)
qed

text \<open>
  Issuing pairwise independent syllables one after the other, in any order, is issuing them at once.
\<close>

lemma run_syllables_at_once:
  assumes "sorted_wrt independent ss" "\<forall>s \<in> set ss. syllable_args st s = syllable_args old s"
    and "(\<exists>s \<in> set ss. accesses_memory s) \<longrightarrow> data st = data old"
  shows "run_syllables N ss st = fold (issue N old) ss st"
  using assms
proof (induction ss arbitrary: st)
  case (Cons s ss)
  have now: "run_syllable N s st = issue N old s st"
    using Cons.prems(2,3) by (auto simp: run_syllable_def issue_def Let_def)
  have ind: "independent s t" if "t \<in> set ss" for t using Cons.prems(1) that by simp
  have "(\<exists>t \<in> set ss. accesses_memory t) \<longrightarrow> data (issue N old s st) = data old"
  proof
    assume "\<exists>t \<in> set ss. accesses_memory t"
    then have "\<not> accesses_memory s" "data st = data old" using ind Cons.prems(3) by (auto simp: independent_def)
    then show "data (issue N old s st) = data old" by (simp add: issue_data)
  qed
  moreover have "\<forall>t \<in> set ss. syllable_args (issue N old s st) t = syllable_args old t"
    by (simp add: issue_args[OF ind] Cons.prems(2))
  ultimately show ?case using Cons.IH[of "issue N old s st"] Cons.prems(1) now by (simp add: run_syllables_def)
qed (simp add: run_syllables_def)

lemma sorted_wrt_pairs: "sorted_wrt P xs \<Longrightarrow> (\<And>x y. P x y \<Longrightarrow> P y x) \<Longrightarrow> x \<in> set xs \<Longrightarrow> y \<in> set xs \<Longrightarrow> x = y \<or> P x y"
  by (induction xs) auto

lemma sorted_wrt_permuted:
  assumes "sorted_wrt P xs" "mset ys = mset xs" "\<And>x y. P x y \<Longrightarrow> P y x"
  shows "sorted_wrt P ys"
  using assms(1,2)
proof (induction ys arbitrary: xs)
  case (Cons y ys)
  obtain us vs where xs: "xs = us @ y # vs" using Cons.prems(2) by (metis mset_eq_setD list.set_intros(1) split_list)
  then have "mset ys = mset (us @ vs)" using Cons.prems(2) by simp
  moreover have "sorted_wrt P (us @ vs)" "\<forall>z \<in> set (us @ vs). P y z"
    using Cons.prems(1) assms(3) by (auto simp: xs sorted_wrt_append)
  ultimately show ?case using Cons.IH mset_eq_setD by (metis sorted_wrt.simps(2))
qed simp

lemma run_bundle_any_order:
  assumes "sorted_wrt independent (bundle_syllables b)" "mset ss = mset (bundle_syllables b)"
  shows "run_bundle N b st = run_syllables N ss st"
proof -
  have "issue N st x \<circ> issue N st y = issue N st y \<circ> issue N st x"
    if "x \<in> set (bundle_syllables b)" "y \<in> set (bundle_syllables b)" for x y
    using sorted_wrt_pairs[OF assms(1) independent_sym that] issue_commute by fastforce
  then have "fold (issue N st) (bundle_syllables b) = fold (issue N st) ss"
    using assms(2) by (intro fold_multiset_equiv) auto
  then have "run_bundle N b st = fold (issue N st) ss st" by (simp add: run_bundle_def)
  also have "\<dots> = run_syllables N ss st"
    using run_syllables_at_once[of ss st st N] sorted_wrt_permuted[OF assms independent_sym] by simp
  finally show ?thesis .
qed

section \<open>Verified bundles\<close>

text \<open>
  The verifier looks at general-purpose registers only, so predicates and memory need conditions of
  their own: no syllable of the bundle writes a predicate, and the processor has one slot for memory.
\<close>

definition writes_no_pred :: "asm_syllable \<Rightarrow> bool" where
  "writes_no_pred s \<longleftrightarrow> \<not> writes_pred (syllable_op s)"

definition one_memory_slot :: "processor \<Rightarrow> bool" where
  "one_memory_slot p \<longleftrightarrow>
     (\<forall>i j op op'. is_memory_opcode op \<longrightarrow> is_memory_opcode op' \<longrightarrow> slot_legal p i op \<longrightarrow> slot_legal p j op' \<longrightarrow> i = j)"

lemma sorted_wrt_somes:
  assumes "\<And>i j a b. i < j \<Longrightarrow> j < length xs \<Longrightarrow> xs ! i = Some a \<Longrightarrow> xs ! j = Some b \<Longrightarrow> P a b"
  shows "sorted_wrt P (somes xs)"
  using assms
proof (induction xs)
  case (Cons x xs)
  have "sorted_wrt P (somes xs)"
  proof (rule Cons.IH)
    fix i j a b
    assume "i < j" "j < length xs" "xs ! i = Some a" "xs ! j = Some b"
    then show "P a b" using Cons.prems[of "Suc i" "Suc j" a b] by simp
  qed
  moreover have "P a b" if "x = Some a" "b \<in> set (somes xs)" for a b
  proof -
    have "Some b \<in> set xs" using \<open>b \<in> set (somes xs)\<close> by (simp add: set_somes)
    then obtain j where "j < length xs" "xs ! j = Some b" by (auto simp: in_set_conv_nth)
    then show ?thesis using Cons.prems[of 0 "Suc j" a b] \<open>x = Some a\<close> by simp
  qed
  ultimately show ?case by (cases x) simp_all
qed simp

lemma slot_op:
  assumes "bundle_ok p b" "k < width_of p" "slot_syllable b k = Some u" "syllable_op u \<noteq> Nop"
  shows "issues p b k (syllable_op u) u" "slot_legal p k (syllable_op u)"
proof -
  obtain op where "from_mnemonic (syl_opcode u) = Some op" "op = Nop \<or> slot_legal p k op"
    using assms(1-3) unfolding bundle_ok_def slots_legal_def by blast
  then show "issues p b k (syllable_op u) u" "slot_legal p k (syllable_op u)"
    using assms(2-4) by (auto simp: issues_def syllable_op_def)
qed

lemma not_nop: "gdest u = Some r \<Longrightarrow> syllable_op u \<noteq> Nop" "accesses_memory u \<Longrightarrow> syllable_op u \<noteq> Nop"
  by (auto simp: gpr_dest_def accesses_memory_def is_memory_opcode_def table_simps split: if_splits)

lemma slot_independent:
  assumes "bundle_ok p b" "one_memory_slot p" "i \<noteq> j" "i < width_of p" "j < width_of p"
    and "slot_syllable b i = Some s" "slot_syllable b j = Some t" "writes_no_pred s" "writes_no_pred t"
  shows "independent s t"
proof -
  have writes: "slot_writes p b k r" if "k < width_of p" "slot_syllable b k = Some u" "gdest u = Some r" for k u r
    using slot_op(1)[OF assms(1) that(1,2) not_nop(1)[OF that(3)]] that(3) unfolding slot_writes_def by blast
  have reads: "slot_reads p b k r" if "k < width_of p" "slot_syllable b k = Some u" "r \<in> gpr_reads u" for k u r
    using slot_op(1)[OF assms(1) that(1,2)] that(3) unfolding slot_reads_def gpr_reads_iff by blast
  have apart: "slot_writes p b k r \<Longrightarrow> slot_writes p b l r \<Longrightarrow> k = l" "slot_reads p b k r \<Longrightarrow> slot_writes p b l r \<Longrightarrow> k = l"
    for k l r using assms(1) unfolding bundle_ok_def by blast+
  have "pred_dest s = None" "pred_dest t = None" using assms(8,9) by (simp_all add: writes_no_pred_def pred_dest_def)
  moreover have "\<not> (accesses_memory s \<and> accesses_memory t)"
  proof
    assume both: "accesses_memory s \<and> accesses_memory t"
    then have "slot_legal p i (syllable_op s)" "slot_legal p j (syllable_op t)"
      using slot_op(2)[OF assms(1)] assms(4-7) not_nop(2) by blast+
    then show False using both assms(2,3) unfolding one_memory_slot_def accesses_memory_def by blast
  qed
  moreover have "gdest t \<noteq> Some r \<and> r \<notin> gpr_reads t" if "gdest s = Some r" for r
    using writes[OF assms(4,6) that] writes[OF assms(5,7)] reads[OF assms(5,7)] apart assms(3) by metis
  moreover have "r \<notin> gpr_reads s" if "gdest t = Some r" for r
    using writes[OF assms(5,7) that] reads[OF assms(4,6)] apart assms(3) by metis
  ultimately show ?thesis by (simp add: independent_def)
qed

text \<open>So a verified bundle computes what its syllables compute one after the other, in any order.\<close>

lemma verified_bundle_run:
  assumes "bundle_ok p b" "fits p b" "one_memory_slot p" "\<forall>s \<in> set (bundle_syllables b). writes_no_pred s"
    and "mset ss = mset (bundle_syllables b)"
  shows "run_bundle N b st = run_syllables N ss st"
proof (rule run_bundle_any_order[OF _ assms(5)])
  show "sorted_wrt independent (bundle_syllables b)"
    unfolding bundle_syllables_def
  proof (rule sorted_wrt_somes)
    fix i j s t
    assume ij: "i < j" "j < length (slots b)" "slots b ! i = Some s" "slots b ! j = Some t"
    then have in_b: "i < width_of p" "j < width_of p" "slot_syllable b i = Some s" "slot_syllable b j = Some t"
      using assms(2) by (auto simp: fits_def slot_syllable_Some)
    have preds: "writes_no_pred s" "writes_no_pred t"
    proof -
      have "s \<in> set (bundle_syllables b)" "t \<in> set (bundle_syllables b)"
        using nth_mem[of i "slots b"] nth_mem[of j "slots b"] ij by (simp_all add: bundle_syllables_def set_somes)
      then show "writes_no_pred s" "writes_no_pred t" using assms(4) by blast+
    qed
    show "independent s t" using ij(1) by (intro slot_independent[OF assms(1,3) _ in_b preds]) simp
  qed
qed

section \<open>Programs\<close>

text \<open>Executing items in order without jumping, bundle by bundle; and the events of a program one by one.\<close>

definition run_item :: "('v, 'm) asm_isa \<Rightarrow> item \<Rightarrow> ('v, 'm) asm_state \<Rightarrow> ('v, 'm) asm_state" where
  "run_item N it st = (case it of LabelItem _ \<Rightarrow> st | BundleItem b \<Rightarrow> run_bundle N b st)"

definition run_items :: "('v, 'm) asm_isa \<Rightarrow> item list \<Rightarrow> ('v, 'm) asm_state \<Rightarrow> ('v, 'm) asm_state" where
  "run_items N its st = fold (run_item N) its st"

definition run_event :: "('v, 'm) asm_isa \<Rightarrow> event \<Rightarrow> ('v, 'm) asm_state \<Rightarrow> ('v, 'm) asm_state" where
  "run_event N e st = (case e of Mark _ \<Rightarrow> st | Issue s \<Rightarrow> run_syllable N s st)"

definition run_events :: "('v, 'm) asm_isa \<Rightarrow> event list \<Rightarrow> ('v, 'm) asm_state \<Rightarrow> ('v, 'm) asm_state" where
  "run_events N evs st = fold (run_event N) evs st"

lemma run_events_issue: "run_events N (map Issue ss) st = run_syllables N ss st"
  by (induction ss arbitrary: st) (simp_all add: run_events_def run_syllables_def run_event_def)

text \<open>Each item of the output computes what the group of events it carries computes one by one.\<close>

definition computes_group :: "('v, 'm) asm_isa \<Rightarrow> item \<Rightarrow> event list \<Rightarrow> bool" where
  "computes_group N it g \<longleftrightarrow> carries it g \<and> (\<forall>st. run_item N it st = run_events N g st)"

lemma run_groups:
  assumes "list_all2 (computes_group N) its groups"
  shows "run_items N its st = run_events N (concat groups) st"
  using assms
proof (induction arbitrary: st rule: list_all2_induct)
  case (Cons it its g groups)
  then show ?case by (simp add: run_items_def run_events_def computes_group_def)
qed (simp add: run_items_def run_events_def)

definition parallel_safe :: "processor \<Rightarrow> item \<Rightarrow> bool" where
  "parallel_safe p it \<longleftrightarrow>
     (case it of
        LabelItem _ \<Rightarrow> True
      | BundleItem b \<Rightarrow> bundle_ok p b \<and> fits p b \<and> (\<forall>s \<in> set (bundle_syllables b). writes_no_pred s))"

lemma carries_computes:
  assumes "one_memory_slot p" "parallel_safe p it" "carries it g"
  shows "computes_group N it g"
proof (cases it)
  case (LabelItem l)
  then show ?thesis
    using assms(3) by (auto simp: computes_group_def carries_def run_item_def run_events_def run_event_def)
next
  case (BundleItem b)
  then obtain ss where "g = map Issue ss" "mset ss = mset (bundle_syllables b)" using assms(3) by (auto simp: carries_def)
  then show ?thesis
    using assms BundleItem verified_bundle_run[of p b ss N]
    by (simp add: computes_group_def run_item_def run_events_issue parallel_safe_def)
qed

lemma in_order_computes:
  assumes "in_order evs its" "one_memory_slot p" "\<forall>it \<in> set its. parallel_safe p it"
  shows "\<exists>groups. concat groups = evs \<and> list_all2 (computes_group N) its groups"
proof -
  obtain groups where g: "concat groups = evs" "list_all2 carries its groups" using assms(1) by (auto simp: in_order_def)
  have "list_all2 (computes_group N) its groups"
    using g(2) carries_computes[OF assms(2)] assms(3) by (auto elim!: list.rel_mono_strong)
  then show ?thesis using g(1) by blast
qed

lemma in_order_issues:
  assumes "in_order evs its" "BundleItem b \<in> set its" "s \<in> set (bundle_syllables b)"
  shows "Issue s \<in> set evs"
proof -
  obtain groups where g: "concat groups = evs" "list_all2 carries its groups" using assms(1) by (auto simp: in_order_def)
  obtain g where "g \<in> set groups" "carries (BundleItem b) g"
    using g(2) assms(2) by (metis in_set_conv_nth list_all2_conv_all_nth)
  then have "Issue s \<in> set g" using assms(3) by (auto simp: carries_def dest: mset_eq_setD)
  then show ?thesis using \<open>g \<in> set groups\<close> g(1) by auto
qed

lemma in_order_safe:
  assumes "in_order evs its" "\<forall>b \<in> set (bundles_of its). bundle_ok p b \<and> fits p b"
    and "\<forall>s. Issue s \<in> set evs \<longrightarrow> writes_no_pred s"
  shows "\<forall>it \<in> set its. parallel_safe p it"
  using in_order_issues[OF assms(1)] assms(2,3) by (auto simp: parallel_safe_def set_bundles_of split: item.splits)

section \<open>Properties\<close>

text \<open>
  C6: packing changes no result.  Take a scalar program of verified one-syllable bundles that writes no
  predicate, on a processor with one memory slot, and any machine.  The packer returns a program whose
  items split the scalar program's labels and syllables into consecutive groups, and each bundle, its
  syllables reading their operands before any of them writes, does to registers and memory what its
  group does when issued one syllable after the other; so does the whole program when run through.
\<close>

theorem packed_computes_scalar:
  assumes "\<forall>it \<in> set (items prog). packable_item (processor prog) it" "one_memory_slot (processor prog)"
    and "\<forall>s. Issue s \<in> set (item_events (items prog)) \<longrightarrow> writes_no_pred s"
  shows "\<exists>prog' groups. pack_scalar_program prog = Some prog' \<and> concat groups = item_events (items prog) \<and>
    list_all2 (computes_group N) (items prog') groups \<and>
    (\<forall>st. run_items N (items prog') st = run_items N (items prog) st)"
proof -
  let ?p = "processor prog"
  obtain prog' where prog': "pack_scalar_program prog = Some prog'" "well_packed prog prog'"
    using pack_scalar_program_ok[OF assms(1)] by blast
  have safe: "\<forall>it \<in> set (items prog'). parallel_safe ?p it"
    using in_order_safe[of "item_events (items prog)" "items prog'" ?p] prog'(2) assms(3) unfolding well_packed_def by blast
  obtain groups where groups: "concat groups = item_events (items prog)" "list_all2 (computes_group N) (items prog') groups"
    using in_order_computes[OF _ assms(2) safe] prog'(2) unfolding well_packed_def by blast
  have "\<forall>b \<in> set (bundles_of (items prog)). bundle_ok ?p b \<and> fits ?p b"
    using assms(1) by (fastforce simp: set_bundles_of packable_item_def packable_def)
  then have "\<forall>it \<in> set (items prog). parallel_safe ?p it" using in_order_safe[OF in_order_self] assms(3) by blast
  then obtain groups0 where "concat groups0 = item_events (items prog)" "list_all2 (computes_group N) (items prog) groups0"
    using in_order_computes[OF in_order_self assms(2)] by blast
  then have "run_items N (items prog') st = run_items N (items prog) st" for st
    using run_groups[OF groups(2), of st] run_groups[of N "items prog" groups0 st] groups(1) by simp
  then show ?thesis using prog'(1) groups by blast
qed

lemma default_one_memory_slot: "one_memory_slot default_processor"
proof -
  have "i = 2" if legal: "slot_legal default_processor i op" and mem: "is_memory_opcode op" for i op
  proof -
    obtain names name k where "get (slot_units default_processor) i = Some names" "name \<in> set names"
        "unit_kind_map default_processor name = Some k" "k \<in> set (units op)"
      using legal unfolding slot_legal_def by blast
    moreover from this have "k = Memory" using mem by (simp add: is_memory_opcode_def)
    ultimately have "i < 4" "i = 0 \<or> i = 1 \<or> i = 2 \<or> i = 3 \<Longrightarrow> i = 2"
      by (auto simp: default_processor_def get_def unit_kind_map_def map_filter_simps from_kind_str_def split: if_splits)
    then show ?thesis by linarith
  qed
  then show ?thesis unfolding one_memory_slot_def by blast
qed

text \<open>Witness: two constants are loaded in one bundle.\<close>

definition constant_isa :: "(i64, unit) asm_isa" where
  "constant_isa = \<lparr>op_result = \<lambda>op args. case args of [Constant n] \<Rightarrow> n | _ \<Rightarrow> 0, op_memory = \<lambda>op args m. (0, m)\<rparr>"

theorem packed_computes_scalar_witness:
  "\<exists>prog'. pack_scalar_program two_bundles = Some prog' \<and> length (items prog') = 3 \<and>
     (\<forall>st. run_items constant_isa (items prog') st = run_items constant_isa (items two_bundles) st)"
proof -
  have "one_memory_slot (processor two_bundles)" using default_one_memory_slot by (simp add: two_bundles_def)
  moreover have "\<forall>s. Issue s \<in> set (item_events (items two_bundles)) \<longrightarrow> writes_no_pred s"
    by (auto simp: two_bundles_def bundle_syllables_def writes_no_pred_def syllable_op_def from_mnemonic_def table_simps)
  moreover have "map_option (length \<circ> items) (pack_scalar_program two_bundles) = Some 3" by code_simp
  ultimately show ?thesis using packed_computes_scalar[OF two_bundles_packable, of constant_isa] by auto
qed

end
