(* ===== verification/PackBounds.thy ===== *)
theory PackBounds
  imports Pack
begin

text \<open>
  Packing never makes a program longer: no syllable issues later in the packed program than in the
  scalar one, because the packed code never runs behind the scalar code and every result in it is
  ready no later.
\<close>

section \<open>Results that are ready no later\<close>

definition no_later :: "ready_state \<Rightarrow> ready_state \<Rightarrow> bool" where
  "no_later rdy rdy' \<longleftrightarrow> (\<forall>r. unwrap_or (gpr_ready rdy r) 0 \<le> unwrap_or (gpr_ready rdy' r) 0)"

lemma no_later_refl [simp]: "no_later rdy rdy"
  by (simp add: no_later_def)

text \<open>Predicates are settled by the next cycle, so only general-purpose registers keep a bundle waiting.\<close>

lemma operands_ready_no_later:
  assumes "operands_ready rdy' cyc' g p oprs" "no_later rdy rdy'" "preds_settled rdy cyc" "cyc' \<le> cyc"
  shows "operands_ready rdy cyc g p oprs"
  using assms
proof (induction rdy' cyc' g p oprs rule: operands_ready.induct)
  case (2 rdy' cyc' g p opr oprs)
  have pred: "unwrap_or (pred_ready rdy r) 0 \<le> cyc" for r
    using "2.prems"(3) by (cases "pred_ready rdy r") (auto simp: preds_settled_def unwrap_or_def)
  have gpr: "unwrap_or (gpr_ready rdy r) 0 \<le> cyc" if "unwrap_or (gpr_ready rdy' r) 0 \<le> cyc'" for r
  proof -
    have "unwrap_or (gpr_ready rdy r) 0 \<le> unwrap_or (gpr_ready rdy' r) 0" using "2.prems"(2) by (simp add: no_later_def)
    then show ?thesis using that "2.prems"(4) by linarith
  qed
  show ?case using 2 pred gpr by (cases opr) (auto split: if_splits)
qed simp

lemma bundle_ready_no_later:
  assumes "bundle_sources_ready_at b cyc' rdy'" "no_later rdy rdy'" "preds_settled rdy cyc" "cyc' \<le> cyc"
  shows "bundle_sources_ready_at b cyc rdy"
  using assms unfolding bundle_sources_ready_iff sources_ready_at_def by (meson operands_ready_no_later)

lemma preds_settled_after:
  "preds_settled rdy start \<Longrightarrow> preds_settled (ready_after_bundles rdy start bs) (start + length bs)"
  by (induction bs rule: rev_induct) (simp_all add: preds_settled_bundle)

section \<open>The effect of a bundle on the scoreboard\<close>

lemma writes_unique:
  assumes "bundle_ok p b" "fits p b" "bundle_writes b r op" "bundle_writes b r op'"
  shows "op = op'"
proof -
  have slot: "\<exists>i. slot_writes p b i r \<and> issues p b i o' s" if "bundle_writes b r o'" "s \<in> set (bundle_syllables b)"
      "from_mnemonic (syl_opcode s) = Some o'" "gpr_dest o' s = Some r" for o' s
  proof -
    have "Some s \<in> set (slots b)" using that(2) by (simp add: bundle_syllables_def set_somes)
    then obtain i where "i < length (slots b)" "slots b ! i = Some s" by (auto simp: in_set_conv_nth)
    moreover have "o' \<noteq> Nop" using that(4) by (auto simp: gpr_dest_def table_simps split: if_splits)
    ultimately have "issues p b i o' s"
      using assms(2) that(3) by (auto simp: issues_def slot_syllable_Some fits_def)
    then show ?thesis using that(4) unfolding slot_writes_def by blast
  qed
  obtain s s' where s: "s \<in> set (bundle_syllables b)" "from_mnemonic (syl_opcode s) = Some op" "gpr_dest op s = Some r"
      "s' \<in> set (bundle_syllables b)" "from_mnemonic (syl_opcode s') = Some op'" "gpr_dest op' s' = Some r"
    using assms(3,4) unfolding bundle_writes_def by blast
  obtain i j where "slot_writes p b i r" "issues p b i op s" "slot_writes p b j r" "issues p b j op' s'"
    using slot[OF assms(3) s(1-3)] slot[OF assms(4) s(4-6)] by blast
  moreover from this have "i = j" using assms(1) unfolding bundle_ok_def by blast
  ultimately show ?thesis by (simp add: issues_def)
qed

lemma ready_after_zero: "gpr_ready (update_ready_after_bundle b cyc rdy) ZERO_REG = gpr_ready rdy ZERO_REG"
  unfolding update_ready_after_bundle_def
  by (rule fold_invariant[where Q = "\<lambda>_. True" and P = "\<lambda>rdy'. gpr_ready rdy' ZERO_REG = gpr_ready rdy ZERO_REG"])
    (auto simp: gpr_ready_after_syllable split: option.splits)

lemma ready_written:
  assumes "bundle_ok p b" "fits p b" "r \<noteq> ZERO_REG" "bundle_writes b r op"
  shows "gpr_ready (update_ready_after_bundle b cyc rdy) r = Some (cyc + latency op)"
proof -
  have "\<forall>op'. bundle_writes b r op' \<longrightarrow> op' = op" using writes_unique[OF assms(1,2) _ assms(4)] by blast
  from gpr_ready_after_bundle[OF this assms(3)] show ?thesis using assms(4) by simp
qed

lemma ready_kept:
  "\<forall>op. \<not> bundle_writes b r op \<Longrightarrow> gpr_ready (update_ready_after_bundle b cyc rdy) r = gpr_ready rdy r"
  using gpr_ready_after_bundle[of b r Nop cyc rdy] ready_after_zero[of b cyc rdy] by (cases "r = ZERO_REG") auto

lemma no_later_bundle:
  assumes "bundle_ok p b" "fits p b" "no_later rdy rdy'" "cyc \<le> cyc'"
  shows "no_later (update_ready_after_bundle b cyc rdy) (update_ready_after_bundle b cyc' rdy')"
  unfolding no_later_def
proof
  fix r
  have le: "unwrap_or (gpr_ready rdy r) 0 \<le> unwrap_or (gpr_ready rdy' r) 0" using assms(3) by (simp add: no_later_def)
  consider "r = ZERO_REG" | op where "r \<noteq> ZERO_REG" "bundle_writes b r op" | "\<forall>op. \<not> bundle_writes b r op" by blast
  then show "unwrap_or (gpr_ready (update_ready_after_bundle b cyc rdy) r) 0
      \<le> unwrap_or (gpr_ready (update_ready_after_bundle b cyc' rdy') r) 0"
    using le assms(4) by cases (simp_all add: ready_after_zero ready_written[OF assms(1,2)] ready_kept unwrap_or_def)
qed

text \<open>A bundle merged into the previous one.\<close>

lemma no_later_merged:
  assumes "bundle_ok p prev" "fits p prev" "bundle_ok p b" "fits p b" "bundle_ok p c" "fits p c"
    and "mset (bundle_syllables c) = mset (bundle_syllables prev @ bundle_syllables b)"
    and "no_later (update_ready_after_bundle prev cyc rdy) rdy'" "cyc \<le> cyc'"
  shows "no_later (update_ready_after_bundle c cyc rdy) (update_ready_after_bundle b cyc' rdy')"
  unfolding no_later_def
proof
  fix r
  have writes: "bundle_writes c r op \<longleftrightarrow> bundle_writes prev r op \<or> bundle_writes b r op" for op
    using mset_eq_setD[OF assms(7)] by (auto simp: bundle_writes_def)
  have le: "unwrap_or (gpr_ready (update_ready_after_bundle prev cyc rdy) r) 0 \<le> unwrap_or (gpr_ready rdy' r) 0"
    using assms(8) by (simp add: no_later_def)
  consider "r = ZERO_REG" | op where "r \<noteq> ZERO_REG" "bundle_writes b r op"
    | op where "r \<noteq> ZERO_REG" "bundle_writes prev r op" "\<forall>op. \<not> bundle_writes b r op"
    | "\<forall>op. \<not> bundle_writes c r op" using writes by blast
  then show "unwrap_or (gpr_ready (update_ready_after_bundle c cyc rdy) r) 0
      \<le> unwrap_or (gpr_ready (update_ready_after_bundle b cyc' rdy') r) 0"
  proof cases
    case 1
    then show ?thesis using le by (simp add: ready_after_zero)
  next
    case 2
    then have "bundle_writes c r op" using writes by blast
    then show ?thesis
      using 2 assms(9) by (simp add: ready_written[OF assms(3,4)] ready_written[OF assms(5,6)] unwrap_or_def)
  next
    case 3
    then have "bundle_writes c r op" using writes by blast
    then show ?thesis
      using 3 le by (simp add: ready_written[OF assms(1,2)] ready_written[OF assms(5,6)] ready_kept unwrap_or_def)
  next
    case 4
    then show ?thesis using writes le by (simp add: ready_kept)
  qed
qed

section \<open>Packing a segment\<close>

text \<open>Padding stops as soon as the bundle's sources are ready.\<close>

lemma pad_until_ready_short:
  assumes "bundle_sources_ready_at b c (ready_after_bundles rdy start outb)"
  shows "\<exists>n. pad_until_ready rdy start b outb = Some (outb @ replicate n empty_bundle) \<and>
    start + length outb + n \<le> max (start + length outb) c"
  using assms
proof (induction "c - (start + length outb)" arbitrary: outb)
  case 0
  then have "bundle_sources_ready_at b (start + length outb) (ready_after_bundles rdy start outb)"
    by (auto intro: bundle_sources_ready_mono)
  then show ?case by (intro exI[of _ 0]) (simp add: pad_until_ready.simps[of rdy start b outb])
next
  case (Suc m)
  show ?case
  proof (cases "bundle_sources_ready_at b (start + length outb) (ready_after_bundles rdy start outb)")
    case True
    then show ?thesis by (intro exI[of _ 0]) (simp add: pad_until_ready.simps[of rdy start b outb])
  next
    case False
    have "m = c - (start + length (outb @ [empty_bundle]))" using Suc.hyps(2) by simp
    from Suc.hyps(1)[OF this] Suc.prems obtain n where
      "pad_until_ready rdy start b (outb @ [empty_bundle]) = Some (outb @ replicate (Suc n) empty_bundle)"
      "start + length outb + Suc n \<le> max (Suc (start + length outb)) c"
      by auto
    moreover have "Suc (start + length outb) \<le> c" using Suc.hyps(2) by simp
    ultimately show ?thesis
      using False by (intro exI[of _ "Suc n"]) (simp add: pad_until_ready.simps[of rdy start b outb])
  qed
qed

text \<open>The packed code \<open>outb\<close> is not behind the scalar code \<open>seg\<close>.\<close>

definition not_behind :: "ready_state \<Rightarrow> nat \<Rightarrow> asm_bundle list \<Rightarrow> ready_state \<Rightarrow> nat \<Rightarrow> asm_bundle list \<Rightarrow> bool" where
  "not_behind rdy start outb rdy' start' seg \<longleftrightarrow>
     start + length outb \<le> start' + length seg \<and>
     no_later (ready_after_bundles rdy start outb) (ready_after_bundles rdy' start' seg)"

lemma pack_bundle_not_behind:
  assumes "pack_bundle p start rdy outb b = Some outb'" "not_behind rdy start outb rdy' start' seg"
    and "packable p b" "\<forall>b \<in> set outb. bundle_ok p b \<and> fits p b" "preds_settled rdy start"
    and "bundle_sources_ready_at b (start' + length seg) (ready_after_bundles rdy' start' seg)"
  shows "not_behind rdy start outb' rdy' start' (seg @ [b])"
proof -
  have b: "bundle_ok p b" "fits p b" using assms(3) by (simp_all add: packable_def)
  have behind: "start + length outb \<le> start' + length seg"
      "no_later (ready_after_bundles rdy start outb) (ready_after_bundles rdy' start' seg)"
    using assms(2) by (simp_all add: not_behind_def)
  have snoc: "not_behind rdy start (outb @ replicate n empty_bundle @ [b]) rdy' start' (seg @ [b])"
    if "start + length outb + n \<le> start' + length seg" for n
  proof -
    have "ready_after_bundles rdy start (outb @ replicate n empty_bundle) = ready_after_bundles rdy start outb"
      by (induction n) (simp_all add: replicate_append_same[symmetric] flip: append_assoc)
    then show ?thesis
      using no_later_bundle[OF b behind(2) that] that
      by (simp add: not_behind_def add.assoc flip: append_assoc)
  qed
  show ?thesis
  proof (cases "bundle_is_empty b")
    case True
    then show ?thesis using assms(1) snoc[of 0] behind(1) by (simp add: pack_bundle_def)
  next
    case nonempty: False
    show ?thesis
    proof (cases "try_merge_into_previous p outb b start rdy")
      case None
      have "preds_settled (ready_after_bundles rdy start outb) (start' + length seg)"
        using preds_settled_after[OF assms(5), of outb] behind(1) by (auto simp: preds_settled_def dest: order_trans)
      then have "bundle_sources_ready_at b (start' + length seg) (ready_after_bundles rdy start outb)"
        using bundle_ready_no_later[OF assms(6) behind(2)] by simp
      from pad_until_ready_short[OF this] obtain n where
        "outb' = outb @ replicate n empty_bundle @ [b]" "start + length outb + n \<le> start' + length seg"
        using assms(1) None nonempty behind(1) by (auto simp: pack_bundle_def)
      then show ?thesis using snoc by simp
    next
      case (Some out')
      then have "outb' = out'" using assms(1) nonempty by (simp add: pack_bundle_def)
      then obtain pre prev c where m: "outb = pre @ [prev]" "outb' = pre @ [c]" "bundle_ok p c" "fits p c"
          "mset (bundle_syllables c) = mset (bundle_syllables prev @ bundle_syllables b)"
        using try_merge_Some[OF Some] assms(4) by auto
      have prev: "bundle_ok p prev" "fits p prev" using assms(4) m(1) by simp_all
      have "no_later (update_ready_after_bundle c (start + length pre) (ready_after_bundles rdy start pre))
          (update_ready_after_bundle b (start' + length seg) (ready_after_bundles rdy' start' seg))"
        using behind m(1) by (intro no_later_merged[OF prev b m(3,4,5)]) simp_all
      then show ?thesis using behind(1) m(1,2) by (simp add: not_behind_def)
    qed
  qed
qed

lemma pack_bundles_not_behind:
  assumes "pack_bundles p start rdy outb bs = Some outb'" "not_behind rdy start outb rdy' start' seg"
    and "packed_ok p start rdy evs outb" "\<forall>b \<in> set bs. packable p b" "preds_settled rdy start"
    and "stall_free rdy' start' (seg @ bs)"
  shows "not_behind rdy start outb' rdy' start' (seg @ bs)"
  using assms
proof (induction bs arbitrary: outb seg evs)
  case (Cons b bs)
  have b: "packable p b" using Cons.prems(4) by simp
  obtain out1 where out1: "pack_bundle p start rdy outb b = Some out1"
      "packed_ok p start rdy (evs @ map Issue (bundle_syllables b)) out1"
    using pack_bundle_ok[OF Cons.prems(3) b] by blast
  have "stall_free rdy' start' ((seg @ [b]) @ bs)" using Cons.prems(6) by simp
  moreover from this have "bundle_sources_ready_at b (start' + length seg) (ready_after_bundles rdy' start' seg)"
    using stall_free_append[of rdy' start' "seg @ [b]" bs] stall_free_snoc[of rdy' start' seg b] by blast
  moreover have "\<forall>b \<in> set outb. bundle_ok p b \<and> fits p b" using Cons.prems(3) by (simp add: packed_ok_def)
  ultimately show ?case
    using Cons.IH[OF _ pack_bundle_not_behind[OF out1(1) Cons.prems(2) b _ Cons.prems(5)] out1(2)] Cons.prems(1,4,5) out1(1)
    by simp
qed simp

section \<open>Packing a program\<close>

text \<open>The scalar bundles that the packer has flushed, before its pending segment, are \<open>fl\<close>.\<close>

definition keeps_up :: "asm_bundle list \<Rightarrow> pack_state \<Rightarrow> bool" where
  "keeps_up fl st \<longleftrightarrow> not_behind (pack_ready st) (pack_cycle st) [] ready_default 0 fl"

lemma flush_keeps_up:
  assumes "pack_inv p evs st" "keeps_up fl st" "stall_free ready_default 0 (fl @ segment st)" "flush_segment p st = Some st'"
  shows "keeps_up (fl @ segment st) st'"
proof -
  obtain bs where bs: "pack_bundle_segment p (segment st) (pack_cycle st) (pack_ready st) = Some bs"
      "pack_ready st' = update_ready_after_packed_bundles bs (pack_cycle st) (pack_ready st)"
      "pack_cycle st' = pack_cycle st + length bs"
    using assms(4) by (auto simp: flush_segment_def)
  have seg: "\<forall>b \<in> set (segment st). packable p b" "preds_settled (pack_ready st) (pack_cycle st)"
    using assms(1) preds_settled_bundles by (auto simp: pack_inv_def)
  have "not_behind (pack_ready st) (pack_cycle st) bs ready_default 0 (fl @ segment st)"
    using pack_bundles_not_behind[OF bs(1)[unfolded pack_bundle_segment_def] assms(2)[unfolded keeps_up_def] _ seg assms(3),
        of "[]"] by (simp add: packed_ok_def)
  then show ?thesis using bs(2,3) by (simp add: keeps_up_def not_behind_def ready_after_bundles_def
        update_ready_after_packed_bundles_def)
qed

lemma pack_item_keeps_up:
  assumes "pack_inv p evs st" "packable_item p it" "pack_item p st it = Some st'"
    and "keeps_up fl st" "stall_free ready_default 0 (fl @ segment st @ bundles_of [it])"
  shows "\<exists>fl'. fl' @ segment st' = fl @ segment st @ bundles_of [it] \<and> keeps_up fl' st'"
proof -
  obtain st1 where st1: "flush_segment p st = Some st1" "segment st1 = []" using flush_segment_inv[OF assms(1)] by blast
  have "stall_free ready_default 0 (fl @ segment st)"
    using assms(5) by (simp add: stall_free_append flip: append_assoc)
  then have up: "keeps_up (fl @ segment st) st1" using flush_keeps_up[OF assms(1,4)] st1(1) by blast
  show ?thesis
  proof (cases it)
    case (LabelItem l)
    then show ?thesis using st1 up assms(3) by (auto simp: pack_item_def keeps_up_def)
  next
    case (BundleItem b)
    show ?thesis
    proof (cases "bundle_is_terminator b")
      case True
      have b: "bundle_ok p b" "fits p b" using assms(2) BundleItem by (auto simp: packable_item_def packable_def)
      have "no_later (pack_ready st1) (ready_after_bundles ready_default 0 (fl @ segment st))"
          "pack_cycle st1 \<le> length (fl @ segment st)"
        using up by (simp_all add: keeps_up_def not_behind_def)
      from no_later_bundle[OF b this] this(2) have "keeps_up (fl @ segment st @ [b]) st'"
        using st1 assms(3) BundleItem True
        by (auto simp: pack_item_def keeps_up_def not_behind_def simp flip: append_assoc)
      then show ?thesis using st1 assms(3) BundleItem True by (auto simp: pack_item_def)
    next
      case False
      then show ?thesis
        using assms(3,4) BundleItem by (intro exI[of _ fl]) (auto simp: pack_item_def keeps_up_def)
    qed
  qed
qed

lemma pack_items_keep_up:
  assumes "pack_inv p evs st" "\<forall>it \<in> set its. packable_item p it" "pack_items p st its = Some st'"
    and "keeps_up fl st" "stall_free ready_default 0 (fl @ segment st @ bundles_of its)"
  shows "\<exists>fl'. fl' @ segment st' = fl @ segment st @ bundles_of its \<and> keeps_up fl' st'"
  using assms
proof (induction its arbitrary: evs st fl)
  case (Cons it its)
  obtain st1 where st1: "pack_item p st it = Some st1" "pack_inv p (evs @ item_events [it]) st1"
    using pack_item_inv Cons.prems(1,2) by (meson list.set_intros(1))
  have split: "bundles_of (it # its) = bundles_of [it] @ bundles_of its" using bundles_of_append[of "[it]" its] by simp
  then have "stall_free ready_default 0 (fl @ segment st @ bundles_of [it])"
    using Cons.prems(5) by (simp add: stall_free_append flip: append_assoc)
  then obtain fl1 where fl1: "fl1 @ segment st1 = fl @ segment st @ bundles_of [it]" "keeps_up fl1 st1"
    using pack_item_keeps_up[OF Cons.prems(1) _ st1(1) Cons.prems(4)] Cons.prems(2) by auto
  then have all: "fl1 @ segment st1 @ bundles_of its = fl @ segment st @ bundles_of (it # its)"
    unfolding split by (metis append_assoc)
  then show ?case
    using Cons.IH[OF st1(2) _ _ fl1(2)] Cons.prems(2,3,5) st1(1) by simp
qed simp

text \<open>
  C25: packing never lengthens a program.  If every bundle of a scalar program is legal and finds its
  sources ready in the cycle of its position, the packed program has at most as many bundles, padding
  included.
\<close>

theorem packing_never_lengthens:
  assumes "\<forall>it \<in> set (items prog). packable_item (processor prog) it"
    and "stall_free ready_default 0 (bundles_of (items prog))"
  shows "\<exists>prog'. pack_scalar_program prog = Some prog' \<and>
    length (bundles_of (items prog')) \<le> length (bundles_of (items prog))"
proof -
  let ?p = "processor prog"
  have init: "pack_inv ?p [] pack_init" by (simp add: pack_inv_def pack_init_def)
  obtain st where st: "pack_items ?p pack_init (items prog) = Some st" "pack_inv ?p (item_events (items prog)) st"
    using pack_items_inv[OF init assms(1)] by auto
  have "keeps_up [] pack_init" by (simp add: keeps_up_def not_behind_def pack_init_def)
  then obtain fl where fl: "fl @ segment st = bundles_of (items prog)" "keeps_up fl st"
    using pack_items_keep_up[OF init assms(1) st(1), of "[]"] assms(2) by (auto simp: pack_init_def)
  obtain st' where st': "flush_segment ?p st = Some st'" "pack_inv ?p (item_events (items prog)) st'" "segment st' = []"
    using flush_segment_inv[OF st(2)] by blast
  have "keeps_up (bundles_of (items prog)) st'" using flush_keeps_up[OF st(2) fl(2) _ st'(1)] fl(1) assms(2) by simp
  then have "length (bundles_of (packed st')) \<le> length (bundles_of (items prog))"
    using st'(2) by (simp add: keeps_up_def not_behind_def pack_inv_def)
  moreover obtain bs where "pack_bundle_segment ?p (segment st) (pack_cycle st) (pack_ready st) = Some bs"
      "packed st' = packed st @ map BundleItem bs"
    using st'(1) by (auto simp: flush_segment_def)
  ultimately show ?thesis using st(1) by (simp add: pack_scalar_program_def)
qed

theorem packing_never_lengthens_witness:
  "\<exists>prog'. pack_scalar_program two_bundles = Some prog' \<and> length (bundles_of (items prog')) \<le> 3"
proof -
  have "stall_free ready_default 0 (bundles_of (items two_bundles))"
    by (simp add: two_bundles_def stall_free_def less_Suc_eq numeral_3_eq_3 bundle_sources_ready_iff bundle_syllables_def
        sources_ready_at_def from_mnemonic_def table_simps)
  moreover have "length (bundles_of (items two_bundles)) = 3" by (simp add: two_bundles_def)
  ultimately show ?thesis using packing_never_lengthens[OF two_bundles_packable] by simp
qed

end
