(* ===== verification/Spec2Isabelle.thy ===== *)
theory Spec2Isabelle
  imports Driver ParseErrors IselPhis Departures Straight Parallel PackBounds
begin

text \<open>
  A verification library for the VLIW compiler of this repository (crates \<open>vliw-asm\<close>,
  \<open>vliw-backend\<close> and \<open>vliwc\<close> under \<open>src/crates/\<close>).

  The compiler turns LLVM IR into \<open>.vliw\<close> text.  Instruction selection produces MIR functions over
  virtual registers; phi lowering appends copies to predecessor blocks; liveness analysis feeds the
  register allocator, which rewrites virtual to physical registers and spills to memory; then
  either scalar code generation emits one syllable per bundle, padded by empty bundles until every
  source is ready, or the list scheduler reorders each block first and the packer afterwards
  merges bundles.  The bundle verifier checks the result and the emitter prints it.

  Theories, in the order of their imports:

  \<^item> \<open>Prelude\<close>: machine integers as words, \<open>Result\<close> as a sum (\<open>Inl\<close> the error), early-return
    combinators and list lemmas.  \<open>Text\<close>: the string functions of the Rust standard library the
    sources use (number printing and parsing, trimming, splitting, lines).
  \<^item> \<open>Opcode\<close> (\<open>vliw-asm/src/opcode.rs\<close>), \<open>Asm\<close> (\<open>vliw-asm/src/lib.rs\<close>: data model and emitter),
    \<open>Verify\<close> (\<open>vliw-asm/src/verify.rs\<close>: \<open>verify_bundle\<close>, \<open>verify_program\<close>), \<open>Parse\<close> (\<open>vliw-asm/src/parse.rs\<close>),
    \<open>Roundtrip\<close>, which proves the parser inverse to the emitter, and \<open>ParseErrors\<close>, which shows where its errors
    point.
  \<^item> \<open>Mir\<close> (\<open>vliw-backend/src/mir.rs\<close>), \<open>Regs\<close> (\<open>regs.rs\<close>), \<open>Phi\<close> (\<open>phi.rs\<close>), \<open>Liveness\<close>
    (\<open>liveness.rs\<close>), \<open>Regalloc\<close> (\<open>regalloc.rs\<close>).
  \<^item> \<open>Errors\<close>, \<open>Deps\<close> (register keys and memory buckets), \<open>Sched\<close> (dependence graph and list
    scheduler), \<open>Slots\<close>, \<open>Scoreboard\<close> (\<open>ReadyState\<close>), \<open>Codegen\<close> (\<open>CodegenCtx\<close>), \<open>Pack\<close>: the parts
    of \<open>vliw-backend/src/lib.rs\<close>.
  \<^item> \<open>Llvm\<close>: what the sources read of an LLVM module, as data, and the calls into LLVM, as a record of
    functions; both are arguments of the model.  \<open>Isel\<close> (\<open>isel.rs\<close>): instruction selection, its worklist a
    recursive function and its effect on the selection state a step relation \<open>isel_step\<close>; \<open>IselSsa\<close>,
    \<open>IselLayout\<close>, \<open>IselSafe\<close> and \<open>IselPhis\<close> hold what is proved of it: single assignment, block order, and that on
    functions in a form it can select (\<open>selectable\<close>: LLVM's well-formedness and the limits listed there, among
    them that no branch condition is a constant) it visits the reachable blocks and never panics.
  \<^item> \<open>Frontend\<close>: the subset check and the entry points \<open>compile\<close>, \<open>compile_to_mir\<close> and
    \<open>compile_for_processor\<close>; \<open>Shape\<close> and \<open>Compile\<close> show that the passes compose.  \<open>Driver\<close>: \<open>vliwc/src/main.rs\<close>.
  \<^item> \<open>Straight\<close>: LLVM's semantics of straight-line integer code as an evaluator, and the proof that the back end
    as a whole preserves it.  \<open>Parallel\<close>: bundles whose syllables issue at once, and the proof that packing
    changes no result; \<open>PackBounds\<close>: packing never lengthens a program.  \<open>Departures\<close>: examples of
    inputs on which the code does not do what it means to, recorded as lemmas.
  \<^item> \<open>Machine\<close>: no code of the repository, but the semantics the properties refer to: a register
    file, a spill store and a global store, with the effect of every opcode a parameter (\<open>isa\<close>).

  Correspondence: structs are records and enums datatypes with the constructors of the source;
  \<open>u8\<close>, \<open>u32\<close>, \<open>u64\<close> and \<open>i64\<close> that can wrap are words; \<open>usize\<close> indices are naturals.  A method with \<open>&mut
  self\<close> takes the record and returns it updated.  \<open>Result\<close> and panics (\<open>expect\<close>, indexing) are values, so
  that a theorem which says that an operation returns excludes them.  The order in which a
  \<open>HashMap\<close> is iterated is a parameter wherever the result depends on it; a theorem assumes of it no
  more than that it is a permutation.

  Loops: the liveness fixpoint, the phi serialisation, the scheduling loop and the packer's padding
  loop are \<open>partial_function (option)\<close> or recursion on the work left, and their properties state
  that they return.  No fuel bound is chosen anywhere.

  Locales: \<open>live_sets\<close> (\<open>Liveness\<close>) is the interface of the bit set the dataflow iteration relies on,
  interpreted on the 64-bit word below index 64; \<open>reordering\<close> (\<open>Machine\<close>) is the contract under which
  permuting independent steps keeps a run, interpreted on MIR syllables.

  What the properties show: mnemonics are lossless; the verifier
  decides its contract and its errors are true; liveness is exact up to 64 registers, against control-flow
  edges read off the terminators; phi
  copies are performed in parallel; the allocator returns, keeps its bookkeeping, and preserves
  straight-line code; the scheduler's graph covers every conflict and its order changes no
  result; emitted and packed code has the syllables of the functions in order, legal bundles and
  no early read of a general-purpose register; selected code assigns every virtual register once and
  lays blocks out so that falling through is right; straight-line functions keep the meaning LLVM gives
  them through all passes, and packed bundles compute what the scalar code computes in no more cycles; the spill area, the saved
  link register and the allocatable registers lie where the conventions say; printed programs parse back and parse errors
  point at the line they quote, which no later line can change; and, end to end, on a processor with the slots that compiled code needs, no
  pass after instruction selection can fail and the driver writes a program that the verifier
  accepts to standard output or to the file it is given.

  Build profile: arithmetic and assertions follow the release build.  A debug build stops at the
  \<open>debug_assert\<close> of \<open>LiveSet::insert\<close> for a virtual register numbered 64 or above, and at an overflow in
  \<open>spill_base\<close>, where the model goes on with the wrapped value; totality of allocation and of what is
  built on it is for release builds.

  Not modelled: LLVM itself (parsing and optimising IR through \<open>inkwell\<close>), command line parsing
  (\<open>clap\<close>) and the operating system, all of which are arguments of the model; the unit tests of the
  crates and the tests that run an external simulator.
\<close>

end
